(* ===== verification/Rust_Str.thy ===== *)
theory Rust_Str
  imports Prelude
begin

text \<open>
  The parts of Rust's \<open>str\<close> and \<open>char\<close> that the program uses.

  A Rust \<open>str\<close> is its UTF-8 bytes, kept here as a HOL \<open>string\<close> (one \<open>char\<close> per byte), so that
  \<open>len\<close>, slicing, \<open>is_char_boundary\<close>, \<open>ends_with\<close> and literals are those of the byte list. A Rust
  \<open>char\<close> is a Unicode scalar value, kept as its code point (\<open>uchar\<close>); \<open>chars\<close> decodes and
  \<open>of_chars\<close> (\<open>collect::<String>()\<close>) encodes. \<open>is_str\<close> is the type invariant of \<open>str\<close>: the
  bytes are well-formed UTF-8 (Unicode 15, table 3-7). The two conversions are inverse on
  well-formed strings (\<open>chars_of_chars\<close>, \<open>of_chars_chars\<close>).
\<close>

type_synonym uchar = nat

definition is_scalar :: "uchar \<Rightarrow> bool" where
  "is_scalar c \<longleftrightarrow> c < 0xD800 \<or> (0xE000 \<le> c \<and> c < 0x110000)"

section \<open>UTF-8\<close>

text \<open>Byte values are \<open>nat\<close> below 256 in this section.\<close>

definition is_cont :: "nat \<Rightarrow> bool" where
  "is_cont b \<longleftrightarrow> 0x80 \<le> b \<and> b < 0xC0"

definition utf8_enc :: "uchar \<Rightarrow> nat list" where
  "utf8_enc c =
     (if c < 0x80 then [c]
      else if c < 0x800 then [0xC0 + c div 64, 0x80 + c mod 64]
      else if c < 0x10000 then [0xE0 + c div 4096, 0x80 + c div 64 mod 64, 0x80 + c mod 64]
      else [0xF0 + c div 262144, 0x80 + c div 4096 mod 64, 0x80 + c div 64 mod 64,
            0x80 + c mod 64])"

text \<open>Decode the scalar at the front of a byte list: its value and its width.\<close>

fun utf8_dec1 :: "nat list \<Rightarrow> (uchar \<times> nat) option" where
  "utf8_dec1 [] = None"
| "utf8_dec1 (b0 # bs) =
     (if b0 < 0x80 then Some (b0, 1)
      else if 0xC2 \<le> b0 \<and> b0 < 0xE0 then
        (case bs of b1 # _ \<Rightarrow>
           if is_cont b1 then Some ((b0 - 0xC0) * 64 + (b1 - 0x80), 2) else None
         | _ \<Rightarrow> None)
      else if 0xE0 \<le> b0 \<and> b0 < 0xF0 then
        (case bs of b1 # b2 # _ \<Rightarrow>
           if is_cont b1 \<and> is_cont b2 \<and> (b0 = 0xE0 \<longrightarrow> 0xA0 \<le> b1) \<and> (b0 = 0xED \<longrightarrow> b1 < 0xA0)
           then Some ((b0 - 0xE0) * 4096 + (b1 - 0x80) * 64 + (b2 - 0x80), 3) else None
         | _ \<Rightarrow> None)
      else if 0xF0 \<le> b0 \<and> b0 < 0xF5 then
        (case bs of b1 # b2 # b3 # _ \<Rightarrow>
           if is_cont b1 \<and> is_cont b2 \<and> is_cont b3 \<and>
              (b0 = 0xF0 \<longrightarrow> 0x90 \<le> b1) \<and> (b0 = 0xF4 \<longrightarrow> b1 < 0x90)
           then Some ((b0 - 0xF0) * 262144 + (b1 - 0x80) * 4096 + (b2 - 0x80) * 64 + (b3 - 0x80), 4)
           else None
         | _ \<Rightarrow> None)
      else None)"

lemma utf8_dec1_width:
  "utf8_dec1 bs = Some (c, w) \<Longrightarrow> 0 < w \<and> w \<le> length bs \<and> w \<le> 4"
  by (cases bs) (auto split: if_splits list.splits)

lemma base64_split:
  fixes c :: nat
  shows "c = c div 64 * 64 + c mod 64"
    and "c div 64 = c div 4096 * 64 + c div 64 mod 64"
    and "c div 4096 = c div 262144 * 64 + c div 4096 mod 64"
proof -
  have "c div 64 div 64 = c div 4096" and "c div 4096 div 64 = c div 262144"
    by (simp_all add: div_mult2_eq [symmetric])
  then show "c = c div 64 * 64 + c mod 64"
    and "c div 64 = c div 4096 * 64 + c div 64 mod 64"
    and "c div 4096 = c div 262144 * 64 + c div 4096 mod 64"
    by (metis div_mult_mod_eq)+
qed

lemma utf8_dec1_enc:
  assumes "is_scalar c"
  shows "utf8_dec1 (utf8_enc c @ bs) = Some (c, length (utf8_enc c))"
proof -
  consider "c < 0x80" | "0x80 \<le> c" "c < 0x800" | "0x800 \<le> c" "c < 0x10000" | "0x10000 \<le> c"
    by linarith
  then show ?thesis
  proof cases
    case 1
    then show ?thesis by (simp add: utf8_enc_def)
  next
    case 2
    then have "2 \<le> c div 64" "c div 64 < 32" by auto
    with 2 show ?thesis by (simp add: utf8_enc_def is_cont_def)
  next
    case 3
    note d = base64_split [of c]
    have q: "c div 4096 < 16" using 3 by auto
    have lo: "c div 4096 = 0 \<Longrightarrow> 32 \<le> c div 64 mod 64" using 3 d by linarith
    have hi: "c div 4096 = 13 \<Longrightarrow> c div 64 mod 64 < 32"
      using assms d unfolding is_scalar_def by linarith
    have v: "c div 4096 * 4096 + c div 64 mod 64 * 64 + c mod 64 = c"
      using d by linarith
    show ?thesis using 3 q lo hi v by (simp add: utf8_enc_def is_cont_def)
  next
    case 4
    with assms have top: "c < 0x110000" by (simp add: is_scalar_def)
    note d = base64_split [of c]
    have q: "c div 262144 < 5" using top by auto
    have lo: "c div 262144 = 0 \<Longrightarrow> 16 \<le> c div 4096 mod 64" using 4 d by linarith
    have hi: "c div 262144 = 4 \<Longrightarrow> c div 4096 mod 64 < 16" using top d by linarith
    have v: "c div 262144 * 262144 + c div 4096 mod 64 * 4096 + c div 64 mod 64 * 64 + c mod 64 = c"
      using d by linarith
    show ?thesis using 4 q lo hi v by (simp add: utf8_enc_def is_cont_def)
  qed
qed

lemma base64_digit: "r < 64 \<Longrightarrow> c = q * 64 + r \<Longrightarrow> c mod 64 = r \<and> c div 64 = q" for c :: nat
  by simp

lemma utf8_dec1_sound:
  assumes "utf8_dec1 bs = Some (c, w)"
  shows "is_scalar c \<and> take w bs = utf8_enc c"
proof (cases bs)
  case Nil
  with assms show ?thesis by simp
next
  case (Cons b0 r)
  consider "b0 < 0x80" | "0xC2 \<le> b0" "b0 < 0xE0" | "0xE0 \<le> b0" "b0 < 0xF0"
    | "0xF0 \<le> b0" "b0 < 0xF5"
    using assms Cons by (fastforce split: if_splits)
  then show ?thesis
  proof cases
    case 1
    with assms Cons show ?thesis by (auto simp: is_scalar_def utf8_enc_def)
  next
    case 2
    with assms Cons obtain b1 r1 where r: "r = b1 # r1" "is_cont b1" "w = 2"
      and c: "c = (b0 - 0xC0) * 64 + (b1 - 0x80)"
      by (auto split: if_splits list.splits)
    from r(2) have "b1 - 0x80 < 64" by (auto simp: is_cont_def)
    with c have d: "c div 64 = b0 - 0xC0" "c mod 64 = b1 - 0x80" by simp_all
    have "0x80 \<le> c" "c < 0x800" using c 2 \<open>b1 - 0x80 < 64\<close> by linarith+
    with d 2 r Cons show ?thesis by (auto simp: is_scalar_def utf8_enc_def is_cont_def)
  next
    case 3
    with assms Cons obtain b1 b2 r1 where r: "r = b1 # b2 # r1" "is_cont b1" "is_cont b2" "w = 3"
      and lo: "b0 = 0xE0 \<longrightarrow> 0xA0 \<le> b1" and hi: "b0 = 0xED \<longrightarrow> b1 < 0xA0"
      and c: "c = (b0 - 0xE0) * 4096 + (b1 - 0x80) * 64 + (b2 - 0x80)"
      by (auto split: if_splits list.splits)
    from r have b: "b1 - 0x80 < 64" "b2 - 0x80 < 64" by (auto simp: is_cont_def)
    have c': "c = ((b0 - 0xE0) * 64 + (b1 - 0x80)) * 64 + (b2 - 0x80)" using c by simp
    have d: "c mod 64 = b2 - 0x80" "c div 64 = (b0 - 0xE0) * 64 + (b1 - 0x80)"
      using base64_digit [OF b(2) c'] by simp_all
    then have m: "c div 64 mod 64 = b1 - 0x80" "c div 4096 = b0 - 0xE0"
      using b div_mult2_eq [of c 64 64] by simp_all
    have "0x800 \<le> c" using lo c 3 r by (auto simp: is_cont_def)
    moreover have "c < 0x10000" using c 3 b by linarith
    moreover have "is_scalar c"
    proof (cases "b0 \<le> 0xED")
      case True
      then show ?thesis using hi c 3 b by (cases "b0 = 0xED") (auto simp: is_scalar_def)
    next
      case False
      then have "0xE000 \<le> c" using c by linarith
      then show ?thesis using \<open>c < 0x10000\<close> by (simp add: is_scalar_def)
    qed
    moreover have "utf8_enc c = [b0, b1, b2]"
      using \<open>0x800 \<le> c\<close> \<open>c < 0x10000\<close> m d(1) r(2,3) 3 by (simp add: utf8_enc_def is_cont_def)
    ultimately show ?thesis using r Cons by simp
  next
    case 4
    with assms Cons obtain b1 b2 b3 r1 where r: "r = b1 # b2 # b3 # r1"
      "is_cont b1" "is_cont b2" "is_cont b3" "w = 4"
      and lo: "b0 = 0xF0 \<longrightarrow> 0x90 \<le> b1" and hi: "b0 = 0xF4 \<longrightarrow> b1 < 0x90"
      and c: "c = (b0 - 0xF0) * 262144 + (b1 - 0x80) * 4096 + (b2 - 0x80) * 64 + (b3 - 0x80)"
      by (auto split: if_splits list.splits)
    from r have b: "b1 - 0x80 < 64" "b2 - 0x80 < 64" "b3 - 0x80 < 64" by (auto simp: is_cont_def)
    let ?h = "(b0 - 0xF0) * 64 + (b1 - 0x80)"
    have c': "c = (?h * 64 + (b2 - 0x80)) * 64 + (b3 - 0x80)" using c by simp
    have d: "c mod 64 = b3 - 0x80" "c div 64 = ?h * 64 + (b2 - 0x80)"
      using base64_digit [OF b(3) c'] by simp_all
    then have d2: "c div 64 mod 64 = b2 - 0x80" "c div 4096 = ?h"
      using base64_digit [OF b(2) d(2)] div_mult2_eq [of c 64 64] by simp_all
    then have m: "c div 4096 mod 64 = b1 - 0x80" "c div 262144 = b0 - 0xF0"
      using base64_digit [OF b(1) d2(2)] div_mult2_eq [of c 4096 64] by simp_all
    have "0x10000 \<le> c" using lo c 4 r by (auto simp: is_cont_def)
    moreover have "c < 0x110000"
    proof (cases "b0 = 0xF4")
      case True
      with hi have "b1 - 0x80 < 0x10" by auto
      then show ?thesis using True c b(2,3) by linarith
    next
      case False
      then have "b0 - 0xF0 \<le> 3" using 4 by linarith
      then show ?thesis using c b by linarith
    qed
    moreover have "utf8_enc c = [b0, b1, b2, b3]"
      using \<open>0x10000 \<le> c\<close> m d(1) d2(1) r(2,3,4) 4 by (simp add: utf8_enc_def is_cont_def)
    ultimately show ?thesis using r Cons by (simp add: is_scalar_def)
  qed
qed

declare utf8_dec1.simps [simp del]

function utf8_decode :: "nat list \<Rightarrow> uchar list option" where
  "utf8_decode [] = Some []"
| "utf8_decode (b # bs) =
     (case utf8_dec1 (b # bs) of
        None \<Rightarrow> None
      | Some (c, w) \<Rightarrow> map_option ((#) c) (utf8_decode (drop w (b # bs))))"
  by pat_completeness auto
termination
  by (relation "measure length") (auto dest!: utf8_dec1_width)

definition utf8_encode :: "uchar list \<Rightarrow> nat list" where
  "utf8_encode cs = concat (map utf8_enc cs)"

lemma utf8_encode_simps [simp]:
  "utf8_encode [] = []"
  "utf8_encode (c # cs) = utf8_enc c @ utf8_encode cs"
  "utf8_encode (cs @ ds) = utf8_encode cs @ utf8_encode ds"
  by (simp_all add: utf8_encode_def)

lemma utf8_enc_not_Nil [simp]: "utf8_enc c \<noteq> []"
  by (simp add: utf8_enc_def)

lemma utf8_decode_enc_append:
  assumes "is_scalar c"
  shows "utf8_decode (utf8_enc c @ bs) = map_option ((#) c) (utf8_decode bs)"
proof -
  obtain b r where br: "utf8_enc c = b # r" by (cases "utf8_enc c") auto
  then have "utf8_dec1 (b # r @ bs) = Some (c, Suc (length r))"
    using utf8_dec1_enc [OF assms, of bs] by simp
  then show ?thesis by (simp add: br)
qed

lemma utf8_decode_encode: "list_all is_scalar cs \<Longrightarrow> utf8_decode (utf8_encode cs) = Some cs"
  by (induction cs) (auto simp: utf8_decode_enc_append)

lemma utf8_decode_sound:
  "utf8_decode bs = Some cs \<Longrightarrow> list_all is_scalar cs \<and> utf8_encode cs = bs"
proof (induction bs arbitrary: cs rule: utf8_decode.induct)
  case 1
  then show ?case by simp
next
  case (2 b bs)
  then obtain c w cs' where d: "utf8_dec1 (b # bs) = Some (c, w)"
    and r: "utf8_decode (drop w (b # bs)) = Some cs'" and cs: "cs = c # cs'"
    by (auto split: option.splits)
  from "2.IH" [OF d refl r] have "list_all is_scalar cs'" "utf8_encode cs' = drop w (b # bs)"
    by simp_all
  then have "utf8_encode cs = take w (b # bs) @ drop w (b # bs)"
    and "list_all is_scalar cs"
    using utf8_dec1_sound [OF d] by (auto simp: cs)
  then show ?case by (simp only: append_take_drop_id simp_thms)
qed

lemma utf8_decode_append:
  assumes "utf8_decode xs = Some cs" and "utf8_decode ys = Some ds"
  shows "utf8_decode (xs @ ys) = Some (cs @ ds)"
  using utf8_decode_sound [OF assms(1)] utf8_decode_sound [OF assms(2)]
    utf8_decode_encode [of "cs @ ds"] by simp

section \<open>Strings as bytes and as characters\<close>

definition codes :: "string \<Rightarrow> nat list" where
  "codes s = map of_char s"

definition str_of_codes :: "nat list \<Rightarrow> string" where
  "str_of_codes bs = map char_of bs"

definition is_str :: "string \<Rightarrow> bool" where
  "is_str s \<longleftrightarrow> utf8_decode (codes s) \<noteq> None"

definition chars :: "string \<Rightarrow> uchar list" where
  "chars s = (case utf8_decode (codes s) of None \<Rightarrow> [] | Some cs \<Rightarrow> cs)"

definition of_chars :: "uchar list \<Rightarrow> string" where
  "of_chars cs = str_of_codes (utf8_encode cs)"

definition as_bytes :: "string \<Rightarrow> bytes" where
  "as_bytes s = map of_char s"

definition str_of_bytes :: "bytes \<Rightarrow> string" where
  "str_of_bytes bs = map (\<lambda>b. char_of (unat b)) bs"

text \<open>\<open>str::from_utf8\<close>.\<close>

definition from_utf8 :: "bytes \<Rightarrow> string option" where
  "from_utf8 bs = (let s = str_of_bytes bs in if is_str s then Some s else None)"

lemma utf8_enc_bytes: "is_scalar c \<Longrightarrow> \<forall>b \<in> set (utf8_enc c). b < 256"
  by (auto simp: utf8_enc_def is_scalar_def less_mult_imp_div_less)

lemma codes_str_of_codes: "\<forall>b \<in> set bs. b < 256 \<Longrightarrow> codes (str_of_codes bs) = bs"
  by (induction bs) (auto simp: codes_def str_of_codes_def)

lemma str_of_codes_codes [simp]: "str_of_codes (codes s) = s"
  by (induction s) (auto simp: codes_def str_of_codes_def)

lemma length_codes [simp]: "length (codes s) = length s"
  by (simp add: codes_def)

lemma codes_append [simp]: "codes (s @ t) = codes s @ codes t"
  by (simp add: codes_def)

lemma of_chars_Nil [simp]: "of_chars [] = []"
  by (simp add: of_chars_def str_of_codes_def)

lemma of_chars_append [simp]: "of_chars (cs @ ds) = of_chars cs @ of_chars ds"
  by (simp add: of_chars_def str_of_codes_def)

lemma of_chars_eq_Nil [simp]: "of_chars cs = [] \<longleftrightarrow> cs = []"
  by (cases cs) (simp_all add: of_chars_def str_of_codes_def)

lemma codes_of_chars:
  assumes "list_all is_scalar cs"
  shows "codes (of_chars cs) = utf8_encode cs"
proof -
  have "\<forall>b \<in> set (utf8_encode cs). b < 256"
    using assms utf8_enc_bytes by (induction cs) auto
  then show ?thesis by (simp add: of_chars_def codes_str_of_codes)
qed

lemma chars_of_chars [simp]: "list_all is_scalar cs \<Longrightarrow> chars (of_chars cs) = cs"
  by (simp add: chars_def codes_of_chars utf8_decode_encode)

lemma is_str_of_chars [simp]: "list_all is_scalar cs \<Longrightarrow> is_str (of_chars cs)"
  by (simp add: is_str_def codes_of_chars utf8_decode_encode)

lemma chars_scalar [simp]: "list_all is_scalar (chars s)"
  by (auto simp: chars_def dest: utf8_decode_sound split: option.splits)

lemma of_chars_chars [simp]: "is_str s \<Longrightarrow> of_chars (chars s) = s"
  using utf8_decode_sound [of "codes s"]
  by (auto simp: is_str_def chars_def of_chars_def)

lemma is_str_append: "is_str s \<Longrightarrow> is_str t \<Longrightarrow> is_str (s @ t)"
  unfolding is_str_def by (auto simp: utf8_decode_append)

lemma chars_append: "is_str s \<Longrightarrow> is_str t \<Longrightarrow> chars (s @ t) = chars s @ chars t"
  by (auto simp: is_str_def chars_def utf8_decode_append)

lemma is_str_Nil [simp]: "is_str []"
  by (simp add: is_str_def codes_def)

lemma chars_Nil [simp]: "chars [] = []"
  by (simp add: chars_def codes_def)

lemma chars_eq_Nil: "is_str s \<Longrightarrow> chars s = [] \<longleftrightarrow> s = []"
  using of_chars_chars [of s] by fastforce

lemma unat_of_char [simp]: "unat (of_char c :: u8) = of_char c"
proof -
  have "(of_char c :: nat) < 256" by simp
  moreover have "(of_char c :: u8) = of_nat (of_char c)"
    by (rule of_nat_of_char [symmetric])
  ultimately show ?thesis by (simp add: unat_of_nat)
qed

lemma str_of_bytes_as_bytes [simp]: "str_of_bytes (as_bytes s) = s"
  by (induction s) (auto simp: str_of_bytes_def as_bytes_def)

lemma length_as_bytes [simp]: "length (as_bytes s) = length s"
  by (simp add: as_bytes_def)

lemma from_utf8_as_bytes [simp]: "is_str s \<Longrightarrow> from_utf8 (as_bytes s) = Some s"
  by (simp add: from_utf8_def)

section \<open>Character boundaries and slices\<close>

text \<open>\<open>str::is_char_boundary\<close> and the checked slice \<open>&s[a..b]\<close>, which panics off a boundary.\<close>

definition is_char_boundary :: "string \<Rightarrow> nat \<Rightarrow> bool" where
  "is_char_boundary s i \<longleftrightarrow>
     i = 0 \<or> (if length s \<le> i then i = length s else \<not> is_cont (of_char (s ! i)))"

definition str_slice :: "nat \<Rightarrow> nat \<Rightarrow> string \<Rightarrow> string run" where
  "str_slice a b s =
     (if a \<le> b \<and> b \<le> length s \<and> is_char_boundary s a \<and> is_char_boundary s b
      then Returns (slice a b s) else Panics)"

definition str_slice_from :: "nat \<Rightarrow> string \<Rightarrow> string run" where
  "str_slice_from a s = str_slice a (length s) s"

declare slice_def [str_eval] is_cont_def [str_eval] is_char_boundary_def [str_eval] str_slice_def [str_eval]
  str_slice_from_def [str_eval]

lemma is_char_boundary_ends [simp]: "is_char_boundary s 0" "is_char_boundary s (length s)"
  by (simp_all add: is_char_boundary_def)

lemma utf8_enc_cont: "0 < i \<Longrightarrow> i < length (utf8_enc c) \<Longrightarrow> is_cont (utf8_enc c ! i)"
  by (auto simp: utf8_enc_def is_cont_def nth_Cons' split: if_splits)

lemma utf8_boundary_split:
  assumes "list_all is_scalar cs" and "i \<le> length (utf8_encode cs)"
    and "i = 0 \<or> i = length (utf8_encode cs) \<or> \<not> is_cont (utf8_encode cs ! i)"
  shows "\<exists>k. take i (utf8_encode cs) = utf8_encode (take k cs) \<and>
             drop i (utf8_encode cs) = utf8_encode (drop k cs)"
  using assms
proof (induction cs arbitrary: i)
  case Nil
  then show ?case by simp
next
  case (Cons c cs)
  let ?w = "length (utf8_enc c)"
  show ?case
  proof (cases "i = 0")
    case True
    then show ?thesis by (intro exI [of _ 0]) simp
  next
    case i0: False
    show ?thesis
    proof (cases "i < ?w")
      case True
      then have "is_cont (utf8_encode (c # cs) ! i)"
        using i0 utf8_enc_cont by (simp add: nth_append)
      moreover have "i \<noteq> length (utf8_encode (c # cs))" using True by simp
      ultimately show ?thesis using i0 Cons.prems(3) by blast
    next
      case False
      then obtain j where j: "i = ?w + j" by (metis add.commute le_Suc_ex not_less)
      have "\<exists>k. take j (utf8_encode cs) = utf8_encode (take k cs) \<and>
                drop j (utf8_encode cs) = utf8_encode (drop k cs)"
        using Cons.prems j i0 by (intro Cons.IH) (auto simp: nth_append)
      then obtain k where "take j (utf8_encode cs) = utf8_encode (take k cs)"
        and "drop j (utf8_encode cs) = utf8_encode (drop k cs)" by blast
      then show ?thesis using j by (intro exI [of _ "Suc k"]) simp
    qed
  qed
qed

lemma is_str_split:
  assumes "is_str s" and "is_char_boundary s i" and "i \<le> length s"
  shows "is_str (take i s)" and "is_str (drop i s)"
proof -
  obtain cs where cs: "utf8_decode (codes s) = Some cs"
    using assms(1) by (auto simp: is_str_def)
  then have e: "list_all is_scalar cs" "utf8_encode cs = codes s"
    using utf8_decode_sound by auto
  have l: "length (utf8_encode cs) = length s" by (simp add: e)
  have b: "i = 0 \<or> i = length (utf8_encode cs) \<or> \<not> is_cont (utf8_encode cs ! i)"
    using assms(2,3) by (auto simp: l is_char_boundary_def e codes_def split: if_splits)
  obtain k where k: "take i (codes s) = utf8_encode (take k cs)"
    "drop i (codes s) = utf8_encode (drop k cs)"
    using utf8_boundary_split [OF e(1) _ b] assms(3) by (auto simp: l e)
  have "list_all is_scalar (take k cs)" "list_all is_scalar (drop k cs)"
    using e(1) by (auto simp: list_all_iff dest: in_set_takeD in_set_dropD)
  with k show "is_str (take i s)" "is_str (drop i s)"
    by (auto simp: is_str_def codes_def take_map drop_map utf8_decode_encode)
qed

lemma ascii_boundary:
  assumes "\<forall>c \<in> set s. (of_char c :: nat) < 128"
  shows "is_char_boundary s i \<longleftrightarrow> i \<le> length s"
proof (cases "i < length s")
  case True
  then have "(of_char (s ! i) :: nat) < 128" using assms by simp
  with True show ?thesis by (simp add: is_char_boundary_def is_cont_def)
next
  case False
  then show ?thesis by (auto simp: is_char_boundary_def)
qed

lemma ascii_utf8: "\<forall>b \<in> set bs. b < 128 \<Longrightarrow> utf8_decode bs = Some bs"
  by (induction bs) (auto simp: utf8_dec1.simps)

lemma ascii_is_str: "\<forall>c \<in> set s. (of_char c :: nat) < 128 \<Longrightarrow> is_str s \<and> chars s = codes s"
  by (simp add: is_str_def chars_def ascii_utf8 codes_def)

lemma length_utf8_encode: "length cs \<le> length (utf8_encode cs)"
  by (induction cs) (simp, auto simp: utf8_enc_def)

lemma utf8_encode_narrow: "length (utf8_encode cs) = length cs \<Longrightarrow> list_all (\<lambda>c. c < 128) cs"
proof (induction cs)
  case (Cons c cs)
  have l: "0 < length (utf8_enc c)" by simp
  with Cons.prems length_utf8_encode [of cs] have "length (utf8_enc c) = 1"
    and "length (utf8_encode cs) = length cs" by (simp_all del: length_greater_0_conv)
  with Cons.IH show ?case by (simp add: utf8_enc_def split: if_splits)
qed simp

lemma utf8_encode_ascii: "list_all (\<lambda>c. c < 128) cs \<Longrightarrow> utf8_encode cs = cs"
  by (induction cs) (auto simp: utf8_enc_def)

text \<open>A string whose characters are ASCII is one, byte for byte; so is one with a byte per character.\<close>

lemma chars_ascii:
  assumes "is_str s" and "list_all (\<lambda>c. c < 128) (chars s)"
  shows "\<forall>c \<in> set s. (of_char c :: nat) < 128"
proof -
  have "codes s = codes (of_chars (chars s))" using assms(1) by simp
  also have "\<dots> = chars s" using assms(2) by (simp add: codes_of_chars utf8_encode_ascii)
  finally have "codes s = chars s" .
  with assms(2) have "list_all (\<lambda>c. c < 128) (codes s)" by simp
  then show ?thesis by (auto simp: list_all_iff codes_def)
qed

lemma length_chars_le: "is_str s \<Longrightarrow> length (chars s) \<le> length s"
  using length_utf8_encode [of "chars s"] codes_of_chars [of "chars s"]
  by (metis chars_scalar length_codes of_chars_chars)

lemma chars_narrow:
  assumes "is_str s" and "length (chars s) = length s"
  shows "\<forall>c \<in> set s. (of_char c :: nat) < 128"
proof (rule chars_ascii [OF assms(1)])
  have "codes s = utf8_encode (chars s)" using assms(1) codes_of_chars [of "chars s"] by simp
  then show "list_all (\<lambda>c. c < 128) (chars s)"
    using assms(2) utf8_encode_narrow by (metis length_codes)
qed

lemma scalar_filter [simp]: "list_all is_scalar (filter P (chars s))"
  using chars_scalar [of s] by (auto simp: list_all_iff)

section \<open>Whitespace\<close>

text \<open>\<open>char::is_whitespace\<close>: the Unicode property White_Space.\<close>

definition is_whitespace :: "uchar \<Rightarrow> bool" where
  "is_whitespace c \<longleftrightarrow>
     (9 \<le> c \<and> c \<le> 13) \<or> c = 0x20 \<or> c = 0x85 \<or> c = 0xA0 \<or> c = 0x1680 \<or>
     (0x2000 \<le> c \<and> c \<le> 0x200A) \<or> c = 0x2028 \<or> c = 0x2029 \<or> c = 0x202F \<or> c = 0x205F \<or> c = 0x3000"

definition trim_chars :: "uchar list \<Rightarrow> uchar list" where
  "trim_chars cs = rev (dropWhile is_whitespace (rev (dropWhile is_whitespace cs)))"

definition trim :: "string \<Rightarrow> string" where
  "trim s = of_chars (trim_chars (chars s))"

lemma trim_chars_eq_Nil: "trim_chars cs = [] \<longleftrightarrow> list_all is_whitespace cs"
  by (auto simp: trim_chars_def dropWhile_eq_Nil_conv list_all_iff dest: set_dropWhileD)
    (metis dropWhile_eq_Nil_conv dropWhile_idem hd_dropWhile hd_in_set)

lemma trim_eq_Nil: "trim s = [] \<longleftrightarrow> list_all is_whitespace (chars s)"
  by (simp add: trim_def trim_chars_eq_Nil)

lemma trim_chars_idem_none: "list_all (\<lambda>c. \<not> is_whitespace c) cs \<Longrightarrow> trim_chars cs = cs"
proof -
  assume a: "list_all (\<lambda>c. \<not> is_whitespace c) cs"
  have d: "dropWhile is_whitespace xs = xs" if "list_all (\<lambda>c. \<not> is_whitespace c) xs" for xs
    using that by (cases xs) auto
  from a have "list_all (\<lambda>c. \<not> is_whitespace c) (rev cs)" by simp
  with d a show ?thesis by (simp add: trim_chars_def)
qed

section \<open>Lossy decoding\<close>

text \<open>
  \<open>String::from_utf8_lossy\<close>: each maximal ill-formed prefix becomes one U+FFFD. \<open>utf8_bad_len\<close> is the
  length of the maximal subpart at the front of a list that does not start a well-formed scalar.
\<close>

fun utf8_bad_len :: "nat list \<Rightarrow> nat" where
  "utf8_bad_len [] = 1"
| "utf8_bad_len (b0 # bs) =
     (if 0xE0 \<le> b0 \<and> b0 < 0xF0 then
        (case bs of b1 # _ \<Rightarrow>
           if is_cont b1 \<and> (b0 = 0xE0 \<longrightarrow> 0xA0 \<le> b1) \<and> (b0 = 0xED \<longrightarrow> b1 < 0xA0) then 2 else 1
         | _ \<Rightarrow> 1)
      else if 0xF0 \<le> b0 \<and> b0 < 0xF5 then
        (case bs of b1 # bs2 \<Rightarrow>
           if is_cont b1 \<and> (b0 = 0xF0 \<longrightarrow> 0x90 \<le> b1) \<and> (b0 = 0xF4 \<longrightarrow> b1 < 0x90) then
             (case bs2 of b2 # _ \<Rightarrow> if is_cont b2 then 3 else 2 | _ \<Rightarrow> 2)
           else 1
         | _ \<Rightarrow> 1)
      else 1)"

lemma utf8_bad_len_pos: "0 < utf8_bad_len bs"
  by (cases bs) (auto split: list.splits)

function utf8_lossy :: "nat list \<Rightarrow> uchar list" where
  "utf8_lossy [] = []"
| "utf8_lossy (b # bs) =
     (case utf8_dec1 (b # bs) of
        None \<Rightarrow> 0xFFFD # utf8_lossy (drop (utf8_bad_len (b # bs)) (b # bs))
      | Some (c, w) \<Rightarrow> c # utf8_lossy (drop w (b # bs)))"
  by pat_completeness auto
termination
proof (relation "measure length", goal_cases)
  case (2 b bs)
  then show ?case using utf8_bad_len_pos [of "b # bs"] by (simp del: utf8_bad_len.simps)
next
  case (3 b bs x c w)
  then show ?case by (auto dest!: utf8_dec1_width)
qed simp

definition from_utf8_lossy :: "bytes \<Rightarrow> string" where
  "from_utf8_lossy bs = of_chars (utf8_lossy (map unat bs))"

lemma utf8_lossy_decode: "utf8_decode bs = Some cs \<Longrightarrow> utf8_lossy bs = cs"
  by (induction bs arbitrary: cs rule: utf8_decode.induct) (auto split: option.splits)

lemma utf8_lossy_scalar: "list_all is_scalar (utf8_lossy bs)"
  by (induction bs rule: utf8_lossy.induct)
    (auto split: option.splits dest: utf8_dec1_sound simp: is_scalar_def simp del: utf8_bad_len.simps)

lemma from_utf8_lossy_is_str [simp]: "is_str (from_utf8_lossy bs)"
  by (simp add: from_utf8_lossy_def utf8_lossy_scalar)

lemma from_utf8_lossy_as_bytes: "is_str s \<Longrightarrow> from_utf8_lossy (as_bytes s) = s"
proof -
  assume s: "is_str s"
  then obtain cs where cs: "utf8_decode (codes s) = Some cs" by (auto simp: is_str_def)
  have "map unat (as_bytes s) = codes s" by (simp add: as_bytes_def codes_def)
  with cs have "utf8_lossy (map unat (as_bytes s)) = chars s"
    by (simp add: utf8_lossy_decode chars_def)
  with s show ?thesis by (simp add: from_utf8_lossy_def)
qed

end
