(* ===== verification/Chunker.thy ===== *)
theory Chunker
  imports Rust_Str
begin

text \<open>
  The text chunker, \<open>ingestion/src/chunker.rs\<close>: overlapping windows of 2048 characters every
  1848 characters, windows of white space dropped. \<open>chunk_by_chars\<close> is the loop of the code
  (\<open>chunk_loop\<close> is its body from a given \<open>start\<close>), with the slice \<open>chars[start..end]\<close> checked as the
  code's slicing is. \<open>windows\<close> is the reference: the list of all windows, in closed form.
\<close>

definition CHUNK_CHARS :: nat where "CHUNK_CHARS = 2048"

definition OVERLAP_CHARS :: nat where "OVERLAP_CHARS = 200"

definition STRIDE_CHARS :: nat where "STRIDE_CHARS = CHUNK_CHARS - OVERLAP_CHARS"

lemma STRIDE_CHARS_eq [simp]: "STRIDE_CHARS = 1848"
  by (simp add: STRIDE_CHARS_def CHUNK_CHARS_def OVERLAP_CHARS_def)

section \<open>The loop\<close>

function chunk_loop :: "uchar list \<Rightarrow> nat \<Rightarrow> string list \<Rightarrow> string list run" where
  "chunk_loop cs start chunks =
     (let end = min (start + CHUNK_CHARS) (length cs)
      in if end < start then Panics
         else let s = of_chars (slice start end cs);
                  chunks' = (if trim s \<noteq> [] then chunks @ [s] else chunks)
              in if end = length cs then Returns chunks'
                 else chunk_loop cs (start + STRIDE_CHARS) chunks')"
  by pat_completeness auto
termination
  by (relation "measure (\<lambda>(cs, start, chunks). length cs - start)") (auto simp: CHUNK_CHARS_def)

declare chunk_loop.simps [simp del]

definition chunk_by_chars :: "string \<Rightarrow> string list run" where
  "chunk_by_chars text = chunk_loop (chars text) 0 []"

definition chunk :: "string \<Rightarrow> (anyhow + string list) run" where
  "chunk text = (if trim text = [] then Returns (Inr []) else run_map Inr (chunk_by_chars text))"

section \<open>Reference: the list of windows\<close>

definition window :: "uchar list \<Rightarrow> nat \<Rightarrow> uchar list" where
  "window cs k = take CHUNK_CHARS (drop (k * STRIDE_CHARS) cs)"

text \<open>The number of windows: one, and one more for every stride started beyond the first window.\<close>

definition window_count :: "nat \<Rightarrow> nat" where
  "window_count n = Suc ((n - CHUNK_CHARS + STRIDE_CHARS - 1) div STRIDE_CHARS)"

definition windows :: "uchar list \<Rightarrow> uchar list list" where
  "windows cs = map (window cs) [0..<window_count (length cs)]"

definition blank :: "uchar list \<Rightarrow> bool" where
  "blank cs \<longleftrightarrow> list_all is_whitespace cs"

lemma window_scalar: "list_all is_scalar cs \<Longrightarrow> list_all is_scalar (window cs k)"
  by (auto simp: window_def list_all_iff dest!: in_set_takeD in_set_dropD)

lemma window_slice:
  "slice (k * STRIDE_CHARS) (min (k * STRIDE_CHARS + CHUNK_CHARS) (length cs)) cs = window cs k"
  by (simp add: slice_def window_def min_def)

lemma window_count_last:
  "k * 1848 + 2048 < n \<longleftrightarrow> Suc k < window_count n"
  unfolding window_count_def CHUNK_CHARS_def STRIDE_CHARS_eq by (simp, linarith)

lemma chunk_loop_windows:
  assumes "list_all is_scalar cs" and "k < window_count (length cs)"
  shows "chunk_loop cs (k * STRIDE_CHARS) acc =
     Returns (acc @ map of_chars (filter (\<lambda>w. \<not> blank w)
        (map (window cs) [k..<window_count (length cs)])))"
  using assms(2)
proof (induction "window_count (length cs) - k" arbitrary: k acc)
  case 0
  then show ?case by simp
next
  case (Suc m)
  let ?n = "length cs" and ?s = "k * STRIDE_CHARS"
  let ?acc = "if \<not> blank (window cs k) then acc @ [of_chars (window cs k)] else acc"
  have start: "?s \<le> min (?s + CHUNK_CHARS) ?n"
    using Suc.prems window_count_last [of "k - 1" ?n] by (cases k) auto
  have blank: "trim (of_chars (window cs k)) \<noteq> [] \<longleftrightarrow> \<not> blank (window cs k)"
    by (simp add: trim_eq_Nil blank_def window_scalar [OF assms(1)])
  have step: "chunk_loop cs ?s acc =
      (if min (?s + CHUNK_CHARS) ?n = ?n then Returns ?acc
       else chunk_loop cs (?s + STRIDE_CHARS) ?acc)"
    using start by (subst chunk_loop.simps) (simp only: Let_def window_slice blank leD [OF start] if_False)
  have upt: "[k..<window_count ?n] = k # [Suc k..<window_count ?n]"
    using Suc.prems by (simp add: upt_conv_Cons)
  show ?case
  proof (cases "min (?s + CHUNK_CHARS) ?n = ?n")
    case True
    then have "\<not> Suc k < window_count ?n"
      using window_count_last [of k ?n] by (auto simp: CHUNK_CHARS_def min_def split: if_splits)
    with True step upt show ?thesis by simp
  next
    case False
    then have lt: "Suc k < window_count ?n"
      using window_count_last [of k ?n] by (auto simp: CHUNK_CHARS_def min_def split: if_splits)
    have next_s: "?s + STRIDE_CHARS = Suc k * STRIDE_CHARS" by simp
    have "chunk_loop cs (Suc k * STRIDE_CHARS) ?acc = Returns (?acc @
        map of_chars (filter (\<lambda>w. \<not> blank w) (map (window cs) [Suc k..<window_count ?n])))"
      using lt Suc.hyps(2) by (intro Suc.hyps(1)) simp_all
    then have "chunk_loop cs ?s acc = Returns (?acc @
        map of_chars (filter (\<lambda>w. \<not> blank w) (map (window cs) [Suc k..<window_count ?n])))"
      by (simp only: step False if_False next_s)
    then show ?thesis by (simp add: upt)
  qed
qed


lemma windows_not_Nil [simp]: "windows cs \<noteq> []"
  by (simp add: windows_def window_count_def)

lemma window_of:
  assumes "p < n"
  shows "\<exists>k. k < window_count n \<and> k * 1848 \<le> p \<and> p < k * 1848 + 2048"
proof -
  let ?k = "min (p div 1848) (window_count n - 1)"
  have "?k * 1848 \<le> p div 1848 * 1848" by simp
  also have "\<dots> \<le> p" by simp
  finally have lo: "?k * 1848 \<le> p" .
  have hi: "p < ?k * 1848 + 2048"
  proof (cases "p div 1848 \<le> window_count n - 1")
    case True
    then have "?k = p div 1848" by simp
    moreover have "p < p div 1848 * 1848 + 2048"
      using div_mult_mod_eq [of p 1848] mod_less_divisor [of 1848 p] by linarith
    ultimately show ?thesis by simp
  next
    case False
    then have "?k = window_count n - 1" by simp
    moreover have "n \<le> (window_count n - 1) * 1848 + 2048"
      using window_count_last [of "window_count n - 1" n] by (simp add: window_count_def)
    ultimately show ?thesis using assms by simp
  qed
  have "window_count n - 1 < window_count n" by (simp add: window_count_def)
  then have "?k < window_count n" by linarith
  with lo hi show ?thesis by blast
qed

lemma nonblank_windows_Nil:
  "filter (\<lambda>w. \<not> blank w) (windows cs) = [] \<longleftrightarrow> blank cs"
proof
  assume none: "filter (\<lambda>w. \<not> blank w) (windows cs) = []"
  show "blank cs"
  proof (rule ccontr)
    assume "\<not> blank cs"
    then obtain p where p: "p < length cs" "\<not> is_whitespace (cs ! p)"
      by (auto simp: blank_def list_all_length)
    obtain k where k: "k < window_count (length cs)" "k * 1848 \<le> p" "p < k * 1848 + 2048"
      using window_of [OF p(1)] by blast
    then have "cs ! p \<in> set (window cs k)"
      using p(1) by (auto simp: window_def CHUNK_CHARS_def in_set_conv_nth
          intro!: exI [of _ "p - k * 1848"])
    with p(2) have "\<not> blank (window cs k)" by (auto simp: blank_def list_all_iff)
    with none k(1) show False by (auto simp: windows_def filter_empty_conv)
  qed
next
  assume "blank cs"
  then show "filter (\<lambda>w. \<not> blank w) (windows cs) = []"
    by (auto simp: windows_def blank_def window_def list_all_iff filter_empty_conv
        dest!: in_set_takeD in_set_dropD)
qed


lemma length_window: "Suc k < window_count (length cs) \<Longrightarrow> length (window cs k) = CHUNK_CHARS"
  using window_count_last [of k "length cs"] by (simp add: window_def CHUNK_CHARS_def)

lemma window_overlap:
  assumes "Suc k < window_count (length cs)"
  shows "drop STRIDE_CHARS (window cs k) = take OVERLAP_CHARS (window cs (Suc k))"
  by (simp add: window_def drop_take CHUNK_CHARS_def OVERLAP_CHARS_def add.commute)

lemma windows_prefix:
  "window cs 0 @ concat (map (\<lambda>k. drop OVERLAP_CHARS (window cs k)) [1..<Suc k]) =
     take (k * 1848 + 2048) cs"
proof (induction k)
  case 0
  then show ?case by (simp add: window_def CHUNK_CHARS_def)
next
  case (Suc k)
  have "drop OVERLAP_CHARS (window cs (Suc k)) = take 1848 (drop (k * 1848 + 2048) cs)"
    by (simp add: window_def drop_take CHUNK_CHARS_def OVERLAP_CHARS_def add.commute)
  moreover have "take (k * 1848 + 2048) cs @ take 1848 (drop (k * 1848 + 2048) cs) =
      take (Suc k * 1848 + 2048) cs"
    by (simp add: take_add [symmetric] algebra_simps)
  moreover have "[1..<Suc (Suc k)] = [1..<Suc k] @ [Suc k]" by simp
  ultimately show ?case using Suc.IH by (simp del: upt_Suc flip: append_assoc)
qed

lemma chunk_by_chars_eq:
  "chunk_by_chars text =
     Returns (map of_chars (filter (\<lambda>w. \<not> blank w) (windows (chars text))))"
  using chunk_loop_windows [of "chars text" 0 "[]"]
  by (simp add: chunk_by_chars_def windows_def window_count_def)

lemma chunk_eq:
  "chunk text = Returns (Inr (map of_chars (filter (\<lambda>w. \<not> blank w) (windows (chars text)))))"
  using nonblank_windows_Nil [of "chars text"]
  by (auto simp: chunk_def chunk_by_chars_eq trim_eq_Nil blank_def)

lemma windows_scalar: "w \<in> set (windows (chars text)) \<Longrightarrow> list_all is_scalar w"
  by (auto simp: windows_def intro: window_scalar)

section \<open>Properties\<close>

text \<open>
  C18. The chunking loop computes the closed-form list of windows: \<open>chunk\<close> never panics (the slice
  bounds are always in order), never returns an error, and returns exactly the non-blank windows
  of the text, in order, re-encoded.
\<close>

theorem chunk_is_windows:
  "chunk text = Returns (Inr (map of_chars (filter (\<lambda>w. \<not> blank w) (windows (chars text)))))"
  by (rule chunk_eq)

text \<open>
  No visible character is lost: every non-white-space character of the text lies, at its own
  position, in some chunk that \<open>chunk\<close> returns.
\<close>

theorem chunk_covers:
  assumes "p < length (chars text)" and "\<not> is_whitespace (chars text ! p)"
  shows "\<exists>cks k. chunk text = Returns (Inr cks) \<and> of_chars (window (chars text) k) \<in> set cks \<and>
     k * STRIDE_CHARS \<le> p \<and> p < k * STRIDE_CHARS + CHUNK_CHARS \<and>
     window (chars text) k ! (p - k * STRIDE_CHARS) = chars text ! p"
proof -
  let ?cs = "chars text"
  obtain k where k: "k < window_count (length ?cs)" "k * 1848 \<le> p" "p < k * 1848 + 2048"
    using window_of [OF assms(1)] by blast
  have nth: "window ?cs k ! (p - k * 1848) = ?cs ! p"
    using k assms(1) by (simp add: window_def CHUNK_CHARS_def)
  have "p - k * 1848 < length (window ?cs k)"
    using k assms(1) by (simp add: window_def CHUNK_CHARS_def) linarith
  then have "?cs ! p \<in> set (window ?cs k)"
    using nth by (metis nth_mem)
  with assms(2) have "\<not> blank (window ?cs k)" by (auto simp: blank_def list_all_iff)
  with k have "of_chars (window ?cs k) \<in>
      set (map of_chars (filter (\<lambda>w. \<not> blank w) (windows ?cs)))"
    by (auto simp: windows_def)
  with k nth show ?thesis
    by (intro exI [of _ "map of_chars (filter (\<lambda>w. \<not> blank w) (windows ?cs))"] exI [of _ k])
      (simp add: chunk_eq CHUNK_CHARS_def)
qed

text \<open>
  Every chunk is well-formed UTF-8, not blank, and at most 2048 characters long; the result is
  empty exactly for a blank text.
\<close>

theorem chunk_sizes:
  "\<exists>cks. chunk text = Returns (Inr cks) \<and> (cks = [] \<longleftrightarrow> trim text = []) \<and>
     list_all (\<lambda>c. is_str c \<and> trim c \<noteq> [] \<and> 0 < length (chars c) \<and> length (chars c) \<le> CHUNK_CHARS) cks"
proof -
  have good: "is_str (of_chars w) \<and> trim (of_chars w) \<noteq> [] \<and>
      0 < length (chars (of_chars w)) \<and> length (chars (of_chars w)) \<le> CHUNK_CHARS"
    if "w \<in> set (windows (chars text))" "\<not> blank w" for w
  proof -
    have sc: "list_all is_scalar w" by (rule windows_scalar [OF that(1)])
    have "w \<noteq> []" using that(2) by (auto simp: blank_def)
    moreover have "length w \<le> CHUNK_CHARS"
      using that(1) by (auto simp: windows_def window_def)
    ultimately show ?thesis using that(2) sc by (simp add: trim_eq_Nil blank_def)
  qed
  have "map of_chars (filter (\<lambda>w. \<not> blank w) (windows (chars text))) = [] \<longleftrightarrow> trim text = []"
    using nonblank_windows_Nil [of "chars text"] by (simp add: trim_eq_Nil blank_def)
  with good show ?thesis by (simp add: chunk_eq list_all_iff)
qed

text \<open>
  C38. Consecutive windows overlap by exactly 200 characters, and the first window followed by the
  part of every later window beyond its overlap is the text: when no window is blank, the chunks
  determine the text.
\<close>

theorem chunk_reassembles:
  assumes "is_str text" and "list_all (\<lambda>w. \<not> blank w) (windows (chars text))"
  shows "\<exists>c cks. chunk text = Returns (Inr (c # cks)) \<and>
     text = of_chars (chars c @ concat (map (\<lambda>d. drop OVERLAP_CHARS (chars d)) cks)) \<and>
     (\<forall>k. Suc k < window_count (length (chars text)) \<longrightarrow>
        drop STRIDE_CHARS (chars ((c # cks) ! k)) = take OVERLAP_CHARS (chars ((c # cks) ! Suc k)))"
proof -
  let ?cs = "chars text" and ?n = "window_count (length (chars text))"
  have upt: "[0..<?n] = 0 # [1..<?n]" by (simp add: window_count_def upt_conv_Cons)
  have all: "filter (\<lambda>w. \<not> blank w) (windows ?cs) = windows ?cs"
    using assms(2) by (simp add: filter_id_conv list_all_iff)
  have ch: "chars (of_chars (window ?cs k)) = window ?cs k" for k
    by (simp add: window_scalar)
  have "length ?cs \<le> (?n - 1) * 1848 + 2048"
    using window_count_last [of "?n - 1" "length ?cs"] by (simp add: window_count_def)
  moreover have "Suc (?n - 1) = ?n" by (simp add: window_count_def)
  ultimately have "window ?cs 0 @ concat (map (\<lambda>k. drop OVERLAP_CHARS (window ?cs k)) [1..<?n]) = ?cs"
    using windows_prefix [of ?cs "?n - 1"] by simp
  then have whole: "text = of_chars (window ?cs 0 @
      concat (map (\<lambda>k. drop OVERLAP_CHARS (window ?cs k)) [1..<?n]))"
    using assms(1) by simp
  have res: "chunk text = Returns (Inr (map (of_chars \<circ> window ?cs) [0..<?n]))"
    by (simp only: chunk_eq all) (simp add: windows_def)
  have "drop STRIDE_CHARS (chars (map (of_chars \<circ> window ?cs) [0..<?n] ! k)) =
      take OVERLAP_CHARS (chars (map (of_chars \<circ> window ?cs) [0..<?n] ! Suc k))" if "Suc k < ?n" for k
    using that window_overlap [OF that] by (simp add: ch)
  then have overlap: "\<forall>k. Suc k < ?n \<longrightarrow>
      drop STRIDE_CHARS (chars (map (of_chars \<circ> window ?cs) [0..<?n] ! k)) =
      take OVERLAP_CHARS (chars (map (of_chars \<circ> window ?cs) [0..<?n] ! Suc k))" by blast
  have out: "map (of_chars \<circ> window ?cs) [0..<?n] =
      of_chars (window ?cs 0) # map (of_chars \<circ> window ?cs) [1..<?n]"
    by (simp add: upt)
  have "text = of_chars (chars (of_chars (window ?cs 0)) @
      concat (map (\<lambda>d. drop OVERLAP_CHARS (chars d)) (map (of_chars \<circ> window ?cs) [1..<?n])))"
    by (subst whole) (simp add: ch comp_def)
  with res overlap show ?thesis unfolding out by blast
qed

lemma chars_abc: "chars ''a b'' = [97, 32, 98]"
  using ascii_is_str [of "''a b''"] by (simp add: codes_def)

theorem chunk_covers_witness:
  "\<exists>cks k. chunk ''a b'' = Returns (Inr cks) \<and> of_chars (window (chars ''a b'') k) \<in> set cks \<and>
     k * STRIDE_CHARS \<le> 2 \<and> 2 < k * STRIDE_CHARS + CHUNK_CHARS \<and>
     window (chars ''a b'') k ! (2 - k * STRIDE_CHARS) = chars ''a b'' ! 2"
  by (rule chunk_covers) (simp_all add: chars_abc is_whitespace_def)

theorem chunk_reassembles_witness:
  "\<exists>c cks. chunk ''a b'' = Returns (Inr (c # cks)) \<and>
     ''a b'' = of_chars (chars c @ concat (map (\<lambda>d. drop OVERLAP_CHARS (chars d)) cks)) \<and>
     (\<forall>k. Suc k < window_count (length (chars ''a b'')) \<longrightarrow>
        drop STRIDE_CHARS (chars ((c # cks) ! k)) = take OVERLAP_CHARS (chars ((c # cks) ! Suc k)))"
  by (rule chunk_reassembles)
    (simp_all add: ascii_is_str windows_def window_def window_count_def CHUNK_CHARS_def chars_abc
      blank_def is_whitespace_def)

end
