(* ===== verification/Crypto.thy ===== *)
theory Crypto
  imports Rust_Str
begin

text \<open>
  Content encryption: \<open>ingestion/src/crypto.rs\<close> (\<open>parse_key\<close>, \<open>encrypt\<close>) and its mirror
  \<open>tools/key-rotation/src/crypto.rs\<close> (\<open>kr_parse_key\<close>, \<open>kr_encrypt\<close>, \<open>kr_decrypt\<close>).

  Outside the repository, and so parameters here: the \<open>ring\<close> AEAD (\<open>aead\<close>: whether a key is
  accepted, sealing and opening under a key and a nonce), the random source (the IV it fills, or
  \<open>None\<close> when it fails) and \<open>hex::decode\<close>. What the code relies on of them is stated by
  \<open>aead_laws\<close> and \<open>hex_laws\<close>.

  The locale \<open>wire_cipher\<close> is what the users of the module rely on; it is interpreted below by the
  code's own \<open>encrypt\<close> with \<open>kr_decrypt\<close> and by \<open>kr_encrypt\<close> with \<open>kr_decrypt\<close>.
\<close>

section \<open>Parameters\<close>

record aead =
  aead_key_ok :: "bytes \<Rightarrow> bool"
  aead_seal :: "bytes \<Rightarrow> bytes \<Rightarrow> bytes \<Rightarrow> bytes option"
  aead_open :: "bytes \<Rightarrow> bytes \<Rightarrow> bytes \<Rightarrow> bytes option"

text \<open>
  AES-256-GCM as \<open>ring\<close> documents it: a key is 32 bytes; sealing appends a 16-byte tag, and opening
  under the same key and nonce returns the plaintext.
\<close>

definition aead_laws :: "aead \<Rightarrow> bool" where
  "aead_laws A \<longleftrightarrow>
     (\<forall>k. aead_key_ok A k \<longleftrightarrow> length k = 32) \<and>
     (\<forall>k n m c. length k = 32 \<longrightarrow> length n = 12 \<longrightarrow> aead_seal A k n m = Some c \<longrightarrow>
        length c = length m + 16 \<and> aead_open A k n c = Some m)"

definition hex_digit :: "nat \<Rightarrow> char" where
  "hex_digit n = (if n < 10 then char_of (48 + n) else char_of (87 + n))"

definition hex_encode :: "bytes \<Rightarrow> string" where
  "hex_encode bs = concat (map (\<lambda>b. [hex_digit (unat b div 16), hex_digit (unat b mod 16)]) bs)"

text \<open>The \<open>hex\<close> crate: \<open>decode\<close> inverts \<open>encode\<close> and only accepts two digits per byte.\<close>

definition hex_laws :: "(string \<Rightarrow> anyhow + bytes) \<Rightarrow> bool" where
  "hex_laws hx \<longleftrightarrow>
     (\<forall>bs. hx (hex_encode bs) = Inr bs) \<and> (\<forall>s bs. hx s = Inr bs \<longrightarrow> length s = 2 * length bs)"

section \<open>The one-shot nonce sequence\<close>

definition IV_LEN :: nat where "IV_LEN = 12"

record one_shot =
  os_used :: bool
  os_iv :: bytes

definition one_shot_new :: "bytes \<Rightarrow> one_shot" where
  "one_shot_new iv = \<lparr>os_used = False, os_iv = iv\<rparr>"

definition advance :: "one_shot \<Rightarrow> (unit + bytes) \<times> one_shot" where
  "advance s =
     (if os_used s then (Inl (), s)
      else (Inr (os_iv s), s\<lparr>os_used := True\<rparr>))"

text \<open>
  \<open>SealingKey::seal_in_place_append_tag\<close> and \<open>OpeningKey::open_in_place\<close> are generic in the
  \<open>NonceSequence\<close>, here its \<open>adv\<close>: they draw one nonce from the sequence of the key and fail when it has
  none.
\<close>

type_synonym 's nonce_sequence = "'s \<Rightarrow> (unit + bytes) \<times> 's"

definition seal_with :: "aead \<Rightarrow> 's nonce_sequence \<Rightarrow> bytes \<Rightarrow> 's \<Rightarrow> bytes \<Rightarrow> bytes option \<times> 's" where
  "seal_with A adv key s buf =
     (case adv s of
        (Inl _, s') \<Rightarrow> (None, s')
      | (Inr n, s') \<Rightarrow> (aead_seal A key n buf, s'))"

definition open_with :: "aead \<Rightarrow> 's nonce_sequence \<Rightarrow> bytes \<Rightarrow> 's \<Rightarrow> bytes \<Rightarrow> bytes option \<times> 's" where
  "open_with A adv key s buf =
     (case adv s of
        (Inl _, s') \<Rightarrow> (None, s')
      | (Inr n, s') \<Rightarrow> (aead_open A key n buf, s'))"

lemma seal_with_new [simp]: "fst (seal_with A advance k (one_shot_new iv) m) = aead_seal A k iv m"
  by (simp add: seal_with_def advance_def one_shot_new_def)

section \<open>ingestion/src/crypto.rs\<close>

definition parse_key :: "(string \<Rightarrow> anyhow + bytes) \<Rightarrow> string \<Rightarrow> anyhow + bytes" where
  "parse_key hx hex_str =
     and_then (hx (trim hex_str)) (\<lambda>bytes.
       if length bytes = 32 then Inr bytes
       else Inl (''key must be exactly 64 hex chars (32 bytes); got '' @
                 show_nat (length hex_str div 2) @ '' bytes''))"

definition encrypt :: "aead \<Rightarrow> bytes option \<Rightarrow> bytes \<Rightarrow> bytes \<Rightarrow> anyhow + bytes" where
  "encrypt A rng key plaintext =
     (case rng of
        None \<Rightarrow> Inl ''RNG failed''
      | Some iv \<Rightarrow>
          if \<not> aead_key_ok A key then Inl ''invalid key length''
          else (case fst (seal_with A advance key (one_shot_new iv) plaintext) of
                  None \<Rightarrow> Inl ''seal failed''
                | Some buf \<Rightarrow> Inr (iv @ buf)))"

section \<open>tools/key-rotation/src/crypto.rs\<close>

text \<open>The tool has its own copy of the one-shot sequence.\<close>

record kr_one_shot =
  ks_used :: bool
  ks_iv :: bytes

definition kr_one_shot_new :: "bytes \<Rightarrow> kr_one_shot" where
  "kr_one_shot_new iv = \<lparr>ks_used = False, ks_iv = iv\<rparr>"

definition kr_advance :: "kr_one_shot nonce_sequence" where
  "kr_advance s =
     (if ks_used s then (Inl (), s)
      else (Inr (ks_iv s), s\<lparr>ks_used := True\<rparr>))"

lemma kr_seal_with_new [simp]: "fst (seal_with A kr_advance k (kr_one_shot_new iv) m) = aead_seal A k iv m"
  by (simp add: seal_with_def kr_advance_def kr_one_shot_new_def)

lemma kr_open_with_new [simp]: "fst (open_with A kr_advance k (kr_one_shot_new iv) c) = aead_open A k iv c"
  by (simp add: open_with_def kr_advance_def kr_one_shot_new_def)

definition kr_parse_key :: "(string \<Rightarrow> anyhow + bytes) \<Rightarrow> string \<Rightarrow> anyhow + bytes" where
  "kr_parse_key hx hex_str =
     and_then (hx (trim hex_str)) (\<lambda>bytes.
       if length bytes = 32 then Inr bytes
       else Inl (''key must be exactly 64 hex chars (32 bytes); got '' @
                 show_nat (length hex_str div 2) @ '' bytes''))"

definition kr_encrypt :: "aead \<Rightarrow> bytes option \<Rightarrow> bytes \<Rightarrow> bytes \<Rightarrow> anyhow + bytes" where
  "kr_encrypt A rng key plaintext =
     (case rng of
        None \<Rightarrow> Inl ''RNG failed''
      | Some iv \<Rightarrow>
          if \<not> aead_key_ok A key then Inl ''invalid key length''
          else (case fst (seal_with A kr_advance key (kr_one_shot_new iv) plaintext) of
                  None \<Rightarrow> Inl ''seal failed''
                | Some buf \<Rightarrow> Inr (iv @ buf)))"

text \<open>The UTF-8 bytes of the em dash of the messages.\<close>

definition em_dash :: string where
  "em_dash = [CHR 0xE2, CHR 0x80, CHR 0x94]"

definition MIN_LEN :: nat where "MIN_LEN = IV_LEN + 16"

definition kr_decrypt :: "aead \<Rightarrow> bytes \<Rightarrow> bytes \<Rightarrow> anyhow + bytes" where
  "kr_decrypt A key wire =
     (if length wire < MIN_LEN
      then Inl (''wire data too short: '' @ show_nat (length wire) @ '' bytes (minimum '' @
                show_nat MIN_LEN @ '')'')
      else let iv = take IV_LEN wire in
        if \<not> aead_key_ok A key then Inl ''invalid key length''
        else (case fst (open_with A kr_advance key (kr_one_shot_new iv) (drop IV_LEN wire)) of
                None \<Rightarrow> Inl (''decryption failed '' @ em_dash @ '' wrong key or tampered data'')
              | Some plain \<Rightarrow> Inr plain))"

section \<open>What the users of the module rely on\<close>

locale wire_cipher =
  fixes ok :: "'p \<Rightarrow> bool"
    and enc :: "'p \<Rightarrow> bytes option \<Rightarrow> bytes \<Rightarrow> bytes \<Rightarrow> anyhow + bytes"
    and dec :: "'p \<Rightarrow> bytes \<Rightarrow> bytes \<Rightarrow> anyhow + bytes"
  assumes dec_enc: "ok p \<Longrightarrow> length iv = 12 \<Longrightarrow> enc p (Some iv) k m = Inr w \<Longrightarrow> dec p k w = Inr m"
    and enc_wire: "ok p \<Longrightarrow> length iv = 12 \<Longrightarrow> enc p (Some iv) k m = Inr w \<Longrightarrow>
      take 12 w = iv \<and> length w = 12 + length m + 16"
    and enc_needs_iv: "\<exists>e. enc p None k m = Inl e"
    and dec_short: "length w < 28 \<Longrightarrow> \<exists>e. dec p k w = Inl e"
begin

text \<open>Moving a ciphertext to another key keeps its plaintext.\<close>

lemma reencrypt:
  "ok p \<Longrightarrow> length iv = 12 \<Longrightarrow> dec p k w = Inr m \<Longrightarrow> enc p (Some iv) k' m = Inr w' \<Longrightarrow>
     dec p k' w' = dec p k w"
  using dec_enc by simp

lemma distinct_ivs:
  "ok p \<Longrightarrow> length iv = 12 \<Longrightarrow> length iv' = 12 \<Longrightarrow> iv \<noteq> iv' \<Longrightarrow>
     enc p (Some iv) k m = Inr w \<Longrightarrow> enc p (Some iv') k' m' = Inr w' \<Longrightarrow> w \<noteq> w'"
  using enc_wire by metis

end

lemma kr_encrypt_eq: "kr_encrypt = encrypt"
  by (simp add: fun_eq_iff kr_encrypt_def encrypt_def split: option.split)

lemma kr_parse_key_eq: "kr_parse_key = parse_key"
  by (simp add: fun_eq_iff kr_parse_key_def parse_key_def)

lemma encrypt_Inr:
  "encrypt A rng k m = Inr w \<longleftrightarrow>
     (\<exists>iv buf. rng = Some iv \<and> aead_key_ok A k \<and> aead_seal A k iv m = Some buf \<and> w = iv @ buf)"
  by (auto simp: encrypt_def split: option.splits)

lemma kr_decrypt_Inr:
  "kr_decrypt A k w = Inr m \<longleftrightarrow>
     28 \<le> length w \<and> aead_key_ok A k \<and> aead_open A k (take 12 w) (drop 12 w) = Some m"
  by (auto simp: kr_decrypt_def MIN_LEN_def IV_LEN_def Let_def split: option.splits)

lemma kr_decrypt_encrypt:
  assumes "aead_laws A" and "length iv = 12" and "encrypt A (Some iv) k m = Inr w"
  shows "kr_decrypt A k w = Inr m"
proof -
  from assms(3) obtain buf where k: "aead_key_ok A k" and s: "aead_seal A k iv m = Some buf"
    and w: "w = iv @ buf" by (auto simp: encrypt_Inr)
  have "length buf = length m + 16 \<and> aead_open A k iv buf = Some m"
    using assms(1,2) k s unfolding aead_laws_def by blast
  then show ?thesis using k w assms(2) by (simp add: kr_decrypt_Inr)
qed

lemma encrypt_wire:
  assumes "aead_laws A" and "length iv = 12" and "encrypt A (Some iv) k m = Inr w"
  shows "take 12 w = iv \<and> length w = 12 + length m + 16"
proof -
  from assms(3) obtain buf where k: "aead_key_ok A k" and s: "aead_seal A k iv m = Some buf"
    and w: "w = iv @ buf" by (auto simp: encrypt_Inr)
  have "length buf = length m + 16" using assms(1,2) k s unfolding aead_laws_def by blast
  then show ?thesis using w assms(2) by simp
qed

lemma kr_decrypt_short: "length w < 28 \<Longrightarrow> \<exists>e. kr_decrypt A k w = Inl e"
  by (simp add: kr_decrypt_def MIN_LEN_def IV_LEN_def)

interpretation ing: wire_cipher aead_laws encrypt kr_decrypt
proof unfold_locales
  fix A iv k m w
  assume "aead_laws A" and "length iv = 12" and "encrypt A (Some iv) k m = Inr w"
  then show "kr_decrypt A k w = Inr m" and "take 12 w = iv \<and> length w = 12 + length m + 16"
    by (rule kr_decrypt_encrypt, rule encrypt_wire)
next
  fix A k m
  show "\<exists>e. encrypt A None k m = Inl e" by (simp add: encrypt_def)
qed (rule kr_decrypt_short)

interpretation rot: wire_cipher aead_laws kr_encrypt kr_decrypt
  unfolding kr_encrypt_eq by (rule ing.wire_cipher_axioms)

section \<open>Keys\<close>

lemma hex_digit_ascii: "n < 16 \<Longrightarrow> (of_char (hex_digit n) :: nat) < 128"
  by (simp add: hex_digit_def)

lemma hex_digit_not_space: "n < 16 \<Longrightarrow> \<not> is_whitespace (of_char (hex_digit n))"
  by (simp add: hex_digit_def is_whitespace_def)

lemma nibbles: "unat (b :: u8) div 16 < 16" "unat b mod 16 < 16"
proof -
  have "unat b < 2 ^ LENGTH(8)" by (rule unsigned_less)
  then show "unat b div 16 < 16" "unat b mod 16 < 16" by auto
qed

lemma hex_encode_ascii: "\<forall>c \<in> set (hex_encode bs). (of_char c :: nat) < 128"
  using hex_digit_ascii nibbles by (fastforce simp: hex_encode_def)

lemma length_hex_encode: "length (hex_encode bs) = 2 * length bs"
  by (induction bs) (simp_all add: hex_encode_def)

lemma codes_hex_encode:
  "list_all (\<lambda>c. \<not> is_whitespace c) (codes (hex_encode bs))"
  using hex_digit_not_space nibbles
  by (fastforce simp: hex_encode_def codes_def list_all_iff)


lemma chars_hex_encode: "chars (hex_encode bs) = codes (hex_encode bs)"
  using ascii_is_str [OF hex_encode_ascii] by simp

lemma trim_chars_pad:
  assumes "list_all is_whitespace a" and "list_all is_whitespace b"
    and "list_all (\<lambda>c. \<not> is_whitespace c) m"
  shows "trim_chars (a @ m @ b) = m"
proof -
  have d: "dropWhile is_whitespace (xs @ ys) = dropWhile is_whitespace ys"
    if "list_all is_whitespace xs" for xs ys
    using that by (induction xs) auto
  have "trim_chars (m @ b) = trim_chars m"
  proof (cases m)
    case Nil
    have "trim_chars b = []" using assms(2) by (simp add: trim_chars_eq_Nil)
    moreover have "trim_chars [] = []" by (simp add: trim_chars_def)
    ultimately show ?thesis by (simp add: Nil)
  next
    case (Cons c m')
    then have "dropWhile is_whitespace (m @ b) = m @ b" "dropWhile is_whitespace m = m"
      using assms(3) by auto
    then show ?thesis using d [of "rev b" "rev m"] assms(2) by (simp add: trim_chars_def)
  qed
  moreover have "trim_chars (a @ m @ b) = trim_chars (m @ b)"
    using d [OF assms(1)] by (simp add: trim_chars_def)
  ultimately show ?thesis using trim_chars_idem_none [OF assms(3)] by simp
qed

lemma trim_hex:
  assumes "is_str a" "is_str b" "trim a = []" "trim b = []"
  shows "trim (a @ hex_encode k @ b) = hex_encode k"
proof -
  have h: "is_str (hex_encode k)" using ascii_is_str [OF hex_encode_ascii] by simp
  have "chars (a @ hex_encode k @ b) = chars a @ codes (hex_encode k) @ chars b"
    using assms(1,2) h by (simp add: chars_append is_str_append chars_hex_encode)
  then have "trim (a @ hex_encode k @ b) = of_chars (codes (hex_encode k))"
    using assms(3,4) codes_hex_encode by (simp add: trim_def [of "a @ _"] trim_eq_Nil trim_chars_pad)
  also have "\<dots> = hex_encode k" using h chars_hex_encode of_chars_chars by metis
  finally show ?thesis .
qed

section \<open>Properties\<close>

text \<open>
  C20. The wire format: what \<open>encrypt\<close> of the ingestion daemon produces is the 12-byte IV, then the
  ciphertext and a 16-byte tag, and \<open>decrypt\<close> of the key-rotation tool recovers the plaintext.
\<close>

theorem wire_roundtrip:
  assumes "aead_laws A" and "length iv = 12" and "encrypt A (Some iv) key m = Inr w"
  shows "kr_decrypt A key w = Inr m \<and> take IV_LEN w = iv \<and> length w = IV_LEN + length m + 16"
  using ing.dec_enc [OF assms] ing.enc_wire [OF assms] by (simp add: IV_LEN_def)

text \<open>
  \<open>parse_key\<close> accepts the hexadecimal form of any 32-byte key, with white space around it, and
  returns that key; whatever it accepts is a 32-byte key.
\<close>

theorem parse_key_roundtrip:
  assumes "hex_laws hx" and "is_str a" and "is_str b" and "trim a = []" and "trim b = []"
  shows "(parse_key hx (a @ hex_encode k @ b) = Inr k \<longleftrightarrow> length k = 32) \<and>
     (\<forall>s k'. parse_key hx s = Inr k' \<longrightarrow> length k' = 32)"
proof -
  have "hx (hex_encode k) = Inr k" using assms(1) by (simp add: hex_laws_def)
  then have "parse_key hx (a @ hex_encode k @ b) = Inr k \<longleftrightarrow> length k = 32"
    using trim_hex [OF assms(2-5)] by (simp add: parse_key_def)
  moreover have "\<forall>s k'. parse_key hx s = Inr k' \<longrightarrow> length k' = 32"
    by (auto simp: parse_key_def split: if_splits)
  ultimately show ?thesis by blast
qed

text \<open>
  The two copies of the module agree: the key-rotation tool parses keys and encrypts exactly as
  the daemon does, as the comment in both files requires.
\<close>

theorem crypto_mirrored: "kr_parse_key = parse_key \<and> kr_encrypt = encrypt"
  by (simp add: kr_parse_key_eq kr_encrypt_eq)

section \<open>A concrete cipher and decoder for the witnesses\<close>

definition toy_aead :: aead where
  "toy_aead = \<lparr>aead_key_ok = (\<lambda>k. length k = 32),
     aead_seal = (\<lambda>k n m. Some (m @ take 16 k)),
     aead_open = (\<lambda>k n c. if 16 \<le> length c \<and> drop (length c - 16) c = take 16 k
                          then Some (take (length c - 16) c) else None)\<rparr>"

lemma toy_aead_laws: "aead_laws toy_aead"
  by (simp add: aead_laws_def toy_aead_def)

definition hex_val :: "char \<Rightarrow> nat option" where
  "hex_val c = (let n = of_char c in
     if 48 \<le> n \<and> n < 58 then Some (n - 48) else if 97 \<le> n \<and> n < 103 then Some (n - 87) else None)"

fun toy_hex :: "string \<Rightarrow> anyhow + bytes" where
  "toy_hex [] = Inr []"
| "toy_hex [c] = Inl ''odd number of digits''"
| "toy_hex (c # d # s) =
     (case (hex_val c, hex_val d) of
        (Some h, Some l) \<Rightarrow> and_then (toy_hex s) (\<lambda>bs. Inr (of_nat (16 * h + l) # bs))
      | _ \<Rightarrow> Inl ''invalid character'')"

lemma hex_val_digit: "n < 16 \<Longrightarrow> hex_val (hex_digit n) = Some n"
  by (auto simp: hex_val_def hex_digit_def Let_def)

lemma toy_hex_laws: "hex_laws toy_hex"
proof -
  have "toy_hex (hex_encode bs) = Inr bs" for bs
    by (induction bs)
      (auto simp: hex_encode_def hex_val_digit nibbles mult.commute [of 16])
  moreover have "toy_hex s = Inr bs \<longrightarrow> length s = 2 * length bs" for s bs
    by (induction s arbitrary: bs rule: toy_hex.induct) (auto split: option.splits)
  ultimately show ?thesis by (simp add: hex_laws_def)
qed

lemma toy_encrypt:
  "length k = 32 \<Longrightarrow> encrypt toy_aead (Some iv) k m = Inr (iv @ m @ take 16 k)"
  by (simp add: encrypt_def toy_aead_def)

theorem wire_roundtrip_witness:
  "kr_decrypt toy_aead (replicate 32 7) (replicate 12 1 @ [104, 105] @ replicate 16 7) = Inr [104, 105]"
  using wire_roundtrip [OF toy_aead_laws, of "replicate 12 1" "replicate 32 7" "[104, 105]"]
  by (simp add: toy_encrypt IV_LEN_def)

theorem parse_key_roundtrip_witness:
  "parse_key toy_hex ('' '' @ hex_encode (replicate 32 10) @ [CHR 0x0A]) = Inr (replicate 32 10)"
proof -
  have w: "is_str '' ''" "is_str [CHR 0x0A]" "trim '' '' = []" "trim [CHR 0x0A] = []"
    by (simp_all add: ascii_is_str trim_eq_Nil codes_def is_whitespace_def)
  show ?thesis
    using parse_key_roundtrip [OF toy_hex_laws w, of "replicate 32 10"] by (simp del: append_Cons)
qed

end
