(* ===== verification/Chunk_Db.thy ===== *)
theory Chunk_Db
  imports Rust_Str
begin

text \<open>
  The table \<open>document_chunks\<close> and the daemon's statements on it, \<open>ingestion/src/db.rs\<close>.

  A table is the list of its rows. A statement runs at a tick, and the record \<open>pg\<close> is the
  environment of the statements: \<open>pg_fails t\<close> says that the server or the connection fails the
  statement of tick \<open>t\<close> (a failed statement has no effect; a failed commit rolls back),
  \<open>pg_fresh t\<close> is the UUID drawn at tick \<open>t\<close>, \<open>pg_cast_ok\<close> whether pgvector accepts a literal,
  \<open>pg_show\<close> is \<open>f32\<close>'s \<open>to_string\<close>, \<open>pg_debug\<close> whether debug assertions are compiled in.
  \<open>insert_row\<close> also enforces the constraints of the schema (\<open>V1__init.sql\<close>, V7, V10): the primary
  key, the classification check, the \<open>VARCHAR(255)\<close> columns and the cast of the embedding. The database role
  is one that the row-level security policies of the table do not restrict (a superuser, or BYPASSRLS);
  theory \<open>Row_Security\<close> has what becomes of these statements under a role they do restrict.

  \<open>upsert_chunks\<close> runs in a transaction: \<open>insert_all\<close> works on a copy of the rows, which \<open>COMMIT\<close>
  installs. The locale \<open>chunk_store\<close> is what the ingestion cycle relies on.
\<close>

section \<open>Rows\<close>

record doc_chunk =
  dc_id :: uuid
  dc_doc_name :: string
  dc_classification :: string
  dc_chunk_index :: u32
  dc_encrypted_content :: "bytes option"
  dc_embedding :: "string option"
  dc_source_item_id :: "string option"
  dc_workspace_id :: uuid

text \<open>No program here writes \<open>workspace_id\<close>: it gets the default of its column, the workspace \<open>default\<close>.\<close>

definition default_workspace :: uuid where
  "default_workspace = 1"

type_synonym table = "doc_chunk list"

record db =
  db_rows :: table
  db_tick :: nat

definition classifications :: "string list" where
  "classifications = [''PUBLIC'', ''INTERNAL'', ''CONFIDENTIAL'']"

text \<open>\<open>format_vector\<close>: the pgvector literal \<open>[f1,...,fn]\<close>; \<open>show\<close> is \<open>f32\<close>'s \<open>to_string\<close>.\<close>

fun join_comma :: "string list \<Rightarrow> string" where
  "join_comma [] = []"
| "join_comma [s] = s"
| "join_comma (s # ss) = s @ '','' @ join_comma ss"

definition format_vector :: "('f \<Rightarrow> string) \<Rightarrow> 'f list \<Rightarrow> string" where
  "format_vector show v = ''['' @ join_comma (map show v) @ '']''"

record 'f pg =
  pg_fails :: "nat \<Rightarrow> bool"
  pg_fresh :: "nat \<Rightarrow> uuid"
  pg_cast_ok :: "string \<Rightarrow> bool"
  pg_show :: "'f \<Rightarrow> string"
  pg_debug :: bool

section \<open>Statements\<close>

definition insert_row :: "(string \<Rightarrow> bool) \<Rightarrow> doc_chunk \<Rightarrow> table \<Rightarrow> anyhow + table" where
  "insert_row cast_ok r rows =
     (if dc_id r \<in> dc_id ` set rows then Inl ''duplicate key''
      else if dc_classification r \<notin> set classifications then Inl ''check constraint''
      else if 255 < length (chars (dc_doc_name r)) then Inl ''value too long''
      else if \<not> (case dc_source_item_id r of None \<Rightarrow> True | Some i \<Rightarrow> length (chars i) \<le> 255)
        then Inl ''value too long''
      else if \<not> (case dc_embedding r of None \<Rightarrow> True | Some e \<Rightarrow> cast_ok e)
        then Inl ''invalid vector''
      else Inr (rows @ [r]))"

definition delete_rows :: "string \<Rightarrow> table \<Rightarrow> table" where
  "delete_rows item rows = filter (\<lambda>r. dc_source_item_id r \<noteq> Some item) rows"

definition delete_chunks :: "'f pg \<Rightarrow> string \<Rightarrow> db \<Rightarrow> (anyhow + unit) \<times> db" where
  "delete_chunks E item d =
     (if pg_fails E (db_tick d) then (Inl ''database error'', d\<lparr>db_tick := Suc (db_tick d)\<rparr>)
      else (Inr (), \<lparr>db_rows = delete_rows item (db_rows d), db_tick = Suc (db_tick d)\<rparr>))"

text \<open>The insert loop of the transaction, from row number \<open>i\<close>, over the zipped chunks.\<close>

fun insert_all :: "'f pg \<Rightarrow> string \<Rightarrow> string \<Rightarrow> string \<Rightarrow> nat \<Rightarrow> (bytes \<times> 'f list) list \<Rightarrow> db \<Rightarrow>
    (anyhow + unit) \<times> db" where
  "insert_all E item name cls i [] d = (Inr (), d)"
| "insert_all E item name cls i ((enc, emb) # rest) d =
     (let t = db_tick d;
          r = \<lparr>dc_id = pg_fresh E t, dc_doc_name = name, dc_classification = cls,
               dc_chunk_index = of_nat i, dc_encrypted_content = Some enc,
               dc_embedding = Some (format_vector (pg_show E) emb), dc_source_item_id = Some item, dc_workspace_id = default_workspace\<rparr>
      in if pg_fails E t then (Inl ''database error'', d\<lparr>db_tick := Suc t\<rparr>)
         else (case insert_row (pg_cast_ok E) r (db_rows d) of
                 Inl e \<Rightarrow> (Inl e, d\<lparr>db_tick := Suc t\<rparr>)
               | Inr rows \<Rightarrow> insert_all E item name cls (Suc i) rest
                   \<lparr>db_rows = rows, db_tick = Suc t\<rparr>))"

text \<open>
  \<open>upsert_chunks\<close>: begin, delete, insert, commit. Leaving by an error drops the transaction, which
  rolls it back.
\<close>

definition rolled_back :: "db \<Rightarrow> anyhow \<Rightarrow> nat \<Rightarrow> ((anyhow + unit) \<times> db) run" where
  "rolled_back d e t = Returns (Inl e, d\<lparr>db_tick := t\<rparr>)"

definition upsert_chunks :: "'f pg \<Rightarrow> string \<Rightarrow> string \<Rightarrow> string \<Rightarrow> bytes list \<Rightarrow> 'f list list \<Rightarrow>
    db \<Rightarrow> ((anyhow + unit) \<times> db) run" where
  "upsert_chunks E item name cls encs embs d =
     (if pg_debug E \<and> length encs \<noteq> length embs then Panics
      else let t = db_tick d in
        if pg_fails E t then rolled_back d ''database error'' (Suc t)
        else if pg_fails E (Suc t) then rolled_back d ''database error'' (Suc (Suc t))
        else (case insert_all E item name cls 0 (zip encs embs)
                     \<lparr>db_rows = delete_rows item (db_rows d), db_tick = Suc (Suc t)\<rparr> of
                (Inl e, tx) \<Rightarrow> rolled_back d e (db_tick tx)
              | (Inr _, tx) \<Rightarrow>
                  if pg_fails E (db_tick tx) then rolled_back d ''database error'' (Suc (db_tick tx))
                  else Returns (Inr (), tx\<lparr>db_tick := Suc (db_tick tx)\<rparr>)))"

section \<open>Abstraction: what one item stores\<close>

definition item_rows :: "string \<Rightarrow> table \<Rightarrow> doc_chunk list" where
  "item_rows item rows = filter (\<lambda>r. dc_source_item_id r = Some item) rows"

definition item_view :: "string \<Rightarrow> table \<Rightarrow> (u32 \<times> bytes option \<times> string option) list" where
  "item_view item rows =
     map (\<lambda>r. (dc_chunk_index r, dc_encrypted_content r, dc_embedding r)) (item_rows item rows)"

definition other_rows :: "string \<Rightarrow> table \<Rightarrow> doc_chunk list" where
  "other_rows item rows = filter (\<lambda>r. dc_source_item_id r \<noteq> Some item) rows"

text \<open>What an upsert is meant to store: the chunks numbered from \<open>i\<close>.\<close>

definition stored :: "('f \<Rightarrow> string) \<Rightarrow> nat \<Rightarrow> (bytes \<times> 'f list) list \<Rightarrow>
    (u32 \<times> bytes option \<times> string option) list" where
  "stored show i ps =
     map (\<lambda>(k, enc, emb). (of_nat k, Some enc, Some (format_vector show emb)))
       (zip [i..<i + length ps] ps)"

lemma stored_simps [simp]:
  "stored show i [] = []"
  "stored show i ((enc, emb) # ps) =
     (of_nat i, Some enc, Some (format_vector show emb)) # stored show (Suc i) ps"
proof -
  have "[i..<i + length ((enc, emb) # ps)] = i # [Suc i..<Suc i + length ps]"
    by (simp add: upt_conv_Cons del: upt_Suc)
  then show "stored show i ((enc, emb) # ps) =
     (of_nat i, Some enc, Some (format_vector show emb)) # stored show (Suc i) ps"
    by (simp add: stored_def del: upt_Suc)
qed (simp add: stored_def)

lemma item_view_append [simp]: "item_view i (xs @ ys) = item_view i xs @ item_view i ys"
  by (simp add: item_view_def item_rows_def)

lemma other_rows_append [simp]: "other_rows i (xs @ ys) = other_rows i xs @ other_rows i ys"
  by (simp add: other_rows_def)

lemma item_view_delete [simp]: "item_view i (delete_rows i rows) = []"
  by (simp add: item_view_def item_rows_def delete_rows_def)

lemma other_rows_delete [simp]: "other_rows i (delete_rows i rows) = other_rows i rows"
  by (simp add: other_rows_def delete_rows_def)

lemma item_view_other: "i \<noteq> j \<Longrightarrow> item_view j rows = item_view j (other_rows i rows)"
  by (simp add: item_view_def item_rows_def other_rows_def) (metis (mono_tags, lifting) option.inject)

lemma insert_row_Inr: "insert_row ok r rows = Inr rows' \<Longrightarrow> rows' = rows @ [r] \<and> dc_id r \<notin> dc_id ` set rows"
  by (auto simp: insert_row_def split: if_splits)

lemma insert_all_ok:
  assumes "insert_all E item name cls i ps d = (Inr u, d')"
  shows "item_view item (db_rows d') = item_view item (db_rows d) @ stored (pg_show E) i ps \<and>
     other_rows item (db_rows d') = other_rows item (db_rows d) \<and>
     (distinct (map dc_id (db_rows d)) \<longrightarrow> distinct (map dc_id (db_rows d')))"
  using assms
proof (induction ps arbitrary: i d)
  case Nil
  then show ?case by simp
next
  case (Cons p ps)
  obtain enc emb where p: "p = (enc, emb)" by (cases p)
  let ?r = "\<lparr>dc_id = pg_fresh E (db_tick d), dc_doc_name = name, dc_classification = cls,
     dc_chunk_index = of_nat i, dc_encrypted_content = Some enc,
     dc_embedding = Some (format_vector (pg_show E) emb), dc_source_item_id = Some item, dc_workspace_id = default_workspace\<rparr>"
  from Cons.prems obtain rows where r: "insert_row (pg_cast_ok E) ?r (db_rows d) = Inr rows"
    and rest: "insert_all E item name cls (Suc i) ps
       \<lparr>db_rows = rows, db_tick = Suc (db_tick d)\<rparr> = (Inr u, d')"
    by (auto simp: p Let_def split: if_splits sum.splits)
  have rows: "rows = db_rows d @ [?r]" "dc_id ?r \<notin> dc_id ` set (db_rows d)"
    using insert_row_Inr [OF r] by auto
  from Cons.IH [OF rest] rows show ?case
    by (auto simp: p item_view_def item_rows_def other_rows_def)
qed

section \<open>The interface the ingestion cycle relies on\<close>

locale chunk_store =
  fixes rows :: "'s \<Rightarrow> table"
    and shw :: "'p \<Rightarrow> 'f \<Rightarrow> string"
    and del :: "'p \<Rightarrow> string \<Rightarrow> 's \<Rightarrow> (anyhow + unit) \<times> 's"
    and ups :: "'p \<Rightarrow> string \<Rightarrow> string \<Rightarrow> string \<Rightarrow> bytes list \<Rightarrow> 'f list list \<Rightarrow> 's \<Rightarrow>
      ((anyhow + unit) \<times> 's) run"
  assumes del_ok: "del E i s = (Inr u, s') \<Longrightarrow>
      item_view i (rows s') = [] \<and> other_rows i (rows s') = other_rows i (rows s)"
    and del_err: "del E i s = (Inl e, s') \<Longrightarrow> rows s' = rows s"
    and ups_ok: "ups E i n c encs embs s = Returns (Inr u, s') \<Longrightarrow>
      item_view i (rows s') = stored (shw E) 0 (zip encs embs) \<and>
      other_rows i (rows s') = other_rows i (rows s)"
    and ups_err: "ups E i n c encs embs s = Returns (Inl e, s') \<Longrightarrow> rows s' = rows s"
    and ups_returns: "length encs = length embs \<Longrightarrow> \<exists>r. ups E i n c encs embs s = Returns r"
begin

text \<open>Whatever the outcome, no operation touches the rows of another item.\<close>

lemma del_frame:
  assumes "del E i s = (r, s')"
  shows "other_rows i (rows s') = other_rows i (rows s)"
proof (cases r)
  case (Inl e)
  with assms del_err show ?thesis by simp
next
  case (Inr u)
  with assms del_ok show ?thesis by simp
qed

lemma ups_frame:
  assumes "ups E i n c encs embs s = Returns (r, s')"
  shows "other_rows i (rows s') = other_rows i (rows s)"
proof (cases r)
  case (Inl e)
  with assms ups_err show ?thesis by simp
next
  case (Inr u)
  with assms ups_ok show ?thesis by blast
qed

lemma del_other_view: "del E i s = (r, s') \<Longrightarrow> i \<noteq> j \<Longrightarrow> item_view j (rows s') = item_view j (rows s)"
  using del_frame item_view_other by metis

lemma ups_other_view:
  "ups E i n c encs embs s = Returns (r, s') \<Longrightarrow> i \<noteq> j \<Longrightarrow>
     item_view j (rows s') = item_view j (rows s)"
  using ups_frame item_view_other by metis

text \<open>An upsert is all or nothing, and the last one wins.\<close>

lemma ups_atomic:
  assumes "ups E i n c encs embs s = Returns (r, s')"
  shows "(case r of Inl _ \<Rightarrow> rows s' = rows s
     | Inr _ \<Rightarrow> item_view i (rows s') = stored (shw E) 0 (zip encs embs))"
  using assms ups_ok ups_err by (auto split: sum.splits)

end

lemma upsert_chunks_Inr:
  assumes "upsert_chunks E item name cls encs embs d = Returns (Inr u, d')"
  obtains tx where "insert_all E item name cls 0 (zip encs embs)
      \<lparr>db_rows = delete_rows item (db_rows d), db_tick = Suc (Suc (db_tick d))\<rparr> = (Inr (), tx)"
    and "d' = tx\<lparr>db_tick := Suc (db_tick tx)\<rparr>"
  using assms that
  by (auto simp: upsert_chunks_def rolled_back_def Let_def split: if_splits sum.splits prod.splits)

lemma upsert_chunks_Inl:
  "upsert_chunks E item name cls encs embs d = Returns (Inl e, d') \<Longrightarrow> db_rows d' = db_rows d"
  by (auto simp: upsert_chunks_def rolled_back_def Let_def split: if_splits sum.splits prod.splits)

interpretation pgc: chunk_store db_rows pg_show delete_chunks upsert_chunks
proof unfold_locales
  fix E :: "'f pg" and i n c encs embs s u s'
  assume "upsert_chunks E i n c encs embs s = Returns (Inr u, s')"
  then obtain tx where "insert_all E i n c 0 (zip encs embs)
      \<lparr>db_rows = delete_rows i (db_rows s), db_tick = Suc (Suc (db_tick s))\<rparr> = (Inr (), tx)"
    and "s' = tx\<lparr>db_tick := Suc (db_tick tx)\<rparr>" by (rule upsert_chunks_Inr)
  with insert_all_ok [OF this(1)]
  show "item_view i (db_rows s') = stored (pg_show E) 0 (zip encs embs) \<and>
      other_rows i (db_rows s') = other_rows i (db_rows s)"
    by simp
next
  fix E :: "'f pg" and i n c and encs :: "bytes list" and embs :: "'f list list" and s
  assume "length encs = length embs"
  then show "\<exists>r. upsert_chunks E i n c encs embs s = Returns r"
    by (auto simp: upsert_chunks_def rolled_back_def Let_def split: sum.splits prod.splits)
qed (auto simp: delete_chunks_def upsert_chunks_Inl split: if_splits)

section \<open>Properties\<close>

text \<open>
  C21. An upsert is atomic: it returns an error and the table is unchanged, or it succeeds and the
  item stores exactly the given chunks, numbered from 0, and in both cases the rows of every other
  item are untouched. It panics only on the debug assertion.
\<close>

theorem upsert_atomic:
  assumes "length encs = length embs"
  shows "\<exists>r d'. upsert_chunks E item name cls encs embs d = Returns (r, d') \<and>
     other_rows item (db_rows d') = other_rows item (db_rows d) \<and>
     (case r of Inl _ \<Rightarrow> db_rows d' = db_rows d
      | Inr _ \<Rightarrow> item_view item (db_rows d') = stored (pg_show E) 0 (zip encs embs))"
proof -
  obtain r d' where u: "upsert_chunks E item name cls encs embs d = Returns (r, d')"
    using pgc.ups_returns [OF assms] by (metis surj_pair)
  show ?thesis using u pgc.ups_frame [OF u] pgc.ups_atomic [OF u] by blast
qed

definition toy_pg :: "nat pg" where
  "toy_pg = \<lparr>pg_fails = (\<lambda>_. False), pg_fresh = of_nat, pg_cast_ok = (\<lambda>_. True), pg_show = show_nat,
     pg_debug = True\<rparr>"

theorem upsert_atomic_witness:
  "\<exists>r d'. upsert_chunks toy_pg ''i'' ''n'' ''PUBLIC'' [[1]] [[7, 8]] \<lparr>db_rows = [], db_tick = 0\<rparr> =
     Returns (r, d') \<and> other_rows ''i'' (db_rows d') = other_rows ''i'' [] \<and>
     (case r of Inl _ \<Rightarrow> db_rows d' = []
      | Inr _ \<Rightarrow> item_view ''i'' (db_rows d') = stored (pg_show toy_pg) 0 (zip [[1]] [[7, 8]]))"
  using upsert_atomic [of "[[1]]" "[[7, 8]]" toy_pg "''i''" "''n''" "''PUBLIC''"
      "\<lparr>db_rows = [], db_tick = 0\<rparr>"]
  by (simp cong: sum.case_cong)

end
