(* ===== verification/Connector.thy ===== *)
theory Connector
  imports Rust_Str
begin

text \<open>
  The interface of a document source, \<open>ingestion/src/connector/mod.rs\<close>: change items, delta results,
  the error types and the \<open>SourceConnector\<close> trait, which is a record of operations here (a trait
  object) with the laws the daemon relies on in the locale \<open>source_connector\<close>.

  An operation of a connector works on a world \<open>'w\<close> (its caches and the position in the sequence of
  external answers). It can fail with a \<open>connector_error\<close>, panic, or not return at all: its type is
  \<open>('w, 'a) io\<close>, with the combinators below standing for \<open>?\<close> and sequencing. \<open>None\<close> is a call that
  never returns.
\<close>

section \<open>Data\<close>

datatype auth_error_kind = InvalidCode | AccessDenied | InvalidClient | Unexpected

datatype connector_error =
    Http nat
  | Auth auth_error_kind
  | CursorInvalid
  | Throttled nat
  | OtherErr string

text \<open>\<open>serde_json::Value\<close>; a number is kept as it is written.\<close>

datatype json =
    JNull
  | JBool bool
  | JNum string
  | JStr string
  | JArr "json list"
  | JObj "(string \<times> json) list"

text \<open>\<open>Value::get(key)\<close>, \<open>as_str\<close> and \<open>as_object\<close>.\<close>

fun json_get :: "string \<Rightarrow> json \<Rightarrow> json option" where
  "json_get k (JObj kvs) = map_of kvs k"
| "json_get k j = None"

fun json_as_str :: "json \<Rightarrow> string option" where
  "json_as_str (JStr s) = Some s"
| "json_as_str j = None"

fun json_as_object :: "json \<Rightarrow> (string \<times> json) list option" where
  "json_as_object (JObj kvs) = Some kvs"
| "json_as_object j = None"

text \<open>\<open>json!\<close> on an \<open>Option<String>\<close>.\<close>

fun json_opt_str :: "string option \<Rightarrow> json" where
  "json_opt_str None = JNull"
| "json_opt_str (Some s) = JStr s"

record change_item =
  ci_remote_id :: string
  ci_parent_id :: "string option"
  ci_name :: string
  ci_is_folder :: bool
  ci_modified_at :: "string option"
  ci_deleted :: bool
  ci_raw :: json

record delta_result =
  dr_next_cursor :: "string option"
  dr_changes :: "change_item list"
  dr_more :: bool

section \<open>Forms, headers and statuses\<close>

text \<open>The fields of a posted form, in order.\<close>

type_synonym form = "(string \<times> string) list"

text \<open>\<open>str::parse::<u64>\<close>: an optional plus sign, then digits, below \<open>2^64\<close>.\<close>

definition parse_u64 :: "string \<Rightarrow> nat option" where
  "parse_u64 s =
     (let ds = (case s of [] \<Rightarrow> [] | c # cs \<Rightarrow> if c = CHR ''+'' then cs else s) in
      if ds = [] \<or> \<not> list_all is_digit_char ds \<or> 2 ^ 64 \<le> dec_value ds then None
      else Some (dec_value ds))"

text \<open>The \<open>Retry-After\<close> header, when present and text; 60 otherwise.\<close>

definition retry_after :: "string option \<Rightarrow> nat" where
  "retry_after h = unwrap_or 60 (Option.bind h parse_u64)"

definition is_success :: "nat \<Rightarrow> bool" where
  "is_success status \<longleftrightarrow> 200 \<le> status \<and> status < 300"

definition is_redirection :: "nat \<Rightarrow> bool" where
  "is_redirection status \<longleftrightarrow> 300 \<le> status \<and> status < 400"

text \<open>\<open>error_for_status\<close> makes an error of the client and server error statuses only.\<close>

definition is_error_status :: "nat \<Rightarrow> bool" where
  "is_error_status status \<longleftrightarrow> 400 \<le> status \<and> status < 600"

section \<open>Redirects\<close>

text \<open>
  A \<open>reqwest\<close> client follows redirects on its own unless it is built with another policy: up to 10 of them
  by default. The requests it then makes are a parameter of the model, by the tick, the URL, the form and the
  bearer token of the request that the code makes. Of each, a \<open>hop\<close> has the status of the redirect that led
  to it, its URL, whether that redirect stayed on the same host and port, and what the request carries.
\<close>

record hop =
  hp_status :: nat
  hp_url :: string
  hp_same_host :: bool
  hp_form :: "form option"
  hp_token :: "string option"

type_synonym redirector = "nat \<Rightarrow> string \<Rightarrow> form option \<Rightarrow> string option \<Rightarrow> hop list"

datatype redirect_policy = Limited nat | NoRedirects

fun most_hops :: "redirect_policy \<Rightarrow> nat" where
  "most_hops (Limited n) = n"
| "most_hops NoRedirects = 0"

definition default_policy :: redirect_policy where
  "default_policy = Limited 10"

definition hops_by :: "redirect_policy \<Rightarrow> redirector \<Rightarrow> redirector" where
  "hops_by p R t url form token = take (most_hops p) (R t url form token)"

text \<open>
  What the library documents: the body is sent again after 307 and 308 only, and is gone for good after another
  status; the token is not sent to another host than that of the request before.
\<close>

definition redirect_laws :: "redirector \<Rightarrow> bool" where
  "redirect_laws R \<longleftrightarrow> (\<forall>t url form token i. i < length (R t url form token) \<longrightarrow>
     (let h = R t url form token ! i in
       (hp_form h \<noteq> None \<longrightarrow> hp_form h = form \<and> (\<forall>j \<le> i. hp_status (R t url form token ! j) \<in> {307, 308})) \<and>
       (hp_token h \<noteq> None \<longrightarrow> hp_token h = token \<and> hp_same_host h)))"

lemma hops_by_nth:
  assumes "redirect_laws R" and "i < length (hops_by p R t url form token)"
  shows "hp_form (hops_by p R t url form token ! i) \<noteq> None \<Longrightarrow>
       hp_form (hops_by p R t url form token ! i) = form \<and>
       (\<forall>j \<le> i. hp_status (hops_by p R t url form token ! j) \<in> {307, 308})"
    and "hp_token (hops_by p R t url form token ! i) \<noteq> None \<Longrightarrow>
       hp_token (hops_by p R t url form token ! i) = token \<and> hp_same_host (hops_by p R t url form token ! i)"
proof -
  have i: "i < most_hops p" "i < length (R t url form token)" using assms(2) by (simp_all add: hops_by_def)
  then have nth: "hops_by p R t url form token ! j = R t url form token ! j" if "j \<le> i" for j
    using that by (simp add: hops_by_def)
  note law = assms(1) [unfolded redirect_laws_def Let_def, rule_format, OF i(2)]
  show "hp_form (hops_by p R t url form token ! i) \<noteq> None \<Longrightarrow>
       hp_form (hops_by p R t url form token ! i) = form \<and>
       (\<forall>j \<le> i. hp_status (hops_by p R t url form token ! j) \<in> {307, 308})"
    using conjunct1 [OF law] nth by simp
  show "hp_token (hops_by p R t url form token ! i) \<noteq> None \<Longrightarrow>
       hp_token (hops_by p R t url form token ! i) = token \<and> hp_same_host (hops_by p R t url form token ! i)"
    using conjunct2 [OF law] nth by simp
qed

lemma hops_by_length [simp]: "length (hops_by (Limited n) R t url form token) \<le> n"
  by (simp add: hops_by_def)

lemma redirect_laws_none: "redirect_laws (\<lambda>_ _ _ _. [])"
  by (simp add: redirect_laws_def)

section \<open>Logs\<close>

text \<open>A log that grew by entries of one kind.\<close>

definition adds :: "('x \<Rightarrow> bool) \<Rightarrow> 'x list \<Rightarrow> 'x list \<Rightarrow> bool" where
  "adds P xs ys \<longleftrightarrow> (\<exists>new. ys = xs @ new \<and> (\<forall>x \<in> set new. P x))"

lemma adds_simps [simp]: "adds P xs xs" "adds P xs (xs @ [x]) \<longleftrightarrow> P x"
  by (auto simp: adds_def)

lemma adds_trans: "adds P xs ys \<Longrightarrow> adds P ys zs \<Longrightarrow> adds P xs zs"
  unfolding adds_def by (metis UnE append.assoc set_append)

lemma adds_mono: "adds P xs ys \<Longrightarrow> (\<And>x. P x \<Longrightarrow> Q x) \<Longrightarrow> adds Q xs ys"
  by (auto simp: adds_def)

section \<open>Instants\<close>

text \<open>
  An \<open>Instant\<close> is a number of nanoseconds below the end of its range, beyond which \<open>Instant + Duration\<close>
  panics.
\<close>

definition nanos :: "nat \<Rightarrow> nat" where
  "nanos secs = secs * 1000000000"

lemma nanos_less [simp]: "nanos a < nanos b \<longleftrightarrow> a < b"
  by (simp add: nanos_def)

definition instant_plus :: "nat \<Rightarrow> nat \<Rightarrow> nat \<Rightarrow> nat run" where
  "instant_plus limit t secs = (if t + nanos secs < limit then Returns (t + nanos secs) else Panics)"

lemma instant_plus_Returns [simp]:
  "instant_plus limit t secs = Returns u \<longleftrightarrow> t + nanos secs < limit \<and> u = t + nanos secs"
  by (auto simp: instant_plus_def)

section \<open>Operations on a world\<close>

type_synonym ('w, 'a) io = "'w \<Rightarrow> ((connector_error + 'a) \<times> 'w) run option"

definition io_ret :: "'a \<Rightarrow> ('w, 'a) io" where
  "io_ret x w = Some (Returns (Inr x, w))"

definition io_err :: "connector_error \<Rightarrow> ('w, 'a) io" where
  "io_err e w = Some (Returns (Inl e, w))"

definition io_panic :: "('w, 'a) io" where
  "io_panic w = Some Panics"

definition io_bind :: "('w, 'a) io \<Rightarrow> ('a \<Rightarrow> ('w, 'b) io) \<Rightarrow> ('w, 'b) io" where
  "io_bind m f w =
     (case m w of
        None \<Rightarrow> None
      | Some Panics \<Rightarrow> Some Panics
      | Some (Returns (Inl e, w')) \<Rightarrow> Some (Returns (Inl e, w'))
      | Some (Returns (Inr x, w')) \<Rightarrow> f x w')"

definition io_lift :: "connector_error + 'a \<Rightarrow> ('w, 'a) io" where
  "io_lift r w = Some (Returns (r, w))"

definition io_run :: "'a run \<Rightarrow> ('w, 'a) io" where
  "io_run r w = Some (case r of Panics \<Rightarrow> Panics | Returns x \<Rightarrow> Returns (Inr x, w))"

declare io_ret_def [io_defs] io_err_def [io_defs] io_panic_def [io_defs] io_bind_def [io_defs] io_lift_def [io_defs]

lemma io_bind_simps [simp]:
  "io_bind (io_ret x) f = f x"
  "io_bind (io_err e) f = io_err e"
  "io_bind io_panic f = io_panic"
  by (simp_all add: fun_eq_iff io_defs)

lemma io_ok_iff [simp]:
  "io_ret x w = Some (Returns (Inr y, w')) \<longleftrightarrow> y = x \<and> w' = w"
  "io_err e w = Some (Returns (Inr y, w')) \<longleftrightarrow> False"
  "io_panic w = Some (Returns p) \<longleftrightarrow> False"
  "io_lift r w = Some (Returns (r', w')) \<longleftrightarrow> r' = r \<and> w' = w"
  "io_run q w = Some (Returns (Inr y, w')) \<longleftrightarrow> q = Returns y \<and> w' = w"
  by (auto simp: io_defs io_run_def split: run.splits)

lemma io_bind_ok [simp]:
  "io_bind m f w = Some (Returns (Inr y, w')) \<longleftrightarrow>
     (\<exists>x w1. m w = Some (Returns (Inr x, w1)) \<and> f x w1 = Some (Returns (Inr y, w')))"
  by (auto simp: io_bind_def split: outcome_splits sum.splits prod.splits)

lemma io_bind_Some: "m w = Some (Returns (Inr x, w1)) \<Longrightarrow> io_bind m f w = f x w1"
  by (simp add: io_bind_def)

text \<open>A property of worlds that an operation keeps, however it ends.\<close>

definition keeps :: "('w \<Rightarrow> 'w \<Rightarrow> bool) \<Rightarrow> ('w, 'a) io \<Rightarrow> bool" where
  "keeps R m \<longleftrightarrow> (\<forall>w r w'. m w = Some (Returns (r, w')) \<longrightarrow> R w w')"

lemma keeps_bind:
  assumes "transp R" and "keeps R m" and "\<And>x. keeps R (f x)"
  shows "keeps R (io_bind m f)"
  unfolding keeps_def
proof (intro allI impI)
  fix w r w' assume b: "io_bind m f w = Some (Returns (r, w'))"
  then obtain r1 w1 where m: "m w = Some (Returns (r1, w1))"
    by (auto simp: io_bind_def split: outcome_splits)
  then have "R w w1" using assms(2) by (auto simp: keeps_def)
  show "R w w'"
  proof (cases r1)
    case (Inl e)
    then show ?thesis using b m \<open>R w w1\<close> by (simp add: io_bind_def)
  next
    case (Inr x)
    then have "f x w1 = Some (Returns (r, w'))" using b m by (simp add: io_bind_def)
    then have "R w1 w'" using assms(3) by (auto simp: keeps_def)
    then show ?thesis using \<open>R w w1\<close> assms(1) by (meson transpD)
  qed
qed

lemma keeps_ret [intro]: "reflp R \<Longrightarrow> keeps R (io_ret x)"
  by (auto simp: keeps_def io_ret_def dest: reflpD)

lemma keeps_err [intro]: "reflp R \<Longrightarrow> keeps R (io_err e)"
  by (auto simp: keeps_def io_err_def dest: reflpD)

lemma keeps_lift [intro]: "reflp R \<Longrightarrow> keeps R (io_lift r)"
  by (auto simp: keeps_def io_lift_def dest: reflpD)

lemma keeps_run [intro]: "reflp R \<Longrightarrow> keeps R (io_run r)"
  by (auto simp: keeps_def io_run_def dest: reflpD split: run.splits)

text \<open>An operation that always returns a value.\<close>

definition yields :: "('w, 'a) io \<Rightarrow> bool" where
  "yields m \<longleftrightarrow> (\<forall>w. \<exists>x w'. m w = Some (Returns (Inr x, w')))"

lemma yields_ret [intro]: "yields (io_ret x)"
  by (simp add: yields_def)

lemma yields_bind: "yields m \<Longrightarrow> (\<And>x. yields (f x)) \<Longrightarrow> yields (io_bind m f)"
  by (fastforce simp: yields_def)

section \<open>SourceConnector\<close>

record 'w connector =
  cn_id :: string
  cn_kind :: string
  cn_list_changes :: "string option \<Rightarrow> ('w, delta_result) io"
  cn_download :: "change_item \<Rightarrow> ('w, bytes) io"

text \<open>
  What the daemon relies on: a successful \<open>list_changes\<close> has a cursor to save, and reports files only
  (folders have no content to download).
\<close>

locale source_connector =
  fixes ok :: "'p \<Rightarrow> bool" and conn :: "'p \<Rightarrow> 'w connector"
  assumes list_ok: "ok p \<Longrightarrow> cn_list_changes (conn p) c w = Some (Returns (Inr d, w')) \<Longrightarrow>
      dr_next_cursor d \<noteq> None \<and> (\<forall>ch \<in> set (dr_changes d). \<not> ci_is_folder ch)"
begin

lemma next_cursor:
  assumes "ok p" and "cn_list_changes (conn p) c w = Some (Returns (Inr d, w'))"
  obtains c' where "dr_next_cursor d = Some c'"
  using list_ok [OF assms] by blast

end

end
