(* ===== verification/Embed.thy ===== *)
theory Embed
  imports Connector "HOL-Library.Multiset"
begin

text \<open>
  The TEI embedding client of the daemon, \<open>ingestion/src/embed.rs\<close>: batches of at most
  \<open>tc_batch_size\<close> texts, the length check of the answer, and the stable sort by \<open>index\<close>.

  \<open>em_post\<close> is the service: its answer at a tick to a request posted to a URL. A vector of \<open>f32\<close> is a list
  of some type \<open>'f\<close>. The operations return the next tick with their result.
\<close>

section \<open>The client\<close>

record tei_client =
  tc_base_url :: string
  tc_batch_size :: nat

record embed_request =
  er_model :: string
  er_input :: "string list"

record 'f embed_data =
  ed_index :: nat
  ed_embedding :: "'f list"

record 'f embed_response =
  es_data :: "'f embed_data list"

datatype 'f embed_answer = EmbedFails string | EmbedAnswer nat string "string + 'f embed_response"

record 'f embed_env =
  em_post :: "nat \<Rightarrow> string \<Rightarrow> embed_request \<Rightarrow> 'f embed_answer"

definition embed_new :: "string \<Rightarrow> nat \<Rightarrow> tei_client" where
  "embed_new base_url batch_size =
     \<lparr>tc_base_url = trim_end_char (CHR ''/'') base_url, tc_batch_size = max batch_size 1\<rparr>"

text \<open>\<open>slice::chunks\<close> for a size that is not 0.\<close>

fun chunks_of :: "nat \<Rightarrow> 'a list \<Rightarrow> 'a list list" where
  "chunks_of n [] = []"
| "chunks_of n (x # xs) = (x # take (n - 1) xs) # chunks_of n (drop (n - 1) xs)"

definition embed_one_batch :: "'f embed_env \<Rightarrow> tei_client \<Rightarrow> string list \<Rightarrow> nat \<Rightarrow> (anyhow + 'f list list) \<times> nat" where
  "embed_one_batch E c texts t =
     ((case em_post E t (tc_base_url c @ ''/v1/embeddings'')
              \<lparr>er_model = ''nomic-embed-text-v1.5'', er_input = texts\<rparr> of
         EmbedFails e \<Rightarrow> Inl e
       | EmbedAnswer status status_error body \<Rightarrow>
           if is_error_status status then Inl status_error
           else and_then body (\<lambda>resp.
             if length (es_data resp) \<noteq> length texts
             then Inl (''TEI returned '' @ show_nat (length (es_data resp)) @ '' embeddings for '' @
               show_nat (length texts) @ '' inputs'')
             else Inr (map ed_embedding (sort_key ed_index (es_data resp))))),
      t + 1)"

fun embed_batches :: "'f embed_env \<Rightarrow> tei_client \<Rightarrow> string list list \<Rightarrow> 'f list list \<Rightarrow> nat \<Rightarrow>
    (anyhow + 'f list list) \<times> nat" where
  "embed_batches E c [] all_vecs t = (Inr all_vecs, t)"
| "embed_batches E c (batch # batches) all_vecs t =
     (case embed_one_batch E c batch t of
        (Inl e, t') \<Rightarrow> (Inl e, t')
      | (Inr batch_result, t') \<Rightarrow> embed_batches E c batches (all_vecs @ batch_result) t')"

definition embed_batch :: "'f embed_env \<Rightarrow> tei_client \<Rightarrow> string list \<Rightarrow> nat \<Rightarrow> (anyhow + 'f list list) \<times> nat" where
  "embed_batch E c texts t = embed_batches E c (chunks_of (tc_batch_size c) texts) [] t"

section \<open>Batches\<close>

lemma concat_chunks [simp]: "concat (chunks_of n xs) = xs"
  by (induction n xs rule: chunks_of.induct) simp_all

lemma chunks_size: "0 < n \<Longrightarrow> b \<in> set (chunks_of n xs) \<Longrightarrow> 0 < length b \<and> length b \<le> n"
  by (induction n xs rule: chunks_of.induct) auto

lemma embed_one_batch_length:
  "embed_one_batch E c texts t = (Inr vs, t') \<Longrightarrow> length vs = length texts"
  by (auto simp: embed_one_batch_def split: embed_answer.splits if_splits)

text \<open>A successful call has one vector for each text.\<close>

lemma embed_batches_length:
  "embed_batches E c batches acc t = (Inr vs, t') \<Longrightarrow> length vs = length acc + length (concat batches)"
proof (induction batches arbitrary: acc t)
  case (Cons b bs)
  then obtain r t1 where b: "embed_one_batch E c b t = (Inr r, t1)" "embed_batches E c bs (acc @ r) t1 = (Inr vs, t')"
    by (auto split: prod.splits sum.splits)
  from Cons.IH [OF b(2)] embed_one_batch_length [OF b(1)] show ?case by simp
qed simp

lemma embed_batch_length: "embed_batch E c texts t = (Inr vs, t') \<Longrightarrow> length vs = length texts"
  unfolding embed_batch_def by (drule embed_batches_length) simp

text \<open>A service that answers a batch with the vector of each of its texts under its index, in any order.\<close>

definition embeds :: "'f embed_env \<Rightarrow> nat \<Rightarrow> (string \<Rightarrow> 'f list) \<Rightarrow> bool" where
  "embeds E limit emb \<longleftrightarrow> (\<forall>t url model ts. length ts \<le> limit \<longrightarrow>
     (\<exists>err data. em_post E t url \<lparr>er_model = model, er_input = ts\<rparr> = EmbedAnswer 200 err (Inr \<lparr>es_data = data\<rparr>) \<and>
     mset data = mset (map (\<lambda>i. \<lparr>ed_index = i, ed_embedding = emb (ts ! i)\<rparr>) [0..<length ts])))"

lemma sort_by_index:
  assumes "mset data = mset (map (\<lambda>i. \<lparr>ed_index = i, ed_embedding = f i\<rparr>) [0..<n])"
  shows "sort_key ed_index data = map (\<lambda>i. \<lparr>ed_index = i, ed_embedding = f i\<rparr>) [0..<n]"
proof (rule sort_key_inj_key_eq)
  let ?ys = "map (\<lambda>i. \<lparr>ed_index = i, ed_embedding = f i\<rparr>) [0..<n]"
  show "mset data = mset ?ys" by (rule assms)
  then have "set data = set ?ys" by (rule mset_eq_setD)
  then show "inj_on ed_index (set data)" by (auto simp: inj_on_def)
  show "sorted (map ed_index ?ys)" by (simp add: comp_def)
qed

lemma map_nth_emb: "map (\<lambda>i. emb (ts ! i)) [0..<length ts] = map emb ts"
  by (rule nth_equalityI) simp_all

lemma embed_one_batch_ok:
  assumes "embeds E limit emb" and "length ts \<le> limit"
  shows "embed_one_batch E c ts t = (Inr (map emb ts), t + 1)"
proof -
  obtain err data where d: "em_post E t (tc_base_url c @ ''/v1/embeddings'')
      \<lparr>er_model = ''nomic-embed-text-v1.5'', er_input = ts\<rparr> = EmbedAnswer 200 err (Inr \<lparr>es_data = data\<rparr>)"
    "mset data = mset (map (\<lambda>i. \<lparr>ed_index = i, ed_embedding = emb (ts ! i)\<rparr>) [0..<length ts])"
    using assms unfolding embeds_def by blast
  have "length data = length ts" using d(2) by (metis length_map length_upt minus_nat.diff_0 mset_eq_length)
  moreover have "map ed_embedding (sort_key ed_index data) = map emb ts"
    unfolding sort_by_index [OF d(2)] by (simp add: comp_def map_nth_emb)
  ultimately show ?thesis using d(1) by (simp add: embed_one_batch_def is_error_status_def)
qed

lemma embed_batches_ok:
  assumes "embeds E limit emb"
  shows "\<forall>b \<in> set batches. length b \<le> limit \<Longrightarrow> \<exists>t'. embed_batches E c batches acc t = (Inr (acc @ map emb (concat batches)), t')"
proof (induction batches arbitrary: acc t)
  case (Cons b bs)
  then have "embed_one_batch E c b t = (Inr (map emb b), t + 1)"
    using embed_one_batch_ok [OF assms] by simp
  with Cons.IH [of "acc @ map emb b" "t + 1"] Cons.prems show ?case by simp
qed simp

section \<open>Properties\<close>

text \<open>
  C28. The embeddings are in the order of the texts, whatever the batch size and the order of the answers:
  if the service answers every batch that the client can send (at most the batch size, which is at least
  1) with the vectors of its texts under their indices, in any order, the call returns the vector of
  each text in turn.
\<close>

theorem embed_in_order:
  assumes "embeds E (max batch_size 1) emb"
  shows "\<exists>t'. embed_batch E (embed_new base_url batch_size) texts t = (Inr (map emb texts), t')"
proof -
  have "0 < max batch_size 1" by simp
  then have "\<forall>b \<in> set (chunks_of (max batch_size 1) texts). length b \<le> max batch_size 1"
    using chunks_size by blast
  from embed_batches_ok [OF assms this, of "embed_new base_url batch_size" "[]" t] show ?thesis
    by (simp add: embed_batch_def embed_new_def)
qed

text \<open>A service that answers in reverse order.\<close>

definition toy_tei :: "nat embed_env" where
  "toy_tei = \<lparr>em_post = (\<lambda>_ _ q. EmbedAnswer 200 [] (Inr \<lparr>es_data =
     rev (map (\<lambda>i. \<lparr>ed_index = i, ed_embedding = [length (er_input q ! i)]\<rparr>) [0..<length (er_input q)])\<rparr>))\<rparr>"

lemma toy_embeds: "embeds toy_tei limit (\<lambda>s. [length s])"
  by (simp add: embeds_def toy_tei_def)

theorem embed_in_order_witness:
  "\<exists>t'. embed_batch toy_tei (embed_new ''http://tei/'' 2) [''a'', ''bb'', ''''] 0 = (Inr [[1], [2], [0]], t')"
proof -
  from embed_in_order [OF toy_embeds, of "''http://tei/''" 2 "[''a'', ''bb'', '''']" 0] show ?thesis by (simp add: numeral_2_eq_2)
qed

end
