(* ===== verification/Cursor_State.thy ===== *)
theory Cursor_State
  imports Rust_Str
begin

text \<open>
  The saved delta cursors, \<open>ingestion/src/state.rs\<close>: the table \<open>ingestion_state\<close> by its primary key
  \<open>connector_id\<close>, \<open>load_cursor\<close> and \<open>save_cursor\<close>. A statement runs at a tick; \<open>se_fails\<close> says which
  statements the server fails (without an effect), \<open>se_now\<close> is \<open>now()\<close>. The columns \<open>workspace_id\<close> and
  \<open>connector_kind\<close> keep their defaults and are not modelled.

  The locale \<open>cursor_store\<close> is what the ingestion cycle relies on.
\<close>

record state_row =
  sr_delta_token :: string
  sr_last_synced :: nat

record cursors =
  cu_rows :: "string \<rightharpoonup> state_row"
  cu_tick :: nat

record state_env =
  se_fails :: "nat \<Rightarrow> bool"
  se_now :: "nat \<Rightarrow> nat"

definition load_cursor :: "state_env \<Rightarrow> string \<Rightarrow> cursors \<Rightarrow> (anyhow + string option) \<times> cursors" where
  "load_cursor E connector_id s =
     (if se_fails E (cu_tick s) then Inl ''database error''
      else Inr (map_option sr_delta_token (cu_rows s connector_id)),
      s\<lparr>cu_tick := cu_tick s + 1\<rparr>)"

text \<open>The upsert; \<open>connector_id\<close> is a \<open>VARCHAR(255)\<close>.\<close>

definition save_cursor :: "state_env \<Rightarrow> string \<Rightarrow> string \<Rightarrow> cursors \<Rightarrow> (anyhow + unit) \<times> cursors" where
  "save_cursor E connector_id delta_token s =
     (let s' = s\<lparr>cu_tick := cu_tick s + 1\<rparr> in
      if se_fails E (cu_tick s) then (Inl ''database error'', s')
      else if 255 < length (chars connector_id) then (Inl ''value too long'', s')
      else (Inr (), s'\<lparr>cu_rows := (cu_rows s)(connector_id \<mapsto>
              \<lparr>sr_delta_token = delta_token, sr_last_synced = se_now E (cu_tick s)\<rparr>)\<rparr>))"

definition saved :: "string \<Rightarrow> cursors \<Rightarrow> string option" where
  "saved connector_id s = map_option sr_delta_token (cu_rows s connector_id)"

locale cursor_store =
  fixes view :: "string \<Rightarrow> 's \<Rightarrow> string option"
    and load :: "'p \<Rightarrow> string \<Rightarrow> 's \<Rightarrow> (anyhow + string option) \<times> 's"
    and save :: "'p \<Rightarrow> string \<Rightarrow> string \<Rightarrow> 's \<Rightarrow> (anyhow + unit) \<times> 's"
  assumes load_view: "load E i s = (r, s') \<Longrightarrow> view j s' = view j s \<and> (case r of Inl _ \<Rightarrow> True | Inr c \<Rightarrow> c = view i s)"
    and save_ok: "save E i c s = (Inr u, s') \<Longrightarrow> view j s' = (if j = i then Some c else view j s)"
    and save_err: "save E i c s = (Inl e, s') \<Longrightarrow> view j s' = view j s"
begin

text \<open>What was saved last is what is loaded next, whatever else is saved in between under other names.\<close>

lemma load_after_save:
  assumes "save E i c s = (Inr u, s1)" and "load E' i s1 = (Inr c', s2)"
  shows "c' = Some c"
  using save_ok [OF assms(1), of i] load_view [OF assms(2), of i] by simp

lemma save_other: "save E i c s = (r, s') \<Longrightarrow> j \<noteq> i \<Longrightarrow> view j s' = view j s"
  by (cases r) (simp_all add: save_ok save_err)

end

lemma load_cursor_saved:
  "load_cursor E i s = (r, s') \<Longrightarrow> saved j s' = saved j s \<and> (r = Inl ''database error'' \<or> r = Inr (saved i s))"
  by (auto simp: load_cursor_def saved_def split: if_splits)

lemma save_cursor_saved:
  "save_cursor E i c s = (r, s') \<Longrightarrow> saved j s' = (if r = Inr () \<and> j = i then Some c else saved j s)"
  by (auto simp: save_cursor_def saved_def Let_def split: if_splits)

interpretation cursor_table: cursor_store saved load_cursor save_cursor
proof unfold_locales
  fix E i s and r :: "anyhow + string option" and s' j
  assume "load_cursor E i s = (r, s')"
  from load_cursor_saved [OF this, of j]
  show "saved j s' = saved j s \<and> (case r of Inl _ \<Rightarrow> True | Inr c \<Rightarrow> c = saved i s)" by auto
next
  fix E i c s and u :: unit and s' j
  assume "save_cursor E i c s = (Inr u, s')"
  from save_cursor_saved [OF this, of j]
  show "saved j s' = (if j = i then Some c else saved j s)" by simp
next
  fix E i c s e s' j
  assume "save_cursor E i c s = (Inl e, s')"
  from save_cursor_saved [OF this, of j] show "saved j s' = saved j s" by simp
qed

end
