(* ===== verification/Graph.thy ===== *)
theory Graph
  imports Connector
begin

text \<open>
  The Microsoft Graph drive connector, \<open>ingestion/src/connector/graph.rs\<close>: the token cache, the delta
  loop over \<open>@odata.nextLink\<close> pages, and the download by a pre-signed URL.

  The environment \<open>graph_env\<close> gives the clock and the answers of the token endpoint, of the delta URLs and
  of the download URLs, by tick, after the redirects that the HTTP client followed on its own (\<open>ge_hops\<close>).
  The delta loop follows the links the server gives: a partial function, \<open>None\<close> when it never returns. A panic while the cache is locked ends the call, as in the daemon.
\<close>

section \<open>Data\<close>

record graph_token =
  gt_value :: string
  gt_expires_at :: nat

record graph_token_response =
  gr_access_token :: string
  gr_expires_in :: nat

record raw_item =
  ri_id :: string
  ri_name :: "string option"
  ri_file :: "json option"
  ri_deleted :: "json option"
  ri_download_url :: "string option"

record delta_page =
  dp_value :: "raw_item list"
  dp_next_link :: "string option"
  dp_delta_link :: "string option"

text \<open>
  An answer: the request fails, or a status, what matters of the headers and the body. The text of the
  error that \<open>error_for_status\<close> makes of a status belongs to the token answer.
\<close>

datatype graph_token_answer = TokenSendFails string | TokenAnswer nat string "string + graph_token_response"

datatype delta_answer = DeltaFails string | DeltaAnswer nat "string option" "string + delta_page"

datatype file_answer = FileFails string | FileAnswer nat "string + bytes"

record graph_env =
  ge_now :: "nat \<Rightarrow> nat"
  ge_instant_end :: nat
  ge_token :: "nat \<Rightarrow> string \<Rightarrow> form \<Rightarrow> graph_token_answer"
  ge_delta :: "nat \<Rightarrow> string \<Rightarrow> delta_answer"
  ge_file :: "nat \<Rightarrow> string \<Rightarrow> file_answer"
  ge_hops :: redirector

record graph_client =
  gc_drive_id :: string
  gc_tenant_id :: string
  gc_client_id :: string
  gc_client_secret :: string

record graph_world =
  gw_tick :: nat
  gw_token :: "graph_token option"
  gw_posts :: "(string \<times> form) list"
  gw_sent :: "(string \<times> string option) list"
  gw_chains :: "(string \<times> hop list) list"

text \<open>
  \<open>GraphClient::new\<close> takes its four strings; the cache starts empty. The HTTP client is \<open>Client::new()\<close>, of
  the default redirect policy, for every request.
\<close>

definition graph_new :: "string \<Rightarrow> string \<Rightarrow> string \<Rightarrow> string \<Rightarrow> graph_client \<times> graph_token option" where
  "graph_new drive_id tenant_id client_id client_secret =
     (\<lparr>gc_drive_id = drive_id, gc_tenant_id = tenant_id, gc_client_id = client_id,
       gc_client_secret = client_secret\<rparr>, None)"

section \<open>The token\<close>

definition token_url :: "graph_client \<Rightarrow> string" where
  "token_url c = ''https://login.microsoftonline.com/'' @ gc_tenant_id c @ ''/oauth2/v2.0/token''"

text \<open>The error is printed with its chain of contexts, \<open>{e:#}\<close>.\<close>

definition token_of_reply :: "graph_token_answer \<Rightarrow> anyhow + graph_token_response" where
  "token_of_reply a =
     (case a of
        TokenSendFails e \<Rightarrow> Inl (''token request failed: '' @ e)
      | TokenAnswer status status_error body \<Rightarrow>
          if is_error_status status then Inl (''token request returned error status: '' @ status_error)
          else map_err (\<lambda>e. ''failed to decode token response: '' @ e) body)"

definition token_form :: "graph_client \<Rightarrow> form" where
  "token_form c =
     [(''grant_type'', ''client_credentials''), (''client_id'', gc_client_id c),
      (''client_secret'', gc_client_secret c), (''scope'', ''https://graph.microsoft.com/.default'')]"

definition fetch_token :: "graph_env \<Rightarrow> graph_client \<Rightarrow> (graph_world, graph_token_response) io" where
  "fetch_token E c w =
     io_lift (map_err (\<lambda>e. OtherErr (''token fetch failed: '' @ e))
         (token_of_reply (ge_token E (gw_tick w) (token_url c) (token_form c))))
       (w\<lparr>gw_tick := gw_tick w + 1, gw_posts := gw_posts w @ [(token_url c, token_form c)],
         gw_chains := gw_chains w @ [(token_url c,
           hops_by default_policy (ge_hops E) (gw_tick w) (token_url c) (Some (token_form c)) None)]\<rparr>)"

definition graph_cached :: "graph_env \<Rightarrow> (graph_world, string option) io" where
  "graph_cached E w =
     (case gw_token w of
        None \<Rightarrow> io_ret None w
      | Some t \<Rightarrow>
          io_run (run_map (\<lambda>limit. if limit < gt_expires_at t then Some (gt_value t) else None)
            (instant_plus (ge_instant_end E) (ge_now E (gw_tick w)) 60)) (w\<lparr>gw_tick := gw_tick w + 1\<rparr>))"

definition graph_store :: "graph_env \<Rightarrow> graph_token_response \<Rightarrow> (graph_world, unit) io" where
  "graph_store E resp w =
     (case instant_plus (ge_instant_end E) (ge_now E (gw_tick w)) (gr_expires_in resp - 60) of
        Panics \<Rightarrow> Some Panics
      | Returns at \<Rightarrow> io_ret () (w\<lparr>gw_tick := gw_tick w + 1,
          gw_token := Some \<lparr>gt_value = gr_access_token resp, gt_expires_at = at\<rparr>\<rparr>))"

definition access_token :: "graph_env \<Rightarrow> graph_client \<Rightarrow> (graph_world, string) io" where
  "access_token E c =
     io_bind (graph_cached E) (\<lambda>t. case t of Some v \<Rightarrow> io_ret v | None \<Rightarrow>
     io_bind (fetch_token E c) (\<lambda>resp.
     io_bind (graph_store E resp) (\<lambda>_. io_ret (gr_access_token resp))))"

section \<open>The delta loop\<close>

definition gsend :: "graph_env \<Rightarrow> string \<Rightarrow> string option \<Rightarrow> graph_world \<Rightarrow> graph_world" where
  "gsend E url token w =
     w\<lparr>gw_tick := gw_tick w + 1, gw_sent := gw_sent w @ [(url, token)],
       gw_chains := gw_chains w @ [(url, hops_by default_policy (ge_hops E) (gw_tick w) url None token)]\<rparr>"

definition page_of_delta :: "delta_answer \<Rightarrow> connector_error + delta_page" where
  "page_of_delta a =
     (case a of
        DeltaFails e \<Rightarrow> Inl (OtherErr (''Graph delta request failed: '' @ e))
      | DeltaAnswer status retry body \<Rightarrow>
          if status = 401 \<or> status = 403 then Inl (Auth Unexpected)
          else if status = 429 then Inl (Throttled (retry_after retry))
          else if \<not> is_success status then Inl (Http status)
          else map_err (\<lambda>e. OtherErr (''failed to decode delta page: '' @ e)) body)"

definition download_key :: string where
  "download_key = ''@microsoft.graph.downloadUrl''"

definition graph_absorb :: "raw_item \<Rightarrow> change_item list \<times> string list \<Rightarrow> change_item list \<times> string list" where
  "graph_absorb item acc =
     (case acc of (changes, deleted_ids) \<Rightarrow>
        if ri_deleted item \<noteq> None then
          (changes @ [\<lparr>ci_remote_id = ri_id item, ci_parent_id = None, ci_name = unwrap_or [] (ri_name item),
             ci_is_folder = False, ci_modified_at = None, ci_deleted = True, ci_raw = JObj []\<rparr>],
           deleted_ids @ [ri_id item])
        else if ri_file item \<noteq> None then
          (changes @ [\<lparr>ci_remote_id = ri_id item, ci_parent_id = None, ci_name = unwrap_or [] (ri_name item),
             ci_is_folder = False, ci_modified_at = None, ci_deleted = False,
             ci_raw = JObj [(download_key, json_opt_str (ri_download_url item))]\<rparr>],
           deleted_ids)
        else (changes, deleted_ids))"

partial_function (option) graph_pages :: "graph_env \<Rightarrow> string \<Rightarrow> string \<Rightarrow> change_item list \<times> string list \<Rightarrow>
    (graph_world, (change_item list \<times> string list) \<times> string) io" where
  "graph_pages E token url acc w =
     (let w' = gsend E url (Some token) w in
      case page_of_delta (ge_delta E (gw_tick w) url) of
        Inl e \<Rightarrow> Some (Returns (Inl e, w'))
      | Inr page \<Rightarrow>
          (let acc' = fold graph_absorb (dp_value page) acc in
           case dp_next_link page of
             Some np \<Rightarrow> graph_pages E token np acc' w'
           | None \<Rightarrow>
               (case dp_delta_link page of
                  Some dl \<Rightarrow> Some (Returns (Inr (acc', dl), w'))
                | None \<Rightarrow> Some (Returns (Inl (OtherErr
                    ''Graph delta response has neither @odata.nextLink nor @odata.deltaLink''), w')))))"

definition run_delta_cycle :: "graph_env \<Rightarrow> graph_client \<Rightarrow> string option \<Rightarrow>
    (graph_world, (change_item list \<times> string list) \<times> string) io" where
  "run_delta_cycle E c cursor =
     io_bind (access_token E c) (\<lambda>token.
       graph_pages E token
         (case cursor of Some url \<Rightarrow> url
          | None \<Rightarrow> ''https://graph.microsoft.com/v1.0/drives/'' @ gc_drive_id c @ ''/root/delta'') ([], []))"

definition graph_list_changes :: "graph_env \<Rightarrow> graph_client \<Rightarrow> string option \<Rightarrow> (graph_world, delta_result) io" where
  "graph_list_changes E c cursor =
     io_bind (run_delta_cycle E c cursor) (\<lambda>((changes, _), delta_link).
       io_ret \<lparr>dr_next_cursor = Some delta_link, dr_changes = changes, dr_more = False\<rparr>)"

section \<open>Downloads\<close>

definition graph_get :: "graph_env \<Rightarrow> string \<Rightarrow> (graph_world, bytes) io" where
  "graph_get E url w =
     io_lift (case ge_file E (gw_tick w) url of
         FileFails e \<Rightarrow> Inl (OtherErr (''file download request failed: '' @ e))
       | FileAnswer status body \<Rightarrow>
           if \<not> is_success status then Inl (Http status)
           else map_err (\<lambda>e. OtherErr (''failed to read download body: '' @ e)) body)
       (gsend E url None w)"

definition graph_download :: "graph_env \<Rightarrow> change_item \<Rightarrow> (graph_world, bytes) io" where
  "graph_download E item =
     (case Option.bind (json_get download_key (ci_raw item)) json_as_str of
        None \<Rightarrow> io_err (OtherErr (''ChangeItem '' @ ci_remote_id item @
          '' has no @microsoft.graph.downloadUrl in raw''))
      | Some url \<Rightarrow> graph_get E url)"

definition graph_connector :: "graph_env \<Rightarrow> graph_client \<Rightarrow> graph_world connector" where
  "graph_connector E c = \<lparr>cn_id = gc_drive_id c, cn_kind = ''microsoft_graph'',
     cn_list_changes = graph_list_changes E c, cn_download = graph_download E\<rparr>"

section \<open>What a page becomes\<close>

definition change_of_raw :: "raw_item \<Rightarrow> change_item option" where
  "change_of_raw item =
     (if ri_deleted item = None \<and> ri_file item = None then None
      else Some \<lparr>ci_remote_id = ri_id item, ci_parent_id = None, ci_name = unwrap_or [] (ri_name item),
        ci_is_folder = False, ci_modified_at = None, ci_deleted = (ri_deleted item \<noteq> None),
        ci_raw = JObj (if ri_deleted item \<noteq> None then []
                       else [(download_key, json_opt_str (ri_download_url item))])\<rparr>)"

definition deleted_of :: "change_item list \<Rightarrow> string list" where
  "deleted_of chs = map ci_remote_id (filter ci_deleted chs)"

lemma graph_absorb_eq:
  "deleted_of chs = ids \<Longrightarrow> fold graph_absorb items (chs, ids) =
     (chs @ List.map_filter change_of_raw items, deleted_of (chs @ List.map_filter change_of_raw items))"
proof (induction items arbitrary: chs ids)
  case (Cons i items)
  define one where "one = (case change_of_raw i of None \<Rightarrow> [] | Some ch \<Rightarrow> [ch])"
  have "graph_absorb i (chs, ids) = (chs @ one, deleted_of (chs @ one))"
    using Cons.prems by (auto simp: graph_absorb_def change_of_raw_def deleted_of_def one_def)
  then have "fold graph_absorb (i # items) (chs, ids) = fold graph_absorb items (chs @ one, deleted_of (chs @ one))"
    by simp
  also have "\<dots> = ((chs @ one) @ List.map_filter change_of_raw items,
      deleted_of ((chs @ one) @ List.map_filter change_of_raw items))"
    by (rule Cons.IH) simp
  also have "(chs @ one) @ List.map_filter change_of_raw items = chs @ List.map_filter change_of_raw (i # items)"
    by (simp add: one_def map_filter_simps split: option.splits)
  finally show ?case .
qed (simp add: map_filter_simps)

text \<open>A change that is not a deletion can be downloaded iff its item had a URL.\<close>

lemma download_url_of:
  "change_of_raw item = Some ch \<Longrightarrow> \<not> ci_deleted ch \<Longrightarrow>
     Option.bind (json_get download_key (ci_raw ch)) json_as_str = ri_download_url item"
  by (cases "ri_download_url item") (auto simp: change_of_raw_def split: if_splits)

section \<open>The loop on a server\<close>

text \<open>A finite chain of pages, linked by their next links and ended by a delta link.\<close>

fun serves_chain :: "graph_env \<Rightarrow> string \<Rightarrow> (delta_page \<times> string) list \<Rightarrow> bool" where
  "serves_chain E url [] = False"
| "serves_chain E url ((page, link) # rest) \<longleftrightarrow>
     (\<forall>t. \<exists>retry. ge_delta E t url = DeltaAnswer 200 retry (Inr page)) \<and>
     (if rest = [] then dp_next_link page = None \<and> dp_delta_link page = Some link
      else dp_next_link page = Some link \<and> serves_chain E link rest)"

lemma page_of_200: "page_of_delta (DeltaAnswer 200 retry (Inr page)) = Inr page"
  by (simp add: page_of_delta_def is_success_def)

lemma graph_pages_chain:
  "serves_chain E url chain \<Longrightarrow> \<exists>w'. graph_pages E token url acc w =
     Some (Returns (Inr (fold graph_absorb (concat (map (\<lambda>pl. dp_value (fst pl)) chain)) acc, snd (last chain)), w'))"
proof (induction chain arbitrary: url acc w)
  case (Cons pl rest)
  obtain page link where pl: "pl = (page, link)" by (cases pl)
  obtain retry where "ge_delta E (gw_tick w) url = DeltaAnswer 200 retry (Inr page)"
    using Cons.prems pl by auto
  then have p: "page_of_delta (ge_delta E (gw_tick w) url) = Inr page" by (simp add: page_of_200)
  show ?case
  proof (cases "rest = []")
    case True
    with Cons.prems pl p show ?thesis by (subst graph_pages.simps) (simp add: Let_def)
  next
    case False
    with Cons.prems pl have "dp_next_link page = Some link" "serves_chain E link rest" by auto
    with p False pl Cons.IH [of link "fold graph_absorb (dp_value page) acc" "gsend E url (Some token) w"]
    show ?thesis by (subst graph_pages.simps) (simp add: Let_def)
  qed
qed simp

text \<open>
  What a call adds to the logs. The requests of the loop carry the one token; links that lead back
  never end.
\<close>

definition gsends :: "(string \<times> form \<Rightarrow> bool) \<Rightarrow> (string \<times> string option \<Rightarrow> bool) \<Rightarrow> (string \<times> hop list \<Rightarrow> bool) \<Rightarrow>
    graph_world \<Rightarrow> graph_world \<Rightarrow> bool" where
  "gsends Q P C w w' \<longleftrightarrow> adds Q (gw_posts w) (gw_posts w') \<and> adds P (gw_sent w) (gw_sent w') \<and>
     adds C (gw_chains w) (gw_chains w')"

lemma gsends_refl [simp]: "gsends Q P C w w"
  by (simp add: gsends_def)

lemma gsends_trans: "gsends Q P C w w1 \<Longrightarrow> gsends Q P C w1 w2 \<Longrightarrow> gsends Q P C w w2"
  unfolding gsends_def by (elim conjE, intro conjI) (erule (1) adds_trans)+

lemma transp_gsends: "transp (gsends Q P C)"
  by (intro transpI) (rule gsends_trans)

lemma reflp_gsends: "reflp (gsends Q P C)"
  by (intro reflpI) simp

text \<open>The hops of a request: those of the form posted to the token endpoint, or those of a request with a token.\<close>

definition graph_chain :: "graph_env \<Rightarrow> graph_client \<Rightarrow> string option \<Rightarrow> string \<times> hop list \<Rightarrow> bool" where
  "graph_chain E c token x \<longleftrightarrow>
     (\<exists>t. x = (token_url c, hops_by default_policy (ge_hops E) t (token_url c) (Some (token_form c)) None)) \<or>
     (\<exists>t url. x = (url, hops_by default_policy (ge_hops E) t url None token))"

lemma graph_chain_hop:
  assumes "graph_chain E c token (u, hops)" and "redirect_laws (ge_hops E)" and "i < length hops"
  shows "(hp_form (hops ! i) \<noteq> None \<longrightarrow> u = token_url c \<and> hp_form (hops ! i) = Some (token_form c) \<and>
       (\<forall>j \<le> i. hp_status (hops ! j) \<in> {307, 308})) \<and>
     (hp_token (hops ! i) \<noteq> None \<longrightarrow> hp_token (hops ! i) = token \<and> hp_same_host (hops ! i))"
proof -
  obtain t form k where h: "hops = hops_by default_policy (ge_hops E) t u form k" "form \<noteq> None \<longrightarrow> u = token_url c"
      "form = None \<or> form = Some (token_form c)" "k = None \<or> k = token"
    using assms(1) unfolding graph_chain_def by blast
  note nth = hops_by_nth [OF assms(2) assms(3) [unfolded h(1)], folded h(1)]
  from nth(1) nth(2) h(2-4) show ?thesis by metis
qed

lemma access_sends: "keeps (gsends (\<lambda>p. p = (token_url c, token_form c)) P (graph_chain E c token)) (access_token E c)"
proof -
  let ?K = "\<lambda>m. keeps (gsends (\<lambda>p. p = (token_url c, token_form c)) P (graph_chain E c token)) m"
  have a: "?K (graph_cached E)"
    by (auto simp: keeps_def graph_cached_def io_ret_def io_run_def gsends_def split: outcome_splits)
  have b: "?K (fetch_token E c)"
    by (auto simp: keeps_def fetch_token_def gsends_def graph_chain_def)
  have d: "?K (graph_store E resp)" for resp
    by (auto simp: keeps_def graph_store_def io_ret_def gsends_def split: run.splits)
  show ?thesis unfolding access_token_def
    by (intro keeps_bind transp_gsends a b d keeps_ret reflp_gsends | split option.split | intro conjI allI impI)+
qed

lemma graph_pages_sent:
  "graph_pages E token url acc w = Some y \<Longrightarrow>
     (\<forall>r w'. y = Returns (r, w') \<longrightarrow> gsends Q (\<lambda>(_, t). t = Some token) (graph_chain E c (Some token)) w w')"
proof (induction rule: graph_pages.raw_induct [rotated, consumes 1])
  case (1 gp E token url acc w y)
  show ?case
  proof (intro allI impI)
    fix r w' assume y: "y = Returns (r, w')"
    have one: "gsends Q (\<lambda>(_, t). t = Some token) (graph_chain E c (Some token)) w (gsend E url (Some token) w)"
      by (auto simp: gsends_def gsend_def graph_chain_def)
    consider "w' = gsend E url (Some token) w"
      | np acc' where "gp E token np acc' (gsend E url (Some token) w) = Some y"
      using 1(2) y by (auto simp: Let_def split: sum.splits option.splits)
    then show "gsends Q (\<lambda>(_, t). t = Some token) (graph_chain E c (Some token)) w w'"
    proof cases
      case 2
      from 1(1) [OF 2] y one show ?thesis using gsends_trans by blast
    qed (use one in simp)
  qed
qed

definition link_loop :: "graph_env \<Rightarrow> string set \<Rightarrow> bool" where
  "link_loop E urls \<longleftrightarrow> (\<forall>url \<in> urls. \<forall>t. \<exists>retry page next.
     ge_delta E t url = DeltaAnswer 200 retry (Inr page) \<and> dp_next_link page = Some next \<and> next \<in> urls)"

lemma graph_pages_loop:
  "graph_pages E token url acc w = Some y \<Longrightarrow> \<not> (link_loop E urls \<and> url \<in> urls)"
proof (induction rule: graph_pages.raw_induct [rotated, consumes 1])
  case (1 gp E token url acc w y)
  show ?case
  proof
    assume l: "link_loop E urls \<and> url \<in> urls"
    then obtain retry page np where "ge_delta E (gw_tick w) url = DeltaAnswer 200 retry (Inr page)"
      "dp_next_link page = Some np" "np \<in> urls" unfolding link_loop_def by blast
    then show False using 1 l by (simp add: page_of_200 Let_def)
  qed
qed

definition files_only :: "change_item list \<times> string list \<Rightarrow> bool" where
  "files_only acc \<longleftrightarrow> (\<forall>ch \<in> set (fst acc). \<not> ci_is_folder ch)"

lemma graph_absorb_files: "files_only acc \<Longrightarrow> files_only (graph_absorb item acc)"
  by (cases acc) (auto simp: files_only_def graph_absorb_def)

lemma fold_absorb_files: "files_only acc \<Longrightarrow> files_only (fold graph_absorb items acc)"
  by (induction items arbitrary: acc) (simp_all add: graph_absorb_files)

lemma graph_pages_files:
  "graph_pages E token url acc w = Some y \<Longrightarrow> files_only acc \<longrightarrow>
     (\<forall>acc' dl w'. y = Returns (Inr (acc', dl), w') \<longrightarrow> files_only acc')"
proof (induction rule: graph_pages.raw_induct [rotated, consumes 1])
  case (1 gp E token url acc w y)
  show ?case
  proof (intro impI allI)
    fix acc' dl w' assume f: "files_only acc" and y: "y = Returns (Inr (acc', dl), w')"
    then obtain page where p: "page_of_delta (ge_delta E (gw_tick w) url) = Inr page"
      using 1(2) by (auto simp: Let_def split: sum.splits)
    let ?acc = "fold graph_absorb (dp_value page) acc"
    have fa: "files_only ?acc" using f by (rule fold_absorb_files)
    show "files_only acc'"
    proof (cases "dp_next_link page")
      case None
      then show ?thesis using 1(2) y p fa by (auto simp: Let_def split: option.splits)
    next
      case (Some np)
      then have "gp E token np ?acc (gsend E url (Some token) w) = Some y" using 1(2) p by (simp add: Let_def)
      from 1(1) [OF this] fa y show ?thesis by blast
    qed
  qed
qed

lemma graph_list_changes_ok:
  "graph_list_changes E c cursor w = Some (Returns (Inr d, w')) \<Longrightarrow>
     dr_next_cursor d \<noteq> None \<and> (\<forall>ch \<in> set (dr_changes d). \<not> ci_is_folder ch)"
proof -
  assume "graph_list_changes E c cursor w = Some (Returns (Inr d, w'))"
  then obtain token url chs ids dl w1 w2 where
    g: "graph_pages E token url ([], []) w1 = Some (Returns (Inr ((chs, ids), dl), w2))"
    and d: "dr_next_cursor d = Some dl" "dr_changes d = chs"
    by (auto simp: graph_list_changes_def run_delta_cycle_def split: prod.splits)
  have "files_only (chs, ids)" using graph_pages_files [OF g] by (simp add: files_only_def)
  with d show ?thesis by (simp add: files_only_def)
qed

interpretation graph: source_connector "\<lambda>_. True" "\<lambda>(E, c). graph_connector E c"
  by unfold_locales (auto simp: graph_connector_def dest: graph_list_changes_ok split: prod.splits)

section \<open>Properties\<close>

definition start_url :: "graph_client \<Rightarrow> string option \<Rightarrow> string" where
  "start_url c cursor = (case cursor of Some url \<Rightarrow> url
     | None \<Rightarrow> ''https://graph.microsoft.com/v1.0/drives/'' @ gc_drive_id c @ ''/root/delta'')"

text \<open>
  The margin of a cached token: 60 seconds when stored and 60 when checked, so a token is served until
  120 seconds before its expiry.
\<close>

lemma graph_token_margin:
  assumes "graph_store E resp w = Some (Returns (Inr (), w1))"
    and "ge_now E (gw_tick w1) + nanos 60 < ge_instant_end E" and "ge_now E (gw_tick w) \<le> ge_now E (gw_tick w1)"
  shows "graph_cached E w1 = io_ret
     (if ge_now E (gw_tick w1) + nanos 120 < ge_now E (gw_tick w) + nanos (gr_expires_in resp)
      then Some (gr_access_token resp) else None) (w1\<lparr>gw_tick := gw_tick w1 + 1\<rparr>)"
proof -
  have w1: "gw_token w1 = Some \<lparr>gt_value = gr_access_token resp,
      gt_expires_at = ge_now E (gw_tick w) + nanos (gr_expires_in resp - 60)\<rparr>"
    using assms(1) by (auto simp: graph_store_def instant_plus_def split: run.splits if_splits)
  have "ge_now E (gw_tick w1) + nanos 60 < ge_now E (gw_tick w) + nanos (gr_expires_in resp - 60) \<longleftrightarrow>
      ge_now E (gw_tick w1) + nanos 120 < ge_now E (gw_tick w) + nanos (gr_expires_in resp)"
    using assms(3) by (auto simp: nanos_def)
  with w1 assms(2) show ?thesis
    by (simp add: graph_cached_def instant_plus_def io_run_def io_ret_def)
qed

text \<open>
  C23. A delta cycle is complete: on a server whose pages from the cursor (or the drive's root) end in a
  delta link, one call of \<open>list_changes\<close> follows every next link and returns, in the order of the pages,
  the change of every file and every deletion and nothing else, with the delta link of the last page as
  the next cursor and \<open>more\<close> false.
\<close>

theorem graph_cycle_complete:
  assumes "serves_chain E (start_url c cursor) chain"
    and "access_token E c w = Some (Returns (Inr token, w1))"
  shows "\<exists>w'. graph_list_changes E c cursor w = Some (Returns (Inr
     \<lparr>dr_next_cursor = Some (snd (last chain)),
      dr_changes = List.map_filter change_of_raw (concat (map (\<lambda>pl. dp_value (fst pl)) chain)),
      dr_more = False\<rparr>, w'))"
proof -
  let ?items = "concat (map (\<lambda>pl. dp_value (fst pl)) chain)"
  obtain w' where "graph_pages E token (start_url c cursor) ([], []) w1 =
      Some (Returns (Inr (fold graph_absorb ?items ([], []), snd (last chain)), w'))"
    using graph_pages_chain [OF assms(1)] by blast
  moreover have "fold graph_absorb ?items ([], []) =
      (List.map_filter change_of_raw ?items, deleted_of (List.map_filter change_of_raw ?items))"
    using graph_absorb_eq [of "[]" "[]" ?items] by (simp add: deleted_of_def)
  moreover have "run_delta_cycle E c cursor w = graph_pages E token (start_url c cursor) ([], []) w1"
    by (simp add: run_delta_cycle_def start_url_def io_bind_def assms(2) split: option.splits)
  ultimately have "run_delta_cycle E c cursor w = Some (Returns (Inr ((List.map_filter change_of_raw ?items,
      deleted_of (List.map_filter change_of_raw ?items)), snd (last chain)), w'))" by simp
  then show ?thesis by (simp add: graph_list_changes_def io_bind_Some)
qed

text \<open>
  Which requests carry the secrets: in one call of \<open>list_changes\<close> the code posts the client secret to
  the tenant's token endpoint only, and all its requests carry the same bearer token, whatever URLs the
  server's next links name; a download posts nothing and its request carries no token. The hops
  of these requests are those of \<open>graph_chain\<close>: by \<open>graph_chain_hop\<close> the secret is posted again
  to wherever 307 and 308 redirects of the token endpoint lead, and the token is sent again within the same host only.
\<close>

theorem graph_requests:
  "(\<forall>r w'. graph_list_changes E c cursor w = Some (Returns (r, w')) \<longrightarrow>
      (\<exists>token. gsends (\<lambda>p. p = (token_url c, token_form c)) (\<lambda>(_, t). t = Some token) (graph_chain E c (Some token)) w w')) \<and>
   (\<forall>r w'. graph_download E item w = Some (Returns (r, w')) \<longrightarrow>
      gsends (\<lambda>_. False) (\<lambda>(_, t). t = None) (graph_chain E c None) w w')"
proof (intro conjI allI impI)
  fix r w' assume l: "graph_list_changes E c cursor w = Some (Returns (r, w'))"
  then obtain r1 w1 where a: "access_token E c w = Some (Returns (r1, w1))"
    by (auto simp: graph_list_changes_def run_delta_cycle_def io_bind_def split: outcome_splits)
  then have s: "gsends (\<lambda>p. p = (token_url c, token_form c)) P (graph_chain E c k) w w1" for P k
    using access_sends unfolding keeps_def by blast
  show "\<exists>token. gsends (\<lambda>p. p = (token_url c, token_form c)) (\<lambda>(_, t). t = Some token) (graph_chain E c (Some token)) w w'"
  proof (cases r1)
    case (Inl e)
    with l a have "w' = w1" by (auto simp: graph_list_changes_def run_delta_cycle_def io_bind_def)
    with s show ?thesis by blast
  next
    case (Inr token)
    then obtain y w2 where g: "graph_pages E token (start_url c cursor) ([], []) w1 = Some (Returns (y, w2))" "w' = w2"
      using l a by (auto simp: graph_list_changes_def run_delta_cycle_def io_defs start_url_def
          split: outcome_splits sum.splits prod.splits)
    with graph_pages_sent [OF g(1)] s show ?thesis using gsends_trans by blast
  qed
next
  fix r w' assume "graph_download E item w = Some (Returns (r, w'))"
  then show "gsends (\<lambda>_. False) (\<lambda>(_, t). t = None) (graph_chain E c None) w w'"
    by (auto simp: graph_download_def graph_get_def gsend_def gsends_def graph_chain_def io_err_def split: option.splits)
qed

text \<open>
  Next links that lead back among themselves are followed for ever: a call of \<open>list_changes\<close> that
  starts at one of them never returns.
\<close>

theorem graph_links_can_diverge:
  assumes "link_loop E urls" and "start_url c cursor \<in> urls"
    and "access_token E c w = Some (Returns (Inr token, w1))"
  shows "graph_list_changes E c cursor w = None"
proof -
  have "graph_pages E token (start_url c cursor) ([], []) w1 = None"
    using graph_pages_loop [of E token "start_url c cursor" "([], [])" w1] assms(1,2)
    by (cases "graph_pages E token (start_url c cursor) ([], []) w1") auto
  then show ?thesis
    by (simp add: graph_list_changes_def run_delta_cycle_def io_bind_def assms(3) start_url_def
        split: option.splits)
qed

section \<open>A concrete server\<close>

definition toy_raw :: "string \<Rightarrow> json option \<Rightarrow> json option \<Rightarrow> raw_item" where
  "toy_raw i f d = \<lparr>ri_id = i, ri_name = Some i, ri_file = f, ri_deleted = d, ri_download_url = Some ''https://cdn''\<rparr>"

text \<open>Two pages: a file and a folder, then a deletion; and a page that links to itself.\<close>

definition toy_graph :: graph_env where
  "toy_graph = \<lparr>ge_now = (\<lambda>_. 0), ge_instant_end = nanos 1000000,
     ge_token = (\<lambda>_ _ _. TokenAnswer 200 [] (Inr \<lparr>gr_access_token = ''tok'', gr_expires_in = 3600\<rparr>)),
     ge_delta = (\<lambda>_ u. DeltaAnswer 200 None (Inr (
       if u = ''loop'' then \<lparr>dp_value = [], dp_next_link = Some ''loop'', dp_delta_link = None\<rparr>
       else if u = ''p2'' then \<lparr>dp_value = [toy_raw ''b'' None (Some JNull)], dp_next_link = None, dp_delta_link = Some ''d''\<rparr>
       else \<lparr>dp_value = [toy_raw ''a'' (Some JNull) None, toy_raw ''f'' None None],
             dp_next_link = Some ''p2'', dp_delta_link = None\<rparr>))),
     ge_file = (\<lambda>_ _. FileAnswer 200 (Inr [7])), ge_hops = (\<lambda>_ _ _ _. [])\<rparr>"

definition toy_drive :: graph_client where
  "toy_drive = \<lparr>gc_drive_id = ''D'', gc_tenant_id = ''T'', gc_client_id = ''I'', gc_client_secret = ''S''\<rparr>"

definition graph_start :: graph_world where
  "graph_start = \<lparr>gw_tick = 0, gw_token = None, gw_posts = [], gw_sent = [], gw_chains = []\<rparr>"

lemma toy_access: "access_token toy_graph toy_drive graph_start = Some (Returns (Inr ''tok'',
    \<lparr>gw_tick = 2, gw_token = Some \<lparr>gt_value = ''tok'', gt_expires_at = nanos 3540\<rparr>,
     gw_posts = [(token_url toy_drive, token_form toy_drive)], gw_sent = [], gw_chains = [(token_url toy_drive, [])]\<rparr>))"
  by (simp add: access_token_def graph_cached_def fetch_token_def graph_store_def token_of_reply_def
      toy_graph_def graph_start_def io_defs is_error_status_def instant_plus_def hops_by_def)

lemma toy_chain: "serves_chain toy_graph (start_url toy_drive None)
    [(\<lparr>dp_value = [toy_raw ''a'' (Some JNull) None, toy_raw ''f'' None None],
       dp_next_link = Some ''p2'', dp_delta_link = None\<rparr>, ''p2''),
     (\<lparr>dp_value = [toy_raw ''b'' None (Some JNull)], dp_next_link = None, dp_delta_link = Some ''d''\<rparr>, ''d'')]"
  by (simp add: toy_graph_def start_url_def)

theorem graph_cycle_complete_witness:
  "\<exists>chs w'. graph_list_changes toy_graph toy_drive None graph_start = Some (Returns (Inr
     \<lparr>dr_next_cursor = Some ''d'', dr_changes = chs, dr_more = False\<rparr>, w')) \<and>
     map (\<lambda>ch. (ci_remote_id ch, ci_deleted ch)) chs = [(''a'', False), (''b'', True)]"
  using graph_cycle_complete [OF toy_chain toy_access]
  by (auto simp: map_filter_simps change_of_raw_def toy_raw_def)

theorem graph_links_can_diverge_witness:
  "graph_list_changes toy_graph toy_drive (Some ''loop'') graph_start = None"
  by (rule graph_links_can_diverge [where urls = "{''loop''}", OF _ _ toy_access])
    (auto simp: link_loop_def toy_graph_def start_url_def)

end
