(* ===== verification/Zoho_Token.thy ===== *)
theory Zoho_Token
  imports Connector
begin

text \<open>
  The OAuth token cache of the Zoho connector, \<open>ingestion/src/connector/zoho.rs\<close> (lines 29-255):
  classification of OAuth errors, the refresh call, and \<open>refresh_if_needed\<close> in two forms: as one call
  running alone (\<open>refresh_if_needed\<close>, an operation on \<open>zoho_world\<close>), and as the step relation \<open>tstep\<close>
  of any number of concurrent calls around the \<open>refresh_gate\<close> mutex.

  Instants are natural numbers of nanoseconds below \<open>ze_instant_end\<close>, beyond which \<open>Instant + Duration\<close>
  panics. \<open>ze_now\<close> is the clock and \<open>ze_oauth\<close> the answer at each tick to a form posted to a URL.
\<close>

section \<open>Constants and data\<close>

definition INLINE_THRESHOLD_BYTES :: nat where "INLINE_THRESHOLD_BYTES = 8 * 1024 * 1024"

definition MAX_REDIRECTS :: nat where "MAX_REDIRECTS = 5"

definition ACCESS_TOKEN_TTL_SAFETY_SECS :: nat where "ACCESS_TOKEN_TTL_SAFETY_SECS = 300"

definition WATERMARK_OVERLAP_MS :: int where "WATERMARK_OVERLAP_MS = 60000"

record zoho_credentials =
  zc_client_id :: string
  zc_client_secret :: string
  zc_refresh_token :: string
  zc_dc :: string

text \<open>The manual \<open>Debug\<close>: the fields it prints, with their values.\<close>

definition debug_credentials :: "zoho_credentials \<Rightarrow> (string \<times> string) list" where
  "debug_credentials c = [(''client_id'', zc_client_id c), (''client_secret'', ''<redacted>''),
     (''refresh_token'', ''<redacted>''), (''dc'', zc_dc c)]"

record cached_token =
  ct_access_token :: string
  ct_expires_at :: nat

text \<open>\<open>show_instant\<close> is the standard library's \<open>Debug\<close> of an \<open>Instant\<close>, whose form the platform decides.\<close>

definition debug_cached_token :: "(nat \<Rightarrow> string) \<Rightarrow> cached_token \<Rightarrow> (string \<times> string) list" where
  "debug_cached_token show_instant t =
     [(''access_token'', ''<redacted>''), (''expires_at'', show_instant (ct_expires_at t))]"

text \<open>
  \<open>ZohoTokenCache\<close>: what never changes of it; the token and the gate are state. What matters of its HTTP client
  is the redirect policy.
\<close>

record token_cache =
  tk_creds :: zoho_credentials
  tk_http :: redirect_policy
  tk_accounts_base :: string

definition token_cache_new :: "zoho_credentials \<Rightarrow> redirect_policy \<Rightarrow> token_cache" where
  "token_cache_new creds http =
     \<lparr>tk_creds = creds, tk_http = http, tk_accounts_base = ''https://accounts.zoho.'' @ zc_dc creds\<rparr>"

record token_response =
  to_access_token :: "string option"
  to_expires_in :: "nat option"
  to_error :: "string option"

text \<open>
  The answer to the POST, after the redirects that were followed: the request fails, or a status and a body
  that may not be the JSON shape.
\<close>

datatype oauth_answer = SendFails string | Answer nat "token_response option"

record token_env =
  ze_now :: "nat \<Rightarrow> nat"
  ze_instant_end :: nat
  ze_oauth :: "nat \<Rightarrow> string \<Rightarrow> form \<Rightarrow> oauth_answer"
  ze_hops :: redirector

text \<open>
  The world of a client: the tick, the cache, the forms posted, and the requests sent with their
  token, if any; and for each request the hops that the HTTP client made on redirects.
\<close>

record zoho_world =
  zw_tick :: nat
  zw_cache :: "cached_token option"
  zw_posts :: "(string \<times> form) list"
  zw_sent :: "(string \<times> string option) list"
  zw_chains :: "(string \<times> hop list) list"

section \<open>Refreshing\<close>

definition classify_oauth_error :: "string \<Rightarrow> auth_error_kind" where
  "classify_oauth_error code =
     (if code = ''invalid_code'' then InvalidCode
      else if code = ''access_denied'' then AccessDenied
      else if code = ''invalid_client'' \<or> code = ''invalid_client_secret'' then InvalidClient
      else Unexpected)"

definition instant_add :: "'e token_env_scheme \<Rightarrow> nat \<Rightarrow> nat \<Rightarrow> nat run" where
  "instant_add E t secs = (if t + nanos secs < ze_instant_end E then Returns (t + nanos secs) else Panics)"

text \<open>The freshness test of both checks, on a reading of the clock.\<close>

definition is_fresh :: "'e token_env_scheme \<Rightarrow> nat \<Rightarrow> cached_token \<Rightarrow> bool run" where
  "is_fresh E now t =
     run_map (\<lambda>limit. limit < ct_expires_at t) (instant_add E now ACCESS_TOKEN_TTL_SAFETY_SECS)"

definition cached_fresh :: "'e token_env_scheme \<Rightarrow> nat \<Rightarrow> cached_token option \<Rightarrow> string option run" where
  "cached_fresh E now c =
     (case c of None \<Rightarrow> Returns None
      | Some t \<Rightarrow> run_map (\<lambda>f. if f then Some (ct_access_token t) else None) (is_fresh E now t))"

text \<open>What the answer of the token endpoint becomes, with the clock read after it.\<close>

definition token_of_answer :: "'e token_env_scheme \<Rightarrow> nat \<Rightarrow> oauth_answer \<Rightarrow> (connector_error + cached_token) run" where
  "token_of_answer E now a =
     (case a of
        SendFails e \<Rightarrow> Returns (Inl (OtherErr (''OAuth token request failed: '' @ e)))
      | Answer status body \<Rightarrow>
          (case body of None \<Rightarrow> Returns (Inl (Auth Unexpected))
           | Some b \<Rightarrow>
               (case to_error b of Some code \<Rightarrow> Returns (Inl (Auth (classify_oauth_error code)))
                | None \<Rightarrow>
                    if \<not> is_success status then Returns (Inl (Auth Unexpected))
                    else (case to_access_token b of
                        None \<Rightarrow> Returns (Inl (OtherErr ''OAuth response missing access_token''))
                      | Some tok \<Rightarrow>
                          run_map (\<lambda>at. Inr \<lparr>ct_access_token = tok, ct_expires_at = at\<rparr>)
                            (instant_add E now
                               (unwrap_or 3600 (to_expires_in b) - ACCESS_TOKEN_TTL_SAFETY_SECS))))))"

definition oauth_url :: "token_cache \<Rightarrow> string" where
  "oauth_url T = tk_accounts_base T @ ''/oauth/v2/token''"

definition oauth_form :: "token_cache \<Rightarrow> form" where
  "oauth_form T =
     [(''grant_type'', ''refresh_token''), (''client_id'', zc_client_id (tk_creds T)),
      (''client_secret'', zc_client_secret (tk_creds T)), (''refresh_token'', zc_refresh_token (tk_creds T))]"

definition call_oauth_refresh :: "'e token_env_scheme \<Rightarrow> token_cache \<Rightarrow> (zoho_world, cached_token) io" where
  "call_oauth_refresh E T w =
     (case token_of_answer E (ze_now E (zw_tick w + 1)) (ze_oauth E (zw_tick w) (oauth_url T) (oauth_form T)) of
        Panics \<Rightarrow> Some Panics
      | Returns r \<Rightarrow> Some (Returns (r, w\<lparr>zw_tick := zw_tick w + 2,
          zw_posts := zw_posts w @ [(oauth_url T, oauth_form T)],
          zw_chains := zw_chains w @ [(oauth_url T,
            hops_by (tk_http T) (ze_hops E) (zw_tick w) (oauth_url T) (Some (oauth_form T)) None)]\<rparr>)))"

text \<open>A check of the cache reads the clock only when there is a token.\<close>

definition check_cache :: "'e token_env_scheme \<Rightarrow> (zoho_world, string option) io" where
  "check_cache E w =
     (case cached_fresh E (ze_now E (zw_tick w)) (zw_cache w) of
        Panics \<Rightarrow> Some Panics
      | Returns t \<Rightarrow> Some (Returns (Inr t, w\<lparr>zw_tick := zw_tick w + 1\<rparr>)))"

definition store_token :: "cached_token \<Rightarrow> (zoho_world, unit) io" where
  "store_token t w = Some (Returns (Inr (), w\<lparr>zw_cache := Some t\<rparr>))"

definition refresh_if_needed :: "'e token_env_scheme \<Rightarrow> token_cache \<Rightarrow> (zoho_world, string) io" where
  "refresh_if_needed E T =
     io_bind (check_cache E) (\<lambda>t\<^sub>1. case t\<^sub>1 of Some t \<Rightarrow> io_ret t | None \<Rightarrow>
     io_bind (check_cache E) (\<lambda>t\<^sub>2. case t\<^sub>2 of Some t \<Rightarrow> io_ret t | None \<Rightarrow>
     io_bind (call_oauth_refresh E T) (\<lambda>new.
     io_bind (store_token new) (\<lambda>_. io_ret (ct_access_token new)))))"

section \<open>Concurrent calls\<close>

text \<open>
  A call: at its lock-free check, waiting for the gate, holding it before the second check, in the
  request, returned, or unwound by a panic. The gate is released when the guard is dropped, on every
  way out. \<open>ts_calls\<close> counts the requests.
\<close>

datatype tphase = Entry | Queued | Locked | Calling | Ended "connector_error + string" | Crashed

record tsys =
  ts_now :: nat
  ts_cache :: "cached_token option"
  ts_gate :: "nat option"
  ts_phase :: "nat \<Rightarrow> tphase"
  ts_calls :: nat

definition set_phase :: "nat \<Rightarrow> tphase \<Rightarrow> tsys \<Rightarrow> tsys" where
  "set_phase i p s = s\<lparr>ts_phase := (ts_phase s)(i := p)\<rparr>"

inductive tstep :: "'e token_env_scheme \<Rightarrow> tsys \<Rightarrow> tsys \<Rightarrow> bool" for E where
  clock: "ts_now s \<le> now \<Longrightarrow> tstep E s (s\<lparr>ts_now := now\<rparr>)"
| fast_hit: "ts_phase s i = Entry \<Longrightarrow> cached_fresh E (ts_now s) (ts_cache s) = Returns (Some t) \<Longrightarrow>
     tstep E s (set_phase i (Ended (Inr t)) s)"
| fast_miss: "ts_phase s i = Entry \<Longrightarrow> cached_fresh E (ts_now s) (ts_cache s) = Returns None \<Longrightarrow>
     tstep E s (set_phase i Queued s)"
| fast_panic: "ts_phase s i = Entry \<Longrightarrow> cached_fresh E (ts_now s) (ts_cache s) = Panics \<Longrightarrow>
     tstep E s (set_phase i Crashed s)"
| acquire: "ts_phase s i = Queued \<Longrightarrow> ts_gate s = None \<Longrightarrow>
     tstep E s (set_phase i Locked (s\<lparr>ts_gate := Some i\<rparr>))"
| recheck_hit: "ts_phase s i = Locked \<Longrightarrow> cached_fresh E (ts_now s) (ts_cache s) = Returns (Some t) \<Longrightarrow>
     tstep E s (set_phase i (Ended (Inr t)) (s\<lparr>ts_gate := None\<rparr>))"
| recheck_miss: "ts_phase s i = Locked \<Longrightarrow> cached_fresh E (ts_now s) (ts_cache s) = Returns None \<Longrightarrow>
     tstep E s (set_phase i Calling (s\<lparr>ts_calls := Suc (ts_calls s)\<rparr>))"
| recheck_panic: "ts_phase s i = Locked \<Longrightarrow> cached_fresh E (ts_now s) (ts_cache s) = Panics \<Longrightarrow>
     tstep E s (set_phase i Crashed (s\<lparr>ts_gate := None\<rparr>))"
| answered: "ts_phase s i = Calling \<Longrightarrow> token_of_answer E (ts_now s) a = Returns (Inr tok) \<Longrightarrow>
     tstep E s (set_phase i (Ended (Inr (ct_access_token tok))) (s\<lparr>ts_cache := Some tok, ts_gate := None\<rparr>))"
| refused: "ts_phase s i = Calling \<Longrightarrow> token_of_answer E (ts_now s) a = Returns (Inl e) \<Longrightarrow>
     tstep E s (set_phase i (Ended (Inl e)) (s\<lparr>ts_gate := None\<rparr>))"
| answer_panic: "ts_phase s i = Calling \<Longrightarrow> token_of_answer E (ts_now s) a = Panics \<Longrightarrow>
     tstep E s (set_phase i Crashed (s\<lparr>ts_gate := None\<rparr>))"

definition inside :: "tphase \<Rightarrow> bool" where
  "inside p \<longleftrightarrow> p = Locked \<or> p = Calling"

lemma inside_simps [simp]:
  "inside Locked" "inside Calling" "\<not> inside Entry" "\<not> inside Queued" "\<not> inside (Ended r)" "\<not> inside Crashed"
  by (simp_all add: inside_def)

lemma set_phase_simps [simp]:
  "ts_phase (set_phase i p s) = (ts_phase s)(i := p)" "ts_gate (set_phase i p s) = ts_gate s"
  "ts_cache (set_phase i p s) = ts_cache s" "ts_now (set_phase i p s) = ts_now s"
  "ts_calls (set_phase i p s) = ts_calls s"
  by (simp_all add: set_phase_def)

text \<open>The gate's holder is the only call inside.\<close>

definition gate_inv :: "tsys \<Rightarrow> bool" where
  "gate_inv s \<longleftrightarrow> (\<forall>i. inside (ts_phase s i) \<longrightarrow> ts_gate s = Some i)"

lemma gate_inv_step: "tstep E s s' \<Longrightarrow> gate_inv s \<Longrightarrow> gate_inv s'"
  by (erule tstep.cases;
      auto simp: gate_inv_def split: if_splits;
      metis inside_simps(1,2) option.inject)

lemma gate_inv_reach: "(tstep E)\<^sup>*\<^sup>* s s' \<Longrightarrow> gate_inv s \<Longrightarrow> gate_inv s'"
  by (induction rule: rtranclp_induct) (auto intro: gate_inv_step)

section \<open>Freshness: proofs\<close>

lemma instant_add_Returns [simp]:
  "instant_add E t secs = Returns u \<longleftrightarrow> t + nanos secs < ze_instant_end E \<and> u = t + nanos secs"
  by (auto simp: instant_add_def)

lemma cached_fresh_Some:
  "cached_fresh E now c = Returns (Some t) \<longleftrightarrow>
     (\<exists>k. c = Some k \<and> now + nanos 300 < ze_instant_end E \<and> now + nanos 300 < ct_expires_at k \<and>
        t = ct_access_token k)"
  by (auto simp: cached_fresh_def is_fresh_def ACCESS_TOKEN_TTL_SAFETY_SECS_def split: option.splits if_splits)

lemma cached_fresh_None:
  "cached_fresh E now (Some k) = Returns None \<Longrightarrow> \<not> now + nanos 300 < ct_expires_at k"
  by (auto simp: cached_fresh_def is_fresh_def ACCESS_TOKEN_TTL_SAFETY_SECS_def split: if_splits)

lemma token_of_answer_Inr:
  "token_of_answer E now a = Returns (Inr tok) \<longleftrightarrow>
     (\<exists>status b. a = Answer status (Some b) \<and> to_error b = None \<and> is_success status \<and>
        to_access_token b = Some (ct_access_token tok) \<and>
        ct_expires_at tok = now + nanos (unwrap_or 3600 (to_expires_in b) - 300) \<and>
        ct_expires_at tok < ze_instant_end E)"
  by (cases tok)
    (auto simp: token_of_answer_def ACCESS_TOKEN_TTL_SAFETY_SECS_def split: oauth_answer.splits option.splits)

text \<open>A refresh depends on the clock, the token endpoint and the redirects only.\<close>

lemma refresh_cong:
  assumes "ze_now E' = ze_now E" and "ze_instant_end E' = ze_instant_end E" and "ze_oauth E' = ze_oauth E"
    and "ze_hops E' = ze_hops E"
  shows "refresh_if_needed E' T = refresh_if_needed E T"
proof -
  have add: "instant_add E' = instant_add E" by (simp add: fun_eq_iff instant_add_def assms)
  then have "is_fresh E' = is_fresh E" by (simp add: fun_eq_iff is_fresh_def)
  with assms have "check_cache E' = check_cache E"
    by (intro ext) (simp add: check_cache_def cached_fresh_def split: option.split)
  moreover have "token_of_answer E' = token_of_answer E" by (intro ext) (simp only: token_of_answer_def add)
  with assms have "call_oauth_refresh E' T = call_oauth_refresh E T"
    by (intro ext) (simp add: call_oauth_refresh_def split: run.split)
  ultimately show ?thesis by (simp only: refresh_if_needed_def)
qed

text \<open>While the cached token stays fresh and no call is inside, no call leaves the process.\<close>

definition calm :: "cached_token \<Rightarrow> nat \<Rightarrow> nat \<Rightarrow> tsys \<Rightarrow> bool" where
  "calm k n end s \<longleftrightarrow> ts_cache s = Some k \<and> ts_calls s = n \<and> (\<forall>i. ts_phase s i \<noteq> Calling) \<and> ts_now s \<le> end"

lemma calm_step:
  assumes "tstep E s s'" and "calm k n end s" and "end + nanos 300 < ct_expires_at k" and "ts_now s' \<le> end"
  shows "calm k n end s'"
  using assms
proof (cases rule: tstep.cases)
  case (recheck_miss i)
  then have "\<not> ts_now s + nanos 300 < ct_expires_at k"
    using assms(2) cached_fresh_None by (auto simp: calm_def)
  with assms(2,3) show ?thesis by (simp add: calm_def)
qed (auto simp: calm_def)

lemma now_mono: "(tstep E)\<^sup>*\<^sup>* s s' \<Longrightarrow> ts_now s \<le> ts_now s'"
proof (induction rule: rtranclp_induct)
  case (step s' s'')
  from step(2) have "ts_now s' \<le> ts_now s''" by cases auto
  with step(3) show ?case by simp
qed simp

lemma calm_reach:
  assumes "(tstep E)\<^sup>*\<^sup>* s s'" and "ts_now s' + nanos 300 < ct_expires_at k"
    and "ts_cache s = Some k" and "\<forall>i. ts_phase s i \<noteq> Calling"
  shows "ts_calls s' = ts_calls s"
proof -
  have "calm k (ts_calls s) (ts_now s') s'" using assms
  proof (induction rule: rtranclp_induct)
    case base
    then show ?case by (simp add: calm_def)
  next
    case (step u v)
    have le: "ts_now u \<le> ts_now v" using now_mono step(2) by blast
    with step have "calm k (ts_calls s) (ts_now u) u" by simp
    with le have "calm k (ts_calls s) (ts_now v) u" by (simp add: calm_def)
    with calm_step [OF step(2) this step(4)] show ?case by simp
  qed
  then show ?thesis by (simp add: calm_def)
qed

section \<open>Properties\<close>

text \<open>
  C24. Single flight: in any interleaving of calls, at most one is past the gate, so at most one refresh
  request is in the air; and while a token stays fresh, once no request is in the air no call makes one.
\<close>

theorem single_flight:
  assumes "(tstep E)\<^sup>*\<^sup>* s s'" and "\<forall>i. \<not> inside (ts_phase s i)"
  shows "(inside (ts_phase s' i) \<and> inside (ts_phase s' j) \<longrightarrow> i = j) \<and>
     (\<forall>k. ts_cache s = Some k \<longrightarrow> ts_now s' + nanos ACCESS_TOKEN_TTL_SAFETY_SECS < ct_expires_at k \<longrightarrow>
        ts_calls s' = ts_calls s)"
proof -
  have "gate_inv s" using assms(2) by (simp add: gate_inv_def)
  from gate_inv_reach [OF assms(1) this]
  have "ts_gate s' = Some k" if "inside (ts_phase s' k)" for k using that by (simp add: gate_inv_def)
  from this [of i] this [of j] have "inside (ts_phase s' i) \<and> inside (ts_phase s' j) \<longrightarrow> i = j" by auto
  moreover have "\<forall>i. ts_phase s i \<noteq> Calling" using assms(2) by (auto simp: inside_def)
  ultimately show ?thesis
    using calm_reach [OF assms(1)] by (simp add: ACCESS_TOKEN_TTL_SAFETY_SECS_def)
qed

text \<open>
  C40. How long a token is served: a token the endpoint granted for \<open>L\<close> seconds is answered from the
  cache until exactly 600 seconds before its expiry, because the safety margin of 300 seconds is
  subtracted when it is stored and again when it is checked; a token of 600 seconds or less is never
  served from the cache.
\<close>

theorem token_served_until:
  assumes "token_of_answer E now (Answer status (Some b)) = Returns (Inr tok)"
    and "now \<le> now'" and "now' + nanos ACCESS_TOKEN_TTL_SAFETY_SECS < ze_instant_end E"
  shows "cached_fresh E now' (Some tok) = Returns
     (if now' + nanos (2 * ACCESS_TOKEN_TTL_SAFETY_SECS) < now + nanos (unwrap_or 3600 (to_expires_in b))
      then to_access_token b else None)"
proof -
  have at: "ct_expires_at tok = now + nanos (unwrap_or 3600 (to_expires_in b) - 300)"
    and tok: "to_access_token b = Some (ct_access_token tok)"
    using assms(1) by (auto simp: token_of_answer_Inr)
  have "now' + nanos 300 < ct_expires_at tok \<longleftrightarrow>
      now' + nanos 600 < now + nanos (unwrap_or 3600 (to_expires_in b))"
    using assms(2) by (auto simp: at nanos_def)
  then show ?thesis using assms(3) tok
    by (simp add: cached_fresh_def is_fresh_def instant_add_def ACCESS_TOKEN_TTL_SAFETY_SECS_def)
qed

definition toy_token_env :: token_env where
  "toy_token_env = \<lparr>ze_now = (\<lambda>_. 0), ze_instant_end = nanos 1000000,
     ze_oauth = (\<lambda>_ _ _. Answer 200 (Some \<lparr>to_access_token = Some ''tok'', to_expires_in = Some 3600, to_error = None\<rparr>)),
     ze_hops = (\<lambda>_ _ _ _. [])\<rparr>"

theorem token_served_until_witness:
  "cached_fresh toy_token_env (nanos 3001) (Some \<lparr>ct_access_token = ''tok'', ct_expires_at = nanos 3300\<rparr>) = Returns None"
  using token_served_until [of toy_token_env 0 200
      "\<lparr>to_access_token = Some ''tok'', to_expires_in = Some 3600, to_error = None\<rparr>"
      "\<lparr>ct_access_token = ''tok'', ct_expires_at = nanos 3300\<rparr>" "nanos 3001"]
  by (simp add: token_of_answer_Inr is_success_def toy_token_env_def nanos_def ACCESS_TOKEN_TTL_SAFETY_SECS_def)

theorem single_flight_witness:
  "let s = \<lparr>ts_now = 0, ts_cache = None, ts_gate = None, ts_phase = (\<lambda>_. Queued), ts_calls = 0\<rparr>;
       s' = set_phase 1 Locked (s\<lparr>ts_gate := Some 1\<rparr>) in
     (tstep toy_token_env)\<^sup>*\<^sup>* s s' \<and> inside (ts_phase s' 1) \<and> (\<forall>j. inside (ts_phase s' j) \<longrightarrow> j = 1)"
proof -
  let ?s = "\<lparr>ts_now = 0, ts_cache = None, ts_gate = None, ts_phase = (\<lambda>_::nat. Queued), ts_calls = 0\<rparr>"
  let ?s' = "set_phase 1 Locked (?s\<lparr>ts_gate := Some 1\<rparr>)"
  have r: "(tstep toy_token_env)\<^sup>*\<^sup>* ?s ?s'"
    by (rule r_into_rtranclp, rule tstep.acquire) simp_all
  have one: "inside (ts_phase ?s' 1)" by simp
  moreover have "j = 1" if "inside (ts_phase ?s' j)" for j
  proof -
    have "\<forall>i. \<not> inside (ts_phase ?s i)" by simp
    from conjunct1 [OF single_flight [OF r this, of j 1]] that one show ?thesis by blast
  qed
  ultimately show ?thesis using r unfolding Let_def by blast
qed

end
