(* ===== verification/Zoho.thy ===== *)
theory Zoho
  imports Zoho_Token
begin

text \<open>
  The Zoho WorkDrive connector, \<open>ingestion/src/connector/zoho.rs\<close> from line 257: the BFS cursor,
  \<open>list_folder_page\<close>, \<open>list_changes\<close>, the download with its redirect loop, \<open>stream_body\<close> and
  \<open>format_epoch_ms\<close>.

  The environment \<open>zoho_env\<close> extends the one of the token cache with the answers of the WorkDrive API by
  tick and URL (after the redirects that the HTTP client followed on its own), the wall clock, URL parsing (the \<open>url\<close> crate), the JSON form of the cursor (\<open>serde\<close>),
  and whether integer overflow panics (a debug build). The page loop \<open>zoho_pages\<close> runs as long as the
  server answers \<open>more_records\<close>: it is a partial function, \<open>None\<close> when it never returns.
\<close>

section \<open>The BFS cursor\<close>

record folder_cursor =
  fc_folder_id :: string
  fc_next_offset :: u32

record zoho_cursor =
  zu_watermark_ms :: int
  zu_queue :: "folder_cursor list"
  zu_visited :: "string list"
  zu_root_id :: string
  zu_run_started_ms :: int

definition bootstrap :: "int \<Rightarrow> string \<Rightarrow> zoho_cursor" where
  "bootstrap now_ms root_id =
     \<lparr>zu_watermark_ms = 0, zu_queue = [\<lparr>fc_folder_id = root_id, fc_next_offset = 0\<rparr>], zu_visited = [],
      zu_root_id = root_id, zu_run_started_ms = now_ms\<rparr>"

section \<open>API shapes\<close>

record zoho_file_item =
  zi_id :: string
  zi_name :: "string option"
  zi_kind :: "string option"
  zi_modified_time :: "int option"
  zi_status :: "string option"
  zi_permalink :: "string option"

record zoho_page_info =
  zg_more_records :: "bool option"

record folder_list_response =
  fl_data :: "zoho_file_item list option"
  fl_info :: "zoho_page_info option"

text \<open>The answers: a failed request; or a status, the header that matters and the body.\<close>

datatype list_answer =
    ListFails string
  | ListAnswer nat "string option" "string + folder_list_response"

record dl_body =
  db_content_length :: "nat option"
  db_chunks :: "(string + bytes) list"

datatype dl_answer =
    DlFails string
  | DlAnswer nat "string option option" dl_body

record url =
  url_str :: string
  url_scheme :: string
  url_host :: "string option"

record zoho_env = token_env +
  za_now_ms :: "nat \<Rightarrow> int"
  za_list :: "nat \<Rightarrow> string \<Rightarrow> list_answer"
  za_get :: "nat \<Rightarrow> string \<Rightarrow> dl_answer"
  za_parse_url :: "string \<Rightarrow> string + url"
  za_to_json :: "zoho_cursor \<Rightarrow> string + string"
  za_from_json :: "string \<Rightarrow> zoho_cursor option"
  za_file_fault :: "nat \<Rightarrow> string option"
  za_debug :: bool

section \<open>The client\<close>

record zoho_client =
  zl_id :: string
  zl_tokens :: token_cache
  zl_api_base :: string
  zl_download_client :: redirect_policy
  zl_root_id :: string

definition debug_client :: "zoho_client \<Rightarrow> (string \<times> string) list" where
  "debug_client c = [(''id'', zl_id c), (''kind'', ''zoho_workdrive''), (''api_base'', zl_api_base c),
     (''root_id'', zl_root_id c)]"

text \<open>
  \<open>build\<close> is the outcome of building the two HTTP clients: the one of the token cache, which follows redirects by
  default, and the one for downloads, built with \<open>Policy::none\<close>.
\<close>

definition zoho_new :: "(anyhow + unit) \<times> (anyhow + unit) \<Rightarrow> zoho_credentials \<Rightarrow> string \<Rightarrow> string \<Rightarrow>
    anyhow + zoho_client" where
  "zoho_new build creds connector_id root_id =
     (if zc_dc creds \<noteq> ''eu''
      then Inl (''Only 'eu' data center is supported for EU data-residency compliance; got '' @ [CHR 0x27] @
             zc_dc creds @ [CHR 0x27])
      else and_then (map_err (\<lambda>e. ''failed to build HTTP client: '' @ e) (fst build)) (\<lambda>_.
           and_then (map_err (\<lambda>e. ''failed to build download HTTP client: '' @ e) (snd build)) (\<lambda>_.
           Inr \<lparr>zl_id = connector_id, zl_tokens = token_cache_new creds default_policy,
                zl_api_base = ''https://workdrive.zoho.'' @ zc_dc creds @ ''/api/v1'',
                zl_download_client = NoRedirects,
                zl_root_id = root_id\<rparr>)))"

definition show_int :: "int \<Rightarrow> string" where
  "show_int i = (if i < 0 then CHR ''-'' # show_nat (nat (- i)) else show_nat (nat i))"

definition list_url :: "zoho_client \<Rightarrow> string \<Rightarrow> u32 \<Rightarrow> int \<Rightarrow> string" where
  "list_url c folder_id offset from_ms =
     zl_api_base c @ ''/files/'' @ folder_id @ ''/files?offset='' @ show_nat (unat offset) @
     ''&limit=100&filter[fromDate]='' @ show_int from_ms"

definition page_of_answer :: "list_answer \<Rightarrow> connector_error + zoho_file_item list \<times> bool" where
  "page_of_answer a =
     (case a of
        ListFails e \<Rightarrow> Inl (OtherErr (''folder list request failed: '' @ e))
      | ListAnswer status retry body \<Rightarrow>
          if status = 401 \<or> status = 403 then Inl (Auth AccessDenied)
          else if status = 429 then Inl (Throttled (retry_after retry))
          else if \<not> is_success status then Inl (Http status)
          else (case body of
              Inl e \<Rightarrow> Inl (OtherErr (''failed to decode folder list: '' @ e))
            | Inr page \<Rightarrow>
                Inr (unwrap_or [] (fl_data page), unwrap_or False (Option.bind (fl_info page) zg_more_records))))"

text \<open>A request by a client with a redirect policy; the answers of the environment are those after its hops.\<close>

definition send :: "'e token_env_scheme \<Rightarrow> redirect_policy \<Rightarrow> string \<Rightarrow> string option \<Rightarrow> zoho_world \<Rightarrow> zoho_world" where
  "send E p url token w =
     w\<lparr>zw_tick := zw_tick w + 1, zw_sent := zw_sent w @ [(url, token)],
       zw_chains := zw_chains w @ [(url, hops_by p (ze_hops E) (zw_tick w) url None token)]\<rparr>"

definition list_folder_page :: "'e zoho_env_scheme \<Rightarrow> zoho_client \<Rightarrow> string \<Rightarrow> u32 \<Rightarrow> int \<Rightarrow>
    (zoho_world, zoho_file_item list \<times> bool) io" where
  "list_folder_page E c folder_id offset from_ms =
     io_bind (refresh_if_needed E (zl_tokens c)) (\<lambda>token w.
       let url = list_url c folder_id offset from_ms in
       Some (Returns (page_of_answer (za_list E (zw_tick w) url), send E (tk_http (zl_tokens c)) url (Some token) w)))"

section \<open>Downloads\<close>

definition is_trusted_zoho_host :: "string \<Rightarrow> bool" where
  "is_trusted_zoho_host host \<longleftrightarrow>
     ends_with host ''.zoho.eu'' \<or> ends_with host ''.zohocdn.com'' \<or> host = ''zoho.eu''"

text \<open>The write loop of a spilled body; \<open>i\<close> numbers the file operations, the creation being 0.\<close>

fun spill_loop :: "'e zoho_env_scheme \<Rightarrow> nat \<Rightarrow> (string + bytes) list \<Rightarrow> bytes \<Rightarrow> connector_error + bytes \<times> nat" where
  "spill_loop E i [] file = Inr (file, i)"
| "spill_loop E i (Inl e # cs) file = Inl (OtherErr (''download stream error: '' @ e))"
| "spill_loop E i (Inr chunk # cs) file =
     (case za_file_fault E i of
        Some e \<Rightarrow> Inl (OtherErr (''tempfile write failed: '' @ e))
      | None \<Rightarrow> spill_loop E (Suc i) cs (file @ chunk))"

text \<open>\<open>Response::bytes\<close>: the whole stream, or its first error.\<close>

fun collect_bytes :: "(string + bytes) list \<Rightarrow> string + bytes" where
  "collect_bytes [] = Inr []"
| "collect_bytes (Inl e # cs) = Inl e"
| "collect_bytes (Inr b # cs) = (case collect_bytes cs of Inl e \<Rightarrow> Inl e | Inr bs \<Rightarrow> Inr (b @ bs))"

definition stream_body :: "'e zoho_env_scheme \<Rightarrow> dl_body \<Rightarrow> connector_error + bytes" where
  "stream_body E body =
     (let spill = (case db_content_length body of None \<Rightarrow> False | Some len \<Rightarrow> INLINE_THRESHOLD_BYTES < len) in
      if spill then
        (case za_file_fault E 0 of
           Some e \<Rightarrow> Inl (OtherErr (''tempfile creation failed: '' @ e))
         | None \<Rightarrow>
             and_then (spill_loop E 1 (db_chunks body) []) (\<lambda>(file, i).
               case za_file_fault E i of
                 Some e \<Rightarrow> Inl (OtherErr (''tempfile seek failed: '' @ e))
               | None \<Rightarrow>
                   (case za_file_fault E (Suc i) of
                      Some e \<Rightarrow> Inl (OtherErr (''tempfile read failed: '' @ e))
                    | None \<Rightarrow> Inr file)))
      else map_err (\<lambda>e. OtherErr (''failed to read response body: '' @ e)) (collect_bytes (db_chunks body)))"

text \<open>The redirect loop, \<open>n\<close> requests left.\<close>

fun dl_loop :: "'e zoho_env_scheme \<Rightarrow> zoho_client \<Rightarrow> nat \<Rightarrow> url \<Rightarrow> bool \<Rightarrow> (zoho_world, bytes) io" where
  "dl_loop E c 0 current attach_auth = io_err (OtherErr ''too many redirects'')"
| "dl_loop E c (Suc n) current attach_auth =
     io_bind (if attach_auth then io_bind (refresh_if_needed E (zl_tokens c)) (\<lambda>t. io_ret (Some t)) else io_ret None)
       (\<lambda>token w.
         let w' = send E (zl_download_client c) (url_str current) token w in
         case za_get E (zw_tick w) (url_str current) of
           DlFails e \<Rightarrow> io_err (OtherErr (''download request failed: '' @ e)) w'
         | DlAnswer status location body \<Rightarrow>
             if is_redirection status then
               (case location of
                  None \<Rightarrow> io_err (Http status) w'
                | Some None \<Rightarrow> io_err (OtherErr ''invalid Location header encoding'') w'
                | Some (Some loc) \<Rightarrow>
                    (case za_parse_url E loc of
                       Inl _ \<Rightarrow> io_err (OtherErr ''malformed redirect URL'') w'
                     | Inr next_url \<Rightarrow>
                         dl_loop E c n next_url (is_trusted_zoho_host (unwrap_or [] (url_host next_url))) w'))
             else if \<not> is_success status then io_err (Http status) w'
             else io_lift (stream_body E body) w')"

definition download_with_trusted_auth :: "'e zoho_env_scheme \<Rightarrow> zoho_client \<Rightarrow> url \<Rightarrow> (zoho_world, bytes) io" where
  "download_with_trusted_auth E c initial_url = dl_loop E c MAX_REDIRECTS initial_url True"

definition zoho_download :: "'e zoho_env_scheme \<Rightarrow> zoho_client \<Rightarrow> change_item \<Rightarrow> (zoho_world, bytes) io" where
  "zoho_download E c item =
     (case za_parse_url E (zl_api_base c @ ''/files/'' @ ci_remote_id item @ ''/download'') of
        Inl e \<Rightarrow> io_err (OtherErr (''invalid download URL: '' @ e))
      | Inr initial_url \<Rightarrow> download_with_trusted_auth E c initial_url)"

section \<open>format_epoch_ms\<close>

text \<open>\<open>/\<close> and \<open>%\<close> of \<open>i64\<close> truncate towards zero; the nanoseconds are cast to \<open>u32\<close>.\<close>

definition rust_div :: "int \<Rightarrow> int \<Rightarrow> int" where
  "rust_div a b = (if (a < 0) = (b < 0) then \<bar>a\<bar> div \<bar>b\<bar> else - (\<bar>a\<bar> div \<bar>b\<bar>))"

definition rust_rem :: "int \<Rightarrow> int \<Rightarrow> int" where
  "rust_rem a b = a - rust_div a b * b"

definition epoch_secs :: "int \<Rightarrow> nat" where
  "epoch_secs ms =
     (let secs = rust_div ms 1000;
          nanos = nat (rust_rem ms 1000 * 1000000 mod 2 ^ 32)
      in nat (max secs 0) + nanos div 1000000000)"

definition format_epoch_ms :: "int \<Rightarrow> string" where
  "format_epoch_ms ms =
     (let total_secs = epoch_secs ms;
          s = total_secs mod 60;
          m = total_secs div 60 mod 60;
          h = total_secs div 3600 mod 24;
          days = total_secs div 86400;
          years = 1970 + days div 365;
          day_of_year = days mod 365;
          months = day_of_year div 30 + 1;
          dom = day_of_year mod 30 + 1
      in pad_zero 4 years @ ''-'' @ pad_zero 2 months @ ''-'' @ pad_zero 2 dom @ ''T'' @
         pad_zero 2 h @ '':'' @ pad_zero 2 m @ '':'' @ pad_zero 2 s @ ''Z'')"

section \<open>list_changes\<close>

definition absorb_item :: "string \<Rightarrow> zoho_file_item \<Rightarrow> zoho_cursor \<times> change_item list \<Rightarrow>
    zoho_cursor \<times> change_item list" where
  "absorb_item folder_id item acc =
     (case acc of (state, changes) \<Rightarrow>
      let is_folder = (zi_kind item = Some ''folder'');
          is_deleted = (zi_status item = Some ''deleted'');
          state = (if is_folder \<and> zi_id item \<notin> set (zu_visited state)
                   then state\<lparr>zu_visited := zu_visited state @ [zi_id item],
                              zu_queue := zu_queue state @ [\<lparr>fc_folder_id = zi_id item, fc_next_offset = 0\<rparr>]\<rparr>
                   else state);
          changes = (if is_folder then changes
                     else changes @ [\<lparr>ci_remote_id = zi_id item, ci_parent_id = Some folder_id,
                       ci_name = unwrap_or [] (zi_name item), ci_is_folder = False,
                       ci_modified_at = map_option format_epoch_ms (zi_modified_time item),
                       ci_deleted = is_deleted,
                       ci_raw = JObj [(''zoho_file_id'', JStr (zi_id item)),
                                      (''permalink'', json_opt_str (zi_permalink item))]\<rparr>])
      in (state, changes))"

definition absorb_items :: "string \<Rightarrow> zoho_file_item list \<Rightarrow> zoho_cursor \<times> change_item list \<Rightarrow>
    zoho_cursor \<times> change_item list" where
  "absorb_items folder_id items acc = fold (absorb_item folder_id) items acc"

text \<open>\<open>offset += items.len() as u32\<close>.\<close>

definition offset_add :: "bool \<Rightarrow> u32 \<Rightarrow> nat \<Rightarrow> u32 run" where
  "offset_add debug offset len =
     (if debug \<and> 2 ^ 32 \<le> unat offset + len mod 2 ^ 32 then Panics else Returns (offset + of_nat len))"

partial_function (option) zoho_pages :: "'e zoho_env_scheme \<Rightarrow> zoho_client \<Rightarrow> string \<Rightarrow> int \<Rightarrow> u32 \<Rightarrow>
    zoho_cursor \<Rightarrow> change_item list \<Rightarrow>
    (zoho_world, zoho_cursor \<times> change_item list \<times> bool \<times> u32) io" where
  "zoho_pages E c folder_id from_ms offset state changes w =
     (case list_folder_page E c folder_id offset from_ms w of
        None \<Rightarrow> None
      | Some Panics \<Rightarrow> Some Panics
      | Some (Returns (Inl e, w')) \<Rightarrow> Some (Returns (Inl e, w'))
      | Some (Returns (Inr (items, more_in_folder), w')) \<Rightarrow>
          (case absorb_items folder_id items (state, changes) of (state', changes') \<Rightarrow>
             if \<not> more_in_folder then Some (Returns (Inr (state', changes', more_in_folder, offset), w'))
             else (case offset_add (za_debug E) offset (length items) of
                 Panics \<Rightarrow> Some Panics
               | Returns offset' \<Rightarrow> zoho_pages E c folder_id from_ms offset' state' changes' w')))"

definition now_ms :: "'e zoho_env_scheme \<Rightarrow> (zoho_world, int) io" where
  "now_ms E w = Some (Returns (Inr (za_now_ms E (zw_tick w)), w\<lparr>zw_tick := zw_tick w + 1\<rparr>))"

definition to_json :: "'e zoho_env_scheme \<Rightarrow> zoho_cursor \<Rightarrow> (zoho_world, string) io" where
  "to_json E state = io_lift (map_err (\<lambda>e. OtherErr (''cursor serialization failed: '' @ e)) (za_to_json E state))"

definition from_json :: "'e zoho_env_scheme \<Rightarrow> string \<Rightarrow> (zoho_world, zoho_cursor) io" where
  "from_json E s = io_lift (ok_or CursorInvalid (za_from_json E s))"

text \<open>\<open>(watermark_ms - WATERMARK_OVERLAP_MS).max(0)\<close> on \<open>i64\<close>.\<close>

definition from_ms_of :: "bool \<Rightarrow> int \<Rightarrow> int run" where
  "from_ms_of debug watermark =
     (let d = watermark - WATERMARK_OVERLAP_MS in
      if - (2 ^ 63) \<le> d then Returns (max d 0) else if debug then Panics else Returns (max (d + 2 ^ 64) 0))"

definition load_state :: "'e zoho_env_scheme \<Rightarrow> zoho_client \<Rightarrow> string option \<Rightarrow> (zoho_world, zoho_cursor) io" where
  "load_state E c cursor =
     (case cursor of
        Some s \<Rightarrow> from_json E s
      | None \<Rightarrow> io_bind (now_ms E) (\<lambda>now. io_ret (bootstrap now (zl_root_id c))))"

text \<open>The queue was drained: restart the crawl from the root, with the watermark advanced.\<close>

definition restart :: "'e zoho_env_scheme \<Rightarrow> zoho_cursor \<Rightarrow> (zoho_world, delta_result) io" where
  "restart E state =
     io_bind (now_ms E) (\<lambda>now.
     io_bind (to_json E (state\<lparr>zu_watermark_ms := zu_run_started_ms state, zu_run_started_ms := now,
                           zu_visited := [],
                           zu_queue := [\<lparr>fc_folder_id = zu_root_id state, fc_next_offset = 0\<rparr>]\<rparr>)) (\<lambda>s.
     io_ret \<lparr>dr_next_cursor = Some s, dr_changes = [], dr_more = False\<rparr>))"

definition visit :: "'e zoho_env_scheme \<Rightarrow> zoho_client \<Rightarrow> int \<Rightarrow> folder_cursor \<Rightarrow> zoho_cursor \<Rightarrow>
    (zoho_world, delta_result) io" where
  "visit E c from_ms fc state =
     io_bind (zoho_pages E c (fc_folder_id fc) from_ms (fc_next_offset fc) state []) (\<lambda>(state, changes, more_in_folder, offset).
     let state = (if more_in_folder
                  then state\<lparr>zu_queue := \<lparr>fc_folder_id = fc_folder_id fc, fc_next_offset = offset\<rparr> # zu_queue state\<rparr>
                  else state) in
     io_bind (to_json E state) (\<lambda>s.
     io_ret \<lparr>dr_next_cursor = Some s, dr_changes = changes, dr_more = (zu_queue state \<noteq> [])\<rparr>))"

definition zoho_list_changes :: "'e zoho_env_scheme \<Rightarrow> zoho_client \<Rightarrow> string option \<Rightarrow>
    (zoho_world, delta_result) io" where
  "zoho_list_changes E c cursor =
     io_bind (load_state E c cursor) (\<lambda>state.
     io_bind (io_run (from_ms_of (za_debug E) (zu_watermark_ms state))) (\<lambda>from_ms.
     case zu_queue state of
       [] \<Rightarrow> restart E state
     | fc # queue \<Rightarrow> visit E c from_ms fc (state\<lparr>zu_queue := queue\<rparr>)))"

definition zoho_connector :: "'e zoho_env_scheme \<Rightarrow> zoho_client \<Rightarrow> zoho_world connector" where
  "zoho_connector E c = \<lparr>cn_id = zl_id c, cn_kind = ''zoho_workdrive'',
     cn_list_changes = zoho_list_changes E c, cn_download = zoho_download E c\<rparr>"

section \<open>What absorbing a page does\<close>

definition zi_is_folder :: "zoho_file_item \<Rightarrow> bool" where
  "zi_is_folder item \<longleftrightarrow> zi_kind item = Some ''folder''"

definition change_of :: "string \<Rightarrow> zoho_file_item \<Rightarrow> change_item" where
  "change_of folder_id item = \<lparr>ci_remote_id = zi_id item, ci_parent_id = Some folder_id,
     ci_name = unwrap_or [] (zi_name item), ci_is_folder = False,
     ci_modified_at = map_option format_epoch_ms (zi_modified_time item),
     ci_deleted = (zi_status item = Some ''deleted''),
     ci_raw = JObj [(''zoho_file_id'', JStr (zi_id item)), (''permalink'', json_opt_str (zi_permalink item))]\<rparr>"

definition enqueue :: "string list \<Rightarrow> zoho_cursor \<Rightarrow> zoho_cursor" where
  "enqueue new st = st\<lparr>zu_visited := zu_visited st @ new,
     zu_queue := zu_queue st @ map (\<lambda>i. \<lparr>fc_folder_id = i, fc_next_offset = 0\<rparr>) new\<rparr>"

definition folder_ids :: "zoho_file_item list \<Rightarrow> string set" where
  "folder_ids items = zi_id ` {i \<in> set items. zi_is_folder i}"

lemma absorb_item_eq:
  "absorb_item f i (st, chs) =
     (if zi_is_folder i \<and> zi_id i \<notin> set (zu_visited st) then enqueue [zi_id i] st else st,
      if zi_is_folder i then chs else chs @ [change_of f i])"
  by (simp add: absorb_item_def zi_is_folder_def change_of_def enqueue_def Let_def)

lemma absorb_items_spec:
  "\<exists>new. absorb_items f items (st, chs) =
     (enqueue new st, chs @ map (change_of f) (filter (\<lambda>i. \<not> zi_is_folder i) items)) \<and>
     distinct new \<and> set new = folder_ids items - set (zu_visited st)"
proof (induction items arbitrary: st chs)
  case Nil
  then show ?case by (intro exI [of _ "[]"]) (simp add: absorb_items_def enqueue_def folder_ids_def)
next
  case (Cons i items)
  define st1 where "st1 = fst (absorb_item f i (st, chs))"
  define chs1 where "chs1 = snd (absorb_item f i (st, chs))"
  obtain new where new: "absorb_items f items (st1, chs1) =
      (enqueue new st1, chs1 @ map (change_of f) (filter (\<lambda>i. \<not> zi_is_folder i) items))"
    "distinct new" "set new = folder_ids items - set (zu_visited st1)" using Cons.IH by blast
  have c: "absorb_items f (i # items) (st, chs) = absorb_items f items (st1, chs1)"
    by (simp add: absorb_items_def st1_def chs1_def)
  show ?case
  proof (cases "zi_is_folder i \<and> zi_id i \<notin> set (zu_visited st)")
    case True
    then have "st1 = enqueue [zi_id i] st" "chs1 = chs" by (simp_all add: st1_def chs1_def absorb_item_eq)
    then show ?thesis using c new True
      by (intro exI [of _ "zi_id i # new"]) (auto simp: enqueue_def folder_ids_def)
  next
    case False
    then have "st1 = st" "chs1 = (if zi_is_folder i then chs else chs @ [change_of f i])"
      by (auto simp: st1_def chs1_def absorb_item_eq)
    then show ?thesis using c new False
      by (intro exI [of _ new]) (auto simp: folder_ids_def)
  qed
qed

lemma absorb_append: "absorb_items f (xs @ ys) acc = absorb_items f ys (absorb_items f xs acc)"
  by (simp add: absorb_items_def)

section \<open>A server that pages correctly\<close>

text \<open>The folders below a root.\<close>

inductive_set reach :: "(string \<Rightarrow> zoho_file_item list) \<Rightarrow> string \<Rightarrow> string set" for kids root where
  root: "root \<in> reach kids root"
| child: "f \<in> reach kids root \<Longrightarrow> i \<in> set (kids f) \<Longrightarrow> zi_is_folder i \<Longrightarrow> zi_id i \<in> reach kids root"

definition page_answer :: "(string \<Rightarrow> zoho_file_item list) \<Rightarrow> nat \<Rightarrow> string \<Rightarrow> nat \<Rightarrow> list_answer" where
  "page_answer kids page f offset = ListAnswer 200 None (Inr
     \<lparr>fl_data = Some (take page (drop offset (kids f))),
      fl_info = Some \<lparr>zg_more_records = Some (offset + page < length (kids f))\<rparr>\<rparr>)"

text \<open>
  The hypotheses of a crawl that nothing disturbs: a folder's children come in pages of a fixed positive
  size, a token is always to be had, and the cursor survives its JSON form.
\<close>

definition serves :: "'e zoho_env_scheme \<Rightarrow> zoho_client \<Rightarrow> (string \<Rightarrow> zoho_file_item list) \<Rightarrow> nat \<Rightarrow> bool" where
  "serves E c kids page \<longleftrightarrow> 0 < page \<and>
     (\<forall>f \<in> reach kids (zl_root_id c). length (kids f) < 2 ^ 32 \<and>
       (\<forall>t offset from. za_list E t (list_url c f offset from) = page_answer kids page f (unat offset)))"

definition token_ok :: "'e zoho_env_scheme \<Rightarrow> token_cache \<Rightarrow> bool" where
  "token_ok E T \<longleftrightarrow> (\<forall>w. \<exists>t w'. refresh_if_needed E T w = Some (Returns (Inr t, w')))"

definition json_ok :: "'e zoho_env_scheme \<Rightarrow> bool" where
  "json_ok E \<longleftrightarrow> (\<forall>st. \<exists>s. za_to_json E st = Inr s \<and> za_from_json E s = Some st)"

lemma list_folder_page_served:
  assumes "serves E c kids page" and "token_ok E (zl_tokens c)" and "f \<in> reach kids (zl_root_id c)"
  shows "\<exists>w'. list_folder_page E c f offset from w =
     Some (Returns (Inr (take page (drop (unat offset) (kids f)), unat offset + page < length (kids f)), w'))"
proof -
  obtain t w1 where t: "refresh_if_needed E (zl_tokens c) w = Some (Returns (Inr t, w1))"
    using assms(2) unfolding token_ok_def by blast
  have "za_list E (zw_tick w1) (list_url c f offset from) = page_answer kids page f (unat offset)"
    using assms(1,3) by (simp add: serves_def)
  with t show ?thesis
    by (simp add: list_folder_page_def io_bind_Some page_of_answer_def page_answer_def is_success_def Let_def)
qed

lemma zoho_pages_served:
  assumes "serves E c kids page" and "token_ok E (zl_tokens c)" and "f \<in> reach kids (zl_root_id c)"
  shows "unat offset \<le> length (kids f) \<Longrightarrow>
     \<exists>w' offset'. zoho_pages E c f from offset st chs w =
       Some (Returns (Inr (fst (absorb_items f (drop (unat offset) (kids f)) (st, chs)),
         snd (absorb_items f (drop (unat offset) (kids f)) (st, chs)), False, offset'), w'))"
proof (induction "length (kids f) - unat offset" arbitrary: offset st chs w rule: less_induct)
  case less
  let ?p = "take page (drop (unat offset) (kids f))"
  have pg: "0 < page" and len: "length (kids f) < 2 ^ 32" using assms(1,3) by (auto simp: serves_def)
  obtain w1 where l: "list_folder_page E c f offset from w =
      Some (Returns (Inr (?p, unat offset + page < length (kids f)), w1))"
    using list_folder_page_served [OF assms] by blast
  obtain st1 chs1 where a: "absorb_items f ?p (st, chs) = (st1, chs1)" by (metis surj_pair)
  show ?case
  proof (cases "unat offset + page < length (kids f)")
    case True
    define off1 where "off1 = offset + of_nat (length ?p)"
    have lp: "length ?p = page" using True by simp
    have small: "page < 2 ^ 32" "unat offset + page < 2 ^ 32" using True len by linarith+
    then have u: "unat off1 = unat offset + page"
      unfolding off1_def lp by (simp add: unat_word_ariths unat_of_nat)
    have add: "offset_add (za_debug E) offset (length ?p) = Returns off1"
      using small lp by (simp add: offset_add_def off1_def)
    have sp: "drop (unat offset) (kids f) = ?p @ drop (unat off1) (kids f)"
      by (simp add: u) (metis add.commute append_take_drop_id drop_drop)
    have "length (kids f) - unat off1 < length (kids f) - unat offset" "unat off1 \<le> length (kids f)"
      using True pg u by linarith+
    from less.hyps [OF this, of st1 chs1 w1] obtain w' offset' where
      "zoho_pages E c f from off1 st1 chs1 w1 = Some (Returns (Inr (
         fst (absorb_items f (drop (unat off1) (kids f)) (st1, chs1)),
         snd (absorb_items f (drop (unat off1) (kids f)) (st1, chs1)), False, offset'), w'))" by blast
    moreover have "zoho_pages E c f from offset st chs w = zoho_pages E c f from off1 st1 chs1 w1"
      using l a add True by (simp add: zoho_pages.simps [of E c f "from" offset st chs w])
    moreover have "absorb_items f (drop (unat offset) (kids f)) (st, chs) =
        absorb_items f (drop (unat off1) (kids f)) (st1, chs1)"
      by (subst sp) (simp only: absorb_append a)
    ultimately show ?thesis by simp
  next
    case False
    then have p: "?p = drop (unat offset) (kids f)" by simp
    with l a False show ?thesis by (simp add: zoho_pages.simps [of E c f "from" offset st chs w])
  qed
qed

section \<open>One call on a healthy server\<close>

definition files_of :: "(string \<Rightarrow> zoho_file_item list) \<Rightarrow> string \<Rightarrow> change_item list" where
  "files_of kids f = map (change_of f) (filter (\<lambda>i. \<not> zi_is_folder i) (kids f))"

definition bfs_next :: "(string \<Rightarrow> zoho_file_item list) \<Rightarrow> string \<Rightarrow> folder_cursor list \<Rightarrow> zoho_cursor \<Rightarrow> zoho_cursor" where
  "bfs_next kids f q st = fst (absorb_items f (kids f) (st\<lparr>zu_queue := q\<rparr>, []))"

lemma absorb_changes: "snd (absorb_items f (kids f) (st, [])) = files_of kids f"
  using absorb_items_spec [of f "kids f" st "[]"] by (auto simp: files_of_def)

lemma list_changes_step:
  assumes "serves E c kids page" and "token_ok E (zl_tokens c)" and "json_ok E" and fr: "f \<in> reach kids (zl_root_id c)"
    and ld: "load_state E c cursor w = Some (Returns (Inr st, w1))"
    and q: "zu_queue st = \<lparr>fc_folder_id = f, fc_next_offset = 0\<rparr> # q" and wm: "0 \<le> zu_watermark_ms st"
  shows "\<exists>s w'. zoho_list_changes E c cursor w = Some (Returns (Inr
       \<lparr>dr_next_cursor = Some s, dr_changes = files_of kids f, dr_more = (zu_queue (bfs_next kids f q st) \<noteq> [])\<rparr>, w')) \<and>
     za_from_json E s = Some (bfs_next kids f q st)"
proof -
  obtain from_ms where fm: "from_ms_of (za_debug E) (zu_watermark_ms st) = Returns from_ms"
    using wm by (simp add: from_ms_of_def WATERMARK_OVERLAP_MS_def Let_def)
  obtain w2 off where z: "zoho_pages E c f from_ms 0 (st\<lparr>zu_queue := q\<rparr>) [] w1 =
      Some (Returns (Inr (bfs_next kids f q st, files_of kids f, False, off), w2))"
    using zoho_pages_served [OF assms(1,2) fr, of 0 from_ms "st\<lparr>zu_queue := q\<rparr>" "[]" w1]
    by (auto simp: bfs_next_def absorb_changes)
  obtain s where s: "za_to_json E (bfs_next kids f q st) = Inr s" "za_from_json E s = Some (bfs_next kids f q st)"
    using assms(3) unfolding json_ok_def by blast
  have "visit E c from_ms \<lparr>fc_folder_id = f, fc_next_offset = 0\<rparr> (st\<lparr>zu_queue := q\<rparr>) w1 = Some (Returns (Inr
       \<lparr>dr_next_cursor = Some s, dr_changes = files_of kids f, dr_more = (zu_queue (bfs_next kids f q st) \<noteq> [])\<rparr>, w2))"
    using z s by (simp add: visit_def io_defs to_json_def)
  moreover have "io_run (from_ms_of (za_debug E) (zu_watermark_ms st)) w1 = Some (Returns (Inr from_ms, w1))"
    by (simp add: fm)
  ultimately show ?thesis
    using ld q s(2) by (simp add: zoho_list_changes_def io_bind_Some)
qed

section \<open>The whole crawl\<close>

text \<open>The caller of the trait: call until \<open>more\<close> is false, at most \<open>n\<close> times, collecting the changes.\<close>

fun zoho_crawl :: "'e zoho_env_scheme \<Rightarrow> zoho_client \<Rightarrow> nat \<Rightarrow> string option \<Rightarrow> zoho_world \<Rightarrow> change_item list option" where
  "zoho_crawl E c 0 cursor w = None"
| "zoho_crawl E c (Suc n) cursor w =
     (case zoho_list_changes E c cursor w of
        Some (Returns (Inr d, w')) \<Rightarrow>
          if dr_more d then map_option ((@) (dr_changes d)) (zoho_crawl E c n (dr_next_cursor d) w')
          else Some (dr_changes d)
      | _ \<Rightarrow> None)"

definition queue_ids :: "zoho_cursor \<Rightarrow> string set" where
  "queue_ids st = fc_folder_id ` set (zu_queue st)"

text \<open>The invariant: \<open>D\<close> are the folders listed so far.\<close>

definition bfs_inv :: "(string \<Rightarrow> zoho_file_item list) \<Rightarrow> string \<Rightarrow> string set \<Rightarrow> zoho_cursor \<Rightarrow> bool" where
  "bfs_inv kids root D st \<longleftrightarrow>
     D \<subseteq> reach kids root \<and> set (zu_visited st) \<subseteq> reach kids root \<and> queue_ids st \<subseteq> reach kids root \<and>
     distinct (zu_visited st) \<and> root \<in> D \<union> queue_ids st \<and> set (zu_visited st) \<subseteq> D \<union> queue_ids st \<and>
     (\<forall>f \<in> D. folder_ids (kids f) \<subseteq> set (zu_visited st)) \<and>
     (\<forall>fc \<in> set (zu_queue st). fc_next_offset fc = 0) \<and> 0 \<le> zu_watermark_ms st"

lemma bfs_inv_bootstrap: "bfs_inv kids root {} (bootstrap now root)"
  by (auto simp: bfs_inv_def bootstrap_def queue_ids_def intro: reach.root)

lemma bfs_next_eq:
  "\<exists>new. bfs_next kids f q st = enqueue new (st\<lparr>zu_queue := q\<rparr>) \<and> distinct new \<and>
     set new = folder_ids (kids f) - set (zu_visited st)"
  using absorb_items_spec [of f "kids f" "st\<lparr>zu_queue := q\<rparr>" "[]"] by (auto simp: bfs_next_def)

lemma bfs_inv_next:
  assumes inv: "bfs_inv kids root D st" and q: "zu_queue st = \<lparr>fc_folder_id = f, fc_next_offset = 0\<rparr> # q"
  shows "bfs_inv kids root (insert f D) (bfs_next kids f q st)"
proof -
  obtain new where new: "bfs_next kids f q st = enqueue new (st\<lparr>zu_queue := q\<rparr>)" "distinct new"
    "set new = folder_ids (kids f) - set (zu_visited st)" using bfs_next_eq by blast
  have f: "f \<in> reach kids root" using inv q by (auto simp: bfs_inv_def queue_ids_def)
  have "folder_ids (kids f) \<subseteq> reach kids root" using f by (auto simp: folder_ids_def intro: reach.child)
  moreover have "queue_ids (enqueue new (st\<lparr>zu_queue := q\<rparr>)) = fc_folder_id ` set q \<union> set new"
    by (auto simp: queue_ids_def enqueue_def image_Un image_image)
  moreover have "queue_ids st = insert f (fc_folder_id ` set q)" using q by (simp add: queue_ids_def)
  ultimately show ?thesis
    using inv f new q unfolding bfs_inv_def new(1) by (auto simp: enqueue_def)
qed

text \<open>With an empty queue, every reachable folder has been listed.\<close>

lemma bfs_done:
  assumes "bfs_inv kids root D st" and "zu_queue st = []"
  shows "D = reach kids root"
proof -
  have cl: "root \<in> D" "set (zu_visited st) \<subseteq> D" "\<forall>g \<in> D. folder_ids (kids g) \<subseteq> set (zu_visited st)"
    "D \<subseteq> reach kids root"
    using assms by (auto simp: bfs_inv_def queue_ids_def)
  have "g \<in> D" if "g \<in> reach kids root" for g
    using that
  proof induction
    case (child g i)
    then have "zi_id i \<in> folder_ids (kids g)" by (auto simp: folder_ids_def)
    with child cl(2,3) show ?case by blast
  qed (rule cl(1))
  with cl(4) show ?thesis by blast
qed

text \<open>The folder at the head of the queue.\<close>

lemma bfs_head:
  assumes "bfs_inv kids root D st" and "zu_queue st \<noteq> []"
  obtains f q where "zu_queue st = \<lparr>fc_folder_id = f, fc_next_offset = 0\<rparr> # q" "f \<in> reach kids root"
proof -
  obtain fc q where q: "zu_queue st = fc # q" using assms(2) by (cases "zu_queue st") auto
  with assms(1) have "fc_next_offset fc = 0" "fc_folder_id fc \<in> reach kids root"
    by (auto simp: bfs_inv_def queue_ids_def)
  with q show thesis by (intro that [of "fc_folder_id fc" q]) (cases fc, simp_all)
qed

text \<open>Each step lists one folder, and each folder is enqueued at most once: the crawl ends.\<close>

definition todo :: "(string \<Rightarrow> zoho_file_item list) \<Rightarrow> string \<Rightarrow> zoho_cursor \<Rightarrow> nat" where
  "todo kids root st = card (reach kids root - set (zu_visited st)) + length (zu_queue st)"

lemma todo_next:
  assumes inv: "bfs_inv kids root D st" and fin: "finite (reach kids root)"
    and q: "zu_queue st = \<lparr>fc_folder_id = f, fc_next_offset = 0\<rparr> # q"
  shows "Suc (todo kids root (bfs_next kids f q st)) = todo kids root st"
proof -
  obtain new where new: "bfs_next kids f q st = enqueue new (st\<lparr>zu_queue := q\<rparr>)" "distinct new"
    "set new = folder_ids (kids f) - set (zu_visited st)" using bfs_next_eq by blast
  let ?R = "reach kids root" and ?V = "set (zu_visited st)"
  have "f \<in> ?R" using inv q by (auto simp: bfs_inv_def queue_ids_def)
  then have sub: "set new \<subseteq> ?R - ?V" using new(3) by (auto simp: folder_ids_def intro: reach.child)
  have "card (?R - ?V) = card (?R - ?V - set new) + card (set new)"
    using card_Diff_subset [OF finite_subset [OF sub] sub] card_mono [OF _ sub] fin by simp
  moreover have "card (set new) = length new" using new(2) by (rule distinct_card)
  moreover have "?R - ?V - set new = ?R - (?V \<union> set new)" by blast
  ultimately show ?thesis using q by (simp add: todo_def new(1) enqueue_def)
qed

lemma crawl_from:
  assumes sv: "serves E c kids page" "token_ok E (zl_tokens c)" "json_ok E" and fin: "finite (reach kids root)"
    and root: "root = zl_root_id c"
  shows "bfs_inv kids root D st \<Longrightarrow> load_state E c cursor w = Some (Returns (Inr st, w1)) \<Longrightarrow>
     zu_queue st \<noteq> [] \<Longrightarrow> todo kids root st \<le> n \<Longrightarrow>
     \<exists>chs D'. zoho_crawl E c n cursor w = Some chs \<and>
       set chs = (\<Union>f \<in> D'. set (files_of kids f)) \<and> D \<union> D' = reach kids root"
proof (induction n arbitrary: D st cursor w w1)
  case 0
  then show ?case by (simp add: todo_def)
next
  case (Suc n)
  obtain f q where q: "zu_queue st = \<lparr>fc_folder_id = f, fc_next_offset = 0\<rparr> # q"
    and fr0: "f \<in> reach kids (zl_root_id c)"
    using bfs_head [OF Suc.prems(1,3)] root by metis
  have wm: "0 \<le> zu_watermark_ms st" using Suc.prems(1) by (simp add: bfs_inv_def)
  let ?st = "bfs_next kids f q st"
  obtain s w' where step: "zoho_list_changes E c cursor w = Some (Returns (Inr
       \<lparr>dr_next_cursor = Some s, dr_changes = files_of kids f, dr_more = (zu_queue ?st \<noteq> [])\<rparr>, w'))"
    and fj: "za_from_json E s = Some ?st"
    using list_changes_step [OF sv _ Suc.prems(2) q wm] fr0 by blast
  have inv: "bfs_inv kids root (insert f D) ?st" by (rule bfs_inv_next [OF Suc.prems(1) q])
  have fR: "f \<in> reach kids root" using inv by (simp add: bfs_inv_def)
  show ?case
  proof (cases "zu_queue ?st = []")
    case True
    from bfs_done [OF inv this] have "insert f D = reach kids root" .
    then show ?thesis using step True by (intro exI [of _ "files_of kids f"] exI [of _ "{f}"]) simp
  next
    case False
    have ld: "load_state E c (Some s) w' = Some (Returns (Inr ?st, w'))"
      by (simp add: load_state_def from_json_def fj)
    have td: "todo kids root ?st \<le> n" using todo_next [OF Suc.prems(1) fin q] Suc.prems(4) by simp
    obtain chs D' where r: "zoho_crawl E c n (Some s) w' = Some chs"
      "set chs = (\<Union>f \<in> D'. set (files_of kids f))" "insert f D \<union> D' = reach kids root"
      using Suc.IH [OF inv ld False td] by auto
    have "zoho_crawl E c (Suc n) cursor w = Some (files_of kids f @ chs)" using step False r(1) by simp
    moreover have "set (files_of kids f @ chs) = (\<Union>f \<in> insert f D'. set (files_of kids f))" using r(2) by simp
    moreover have "D \<union> insert f D' = reach kids root" using r(3) by blast
    ultimately show ?thesis by blast
  qed
qed

section \<open>Where the token goes\<close>

text \<open>What a call adds to the logs.\<close>

definition sends :: "(string \<times> form \<Rightarrow> bool) \<Rightarrow> (string \<times> string option \<Rightarrow> bool) \<Rightarrow> (string \<times> hop list \<Rightarrow> bool) \<Rightarrow>
    zoho_world \<Rightarrow> zoho_world \<Rightarrow> bool" where
  "sends Q P C w w' \<longleftrightarrow> adds Q (zw_posts w) (zw_posts w') \<and> adds P (zw_sent w) (zw_sent w') \<and>
     adds C (zw_chains w) (zw_chains w')"

lemma sends_refl [simp]: "sends Q P C w w"
  by (simp add: sends_def)

lemma sends_trans: "sends Q P C w w1 \<Longrightarrow> sends Q P C w1 w2 \<Longrightarrow> sends Q P C w w2"
  unfolding sends_def by (elim conjE, intro conjI) (erule (1) adds_trans)+

lemma transp_sends: "transp (sends Q P C)"
  by (intro transpI) (rule sends_trans)

lemma reflp_sends: "reflp (sends Q P C)"
  by (intro reflpI) simp

text \<open>The forms a cache posts: its credentials, to its token endpoint.\<close>

definition own_post :: "token_cache \<Rightarrow> string \<times> form \<Rightarrow> bool" where
  "own_post T p \<longleftrightarrow> p = (oauth_url T, oauth_form T)"

text \<open>The hops of such a post, and of any request of a client.\<close>

definition own_chain :: "'e token_env_scheme \<Rightarrow> token_cache \<Rightarrow> string \<times> hop list \<Rightarrow> bool" where
  "own_chain E T x \<longleftrightarrow>
     (\<exists>t. x = (oauth_url T, hops_by (tk_http T) (ze_hops E) t (oauth_url T) (Some (oauth_form T)) None))"

definition client_chain :: "'e zoho_env_scheme \<Rightarrow> zoho_client \<Rightarrow> string \<times> hop list \<Rightarrow> bool" where
  "client_chain E c x \<longleftrightarrow> own_chain E (zl_tokens c) x \<or>
     (\<exists>f offset from t token. x = (list_url c f offset from,
        hops_by (tk_http (zl_tokens c)) (ze_hops E) t (list_url c f offset from) None token)) \<or>
     (\<exists>u t token. x = (u, hops_by (zl_download_client c) (ze_hops E) t u None token))"

lemma own_is_client: "own_chain E (zl_tokens c) x \<Longrightarrow> client_chain E c x"
  by (simp add: client_chain_def)

lemma refresh_sends:
  assumes "\<And>x. own_chain E T x \<Longrightarrow> C x"
  shows "keeps (sends (own_post T) P C) (refresh_if_needed E T)"
proof -
  have c: "keeps (sends (own_post T) P C) (check_cache E)"
    by (auto simp: keeps_def check_cache_def sends_def split: run.splits)
  have "C (oauth_url T, hops_by (tk_http T) (ze_hops E) t (oauth_url T) (Some (oauth_form T)) None)" for t
    by (rule assms) (auto simp: own_chain_def)
  then have r: "keeps (sends (own_post T) P C) (call_oauth_refresh E T)"
    by (auto simp: keeps_def call_oauth_refresh_def sends_def own_post_def split: run.splits)
  have st: "keeps (sends (own_post T) P C) (store_token t)" for t
    by (auto simp: keeps_def store_token_def sends_def)
  show ?thesis unfolding refresh_if_needed_def
    by (intro keeps_bind transp_sends c r st keeps_ret reflp_sends | split option.split | intro conjI allI impI)+
qed

text \<open>A request of a download: the initial URL, or one whose host is trusted if it carries a token.\<close>

definition token_safe :: "'e zoho_env_scheme \<Rightarrow> url \<Rightarrow> string \<times> string option \<Rightarrow> bool" where
  "token_safe E start r \<longleftrightarrow> (case r of (u, token) \<Rightarrow> token \<noteq> None \<longrightarrow> u = url_str start \<or>
     (\<exists>s v. za_parse_url E s = Inr v \<and> url_str v = u \<and> is_trusted_zoho_host (unwrap_or [] (url_host v))))"

lemma dl_loop_sends:
  assumes "attach \<longrightarrow> token_safe E start (url_str u, Some [])"
  shows "keeps (sends (own_post (zl_tokens c)) (token_safe E start) (client_chain E c)) (dl_loop E c n u attach)"
  using assms
proof (induction n arbitrary: u attach)
  case 0
  then show ?case by (auto intro: keeps_err reflp_sends)
next
  case (Suc n)
  let ?S = "sends (own_post (zl_tokens c)) (token_safe E start) (client_chain E c)"
  let ?tok = "if attach then io_bind (refresh_if_needed E (zl_tokens c)) (\<lambda>t. io_ret (Some t)) else io_ret None"
  let ?send = "send E (zl_download_client c) (url_str u)"
  have tk: "keeps ?S ?tok"
    by (auto intro!: keeps_bind transp_sends refresh_sends [OF own_is_client] keeps_ret reflp_sends)
  show ?case unfolding keeps_def
  proof (intro allI impI)
    fix w r w' assume run: "dl_loop E c (Suc n) u attach w = Some (Returns (r, w'))"
    then obtain r1 w1 where t: "?tok w = Some (Returns (r1, w1))"
      by (auto simp: io_bind_def split: outcome_splits)
    then have s1: "?S w w1" using tk unfolding keeps_def by blast
    show "?S w w'"
    proof (cases r1)
      case (Inl e)
      with run t have "w' = w1" by (simp add: io_bind_def)
      with s1 show ?thesis by simp
    next
      case (Inr token)
      have "token = None" if "\<not> attach" using t Inr that by simp
      then have safe: "token_safe E start (url_str u, token)" using Suc.prems by (auto simp: token_safe_def)
      then have s2: "?S w1 (?send token w1)" by (auto simp: sends_def send_def client_chain_def)
      have "?S (?send token w1) w'"
      proof (cases "za_get E (zw_tick w1) (url_str u)")
        case (DlFails e)
        with run t Inr show ?thesis by (simp add: io_defs Let_def)
      next
        case (DlAnswer status location body)
        show ?thesis
        proof (cases "\<exists>loc v. is_redirection status \<and> location = Some (Some loc) \<and> za_parse_url E loc = Inr v")
          case True
          then obtain loc v where v: "is_redirection status" "location = Some (Some loc)" "za_parse_url E loc = Inr v" by blast
          have "is_trusted_zoho_host (unwrap_or [] (url_host v)) \<longrightarrow> token_safe E start (url_str v, Some [])"
            using v(3) by (auto simp: token_safe_def)
          from Suc.IH [OF this] run t Inr DlAnswer v show ?thesis
            unfolding keeps_def by (simp add: io_bind_def Let_def)
        next
          case False
          with run t Inr DlAnswer show ?thesis
            by (auto simp: io_defs Let_def split: if_splits option.splits sum.splits run.splits)
        qed
      qed
      with s1 s2 show ?thesis using sends_trans by blast
    qed
  qed
qed

text \<open>At most one request per round of the loop.\<close>

lemma refresh_sent: "refresh_if_needed E T w = Some (Returns (r, w')) \<Longrightarrow> zw_sent w' = zw_sent w"
proof -
  assume a: "refresh_if_needed E T w = Some (Returns (r, w'))"
  have "keeps (sends (own_post T) (\<lambda>_. False) (\<lambda>_. True)) (refresh_if_needed E T)" by (rule refresh_sends) simp
  with a have "sends (own_post T) (\<lambda>_. False) (\<lambda>_. True) w w'" unfolding keeps_def by blast
  then obtain new where n: "zw_sent w' = zw_sent w @ new" "\<forall>r \<in> set new. False" unfolding sends_def adds_def by blast
  then have "new = []" by (cases new) auto
  with n show ?thesis by simp
qed

lemma dl_loop_count:
  "dl_loop E c n u attach w = Some (Returns (r, w')) \<Longrightarrow> length (zw_sent w') \<le> length (zw_sent w) + n"
proof (induction n arbitrary: u attach w)
  case 0
  then show ?case by (simp add: io_err_def)
next
  case (Suc n)
  let ?tok = "if attach then io_bind (refresh_if_needed E (zl_tokens c)) (\<lambda>t. io_ret (Some t)) else io_ret None"
  from Suc.prems obtain r1 w1 where t: "?tok w = Some (Returns (r1, w1))"
    by (auto simp: io_bind_def split: outcome_splits)
  have s1: "zw_sent w1 = zw_sent w"
    using t refresh_sent [of E "zl_tokens c" w] by (auto simp: io_defs split: if_splits outcome_splits sum.splits)
  show ?case
  proof (cases r1)
    case (Inl e)
    with Suc.prems t s1 show ?thesis by (simp add: io_bind_def)
  next
    case (Inr token)
    let ?w2 = "send E (zl_download_client c) (url_str u) token w1"
    have l2: "length (zw_sent ?w2) = Suc (length (zw_sent w))" by (simp add: send_def s1)
    consider "w' = ?w2" | v a where "dl_loop E c n v a ?w2 = Some (Returns (r, w'))"
      using Suc.prems t Inr
      by (auto simp: io_defs Let_def split: dl_answer.splits if_splits option.splits sum.splits)
    then show ?thesis using Suc.IH l2 by cases (simp, fastforce)
  qed
qed

section \<open>A listing that never ends\<close>

definition stuck :: "'e zoho_env_scheme \<Rightarrow> zoho_client \<Rightarrow> string \<Rightarrow> bool" where
  "stuck E c f \<longleftrightarrow> (\<forall>t offset from. za_list E t (list_url c f offset from) =
     ListAnswer 200 None (Inr \<lparr>fl_data = Some [], fl_info = Some \<lparr>zg_more_records = Some True\<rparr>\<rparr>))"

lemma stuck_page:
  assumes "stuck E c f" and "token_ok E (zl_tokens c)"
  shows "\<exists>w'. list_folder_page E c f offset from w = Some (Returns (Inr ([], True), w'))"
proof -
  obtain t w1 where t: "refresh_if_needed E (zl_tokens c) w = Some (Returns (Inr t, w1))"
    using assms(2) unfolding token_ok_def by blast
  with assms(1) show ?thesis
    by (simp add: list_folder_page_def io_bind_Some page_of_answer_def stuck_def is_success_def Let_def)
qed

lemma zoho_pages_returns_not_stuck:
  "zoho_pages E c f from offset st chs w = Some y \<Longrightarrow> \<not> (stuck E c f \<and> token_ok E (zl_tokens c))"
proof (induction rule: zoho_pages.raw_induct [rotated, consumes 1])
  case (1 zp E c f "from" offset st chs w y)
  show ?case
  proof
    assume s: "stuck E c f \<and> token_ok E (zl_tokens c)"
    then obtain w1 where "list_folder_page E c f offset from w = Some (Returns (Inr ([], True), w1))"
      using stuck_page [of E c f offset "from" w] by blast
    moreover have "offset_add (za_debug E) offset (length []) = Returns offset"
    proof -
      have "unat offset < 2 ^ LENGTH(32)" by (rule unsigned_less)
      then show ?thesis by (simp add: offset_add_def not_le)
    qed
    ultimately have "zp E c f from offset st chs w1 = Some y"
      using 1(2) by (simp add: absorb_items_def)
    from 1(1) [OF this] show False using s by simp
  qed
qed

lemma zoho_pages_stuck:
  "stuck E c f \<Longrightarrow> token_ok E (zl_tokens c) \<Longrightarrow> zoho_pages E c f from offset st chs w = None"
  using zoho_pages_returns_not_stuck [of E c f "from" offset st chs w]
  by (cases "zoho_pages E c f from offset st chs w") auto

section \<open>Bodies\<close>

lemma spill_loop_ok:
  assumes "\<forall>i. za_file_fault E i = None"
  shows "spill_loop E i cs acc =
     (case collect_bytes cs of Inl e \<Rightarrow> Inl (OtherErr (''download stream error: '' @ e))
      | Inr bs \<Rightarrow> Inr (acc @ bs, i + length cs))"
proof (induction cs arbitrary: i acc)
  case (Cons a cs)
  then show ?case using assms by (cases a) (auto split: sum.splits)
qed simp

lemma epoch_secs_nonneg: "0 \<le> ms \<Longrightarrow> epoch_secs ms = nat (ms div 1000)"
proof -
  assume ms: "0 \<le> ms"
  have "rust_rem ms 1000 = ms mod 1000" using ms by (simp add: rust_rem_def rust_div_def minus_div_mult_eq_mod)
  moreover have "ms mod 1000 * 1000000 < 2 ^ 32" by (simp add: pos_mod_bound [THEN order.strict_trans2])
  ultimately have "nat (rust_rem ms 1000 * 1000000 mod 2 ^ 32) div 1000000000 = 0"
    by (simp add: nat_less_iff)
  then show ?thesis using ms by (simp add: epoch_secs_def rust_div_def Let_def)
qed

section \<open>What a listing returns\<close>

text \<open>
  When the page loop returns, its \<open>more_in_folder\<close> is false (the re-enqueueing after it is never taken),
  and it has collected files only.
\<close>

lemma zoho_pages_result:
  "zoho_pages E c f from offset st chs w = Some y \<Longrightarrow>
     (\<forall>st' chs' more' off' w'. y = Returns (Inr (st', chs', more', off'), w') \<longrightarrow>
        \<not> more' \<and> ((\<forall>ch \<in> set chs. \<not> ci_is_folder ch) \<longrightarrow> (\<forall>ch \<in> set chs'. \<not> ci_is_folder ch)))"
proof (induction rule: zoho_pages.raw_induct [rotated, consumes 1])
  case (1 zp E c f "from" offset st chs w y)
  show ?case
  proof (intro allI impI)
    fix st' chs' more' off' w' assume y: "y = Returns (Inr (st', chs', more', off'), w')"
    obtain items more1 w1 where l: "list_folder_page E c f offset from w = Some (Returns (Inr (items, more1), w1))"
      using 1(2) y by (auto split: outcome_splits sum.splits prod.splits)
    obtain new where a: "absorb_items f items (st, chs) =
       (enqueue new st, chs @ map (change_of f) (filter (\<lambda>i. \<not> zi_is_folder i) items))"
      using absorb_items_spec by blast
    have nf: "\<forall>ch \<in> set (map (change_of f) (filter (\<lambda>i. \<not> zi_is_folder i) items)). \<not> ci_is_folder ch"
      by (auto simp: change_of_def)
    show "\<not> more' \<and> ((\<forall>ch \<in> set chs. \<not> ci_is_folder ch) \<longrightarrow> (\<forall>ch \<in> set chs'. \<not> ci_is_folder ch))"
    proof (cases more1)
      case False
      then show ?thesis using 1(2) y l a nf by auto
    next
      case True
      then obtain off1 where "zp E c f from off1 (enqueue new st)
          (chs @ map (change_of f) (filter (\<lambda>i. \<not> zi_is_folder i) items)) w1 = Some y"
        using 1(2) y l a by (auto split: run.splits)
      from 1(1) [OF this] y nf show ?thesis by auto
    qed
  qed
qed

lemma visit_ok:
  assumes "visit E c from_ms fc st w = Some (Returns (Inr d, w'))"
  shows "dr_next_cursor d \<noteq> None \<and> (\<forall>ch \<in> set (dr_changes d). \<not> ci_is_folder ch)"
proof -
  obtain st1 chs1 more1 off1 w1 where
    z: "zoho_pages E c (fc_folder_id fc) from_ms (fc_next_offset fc) st [] w =
      Some (Returns (Inr (st1, chs1, more1, off1), w1))"
    and d: "dr_next_cursor d \<noteq> None" "dr_changes d = chs1"
    using assms by (auto simp: visit_def Let_def split: prod.splits)
  from zoho_pages_result [OF z] d show ?thesis by simp
qed

lemma zoho_list_changes_ok:
  "zoho_list_changes E c cursor w = Some (Returns (Inr d, w')) \<Longrightarrow>
     dr_next_cursor d \<noteq> None \<and> (\<forall>ch \<in> set (dr_changes d). \<not> ci_is_folder ch)"
proof -
  assume "zoho_list_changes E c cursor w = Some (Returns (Inr d, w'))"
  then obtain st from_ms w1 where r: "(case zu_queue st of [] \<Rightarrow> restart E st
      | fc # queue \<Rightarrow> visit E c from_ms fc (st\<lparr>zu_queue := queue\<rparr>)) w1 = Some (Returns (Inr d, w'))"
    by (auto simp: zoho_list_changes_def)
  show ?thesis
  proof (cases "zu_queue st")
    case Nil
    with r show ?thesis by (auto simp: restart_def)
  next
    case (Cons fc q)
    with r show ?thesis using visit_ok by simp
  qed
qed

interpretation zoho: source_connector "\<lambda>_. True" "\<lambda>(E, c). zoho_connector E c"
  by unfold_locales (auto simp: zoho_connector_def dest: zoho_list_changes_ok split: prod.splits)

section \<open>Properties\<close>

text \<open>
  C12. The crawl is complete: with a server that pages correctly, calling \<open>list_changes\<close> from no cursor
  until \<open>more\<close> is false ends, after at most one call per folder reachable from the root and one more,
  and reports exactly the files of the reachable folders, cycles and shared subfolders included.
\<close>

theorem zoho_crawl_complete:
  assumes "serves E c kids page" and "token_ok E (zl_tokens c)" and "json_ok E" and "finite (reach kids (zl_root_id c))"
  shows "\<exists>chs. zoho_crawl E c (Suc (card (reach kids (zl_root_id c)))) None w = Some chs \<and>
     set chs = {change_of f i | f i. f \<in> reach kids (zl_root_id c) \<and> i \<in> set (kids f) \<and> \<not> zi_is_folder i}"
proof -
  let ?st = "bootstrap (za_now_ms E (zw_tick w)) (zl_root_id c)"
  have ld: "load_state E c None w = Some (Returns (Inr ?st, w\<lparr>zw_tick := zw_tick w + 1\<rparr>))"
    by (simp add: load_state_def now_ms_def io_defs)
  have "zu_queue ?st \<noteq> []" "todo kids (zl_root_id c) ?st \<le> Suc (card (reach kids (zl_root_id c)))"
    by (simp_all add: bootstrap_def todo_def)
  from crawl_from [OF assms refl bfs_inv_bootstrap ld this] obtain chs D' where
    "zoho_crawl E c (Suc (card (reach kids (zl_root_id c)))) None w = Some chs"
    "set chs = (\<Union>f \<in> D'. set (files_of kids f))" "D' = reach kids (zl_root_id c)" by auto
  then show ?thesis by (auto simp: files_of_def)
qed

text \<open>
  C17. The OAuth token stays in the EU zone: whatever the servers answer, a download makes at most
  \<open>MAX_REDIRECTS\<close> requests, and a request other than to the download URL itself carries the token only
  if its host is \<open>zoho.eu\<close> or ends in \<open>.zoho.eu\<close> or \<open>.zohocdn.com\<close>.
\<close>

theorem token_confined:
  assumes "zoho_download E c item w = Some (Returns (r, w'))"
  shows "\<exists>new. zw_sent w' = zw_sent w @ new \<and> length new \<le> MAX_REDIRECTS \<and>
     (\<forall>(u, token) \<in> set new. token = None \<or>
        (\<exists>s v. za_parse_url E s = Inr v \<and> url_str v = u \<and>
           (s = zl_api_base c @ ''/files/'' @ ci_remote_id item @ ''/download'' \<or>
            is_trusted_zoho_host (unwrap_or [] (url_host v)))))"
proof (cases "za_parse_url E (zl_api_base c @ ''/files/'' @ ci_remote_id item @ ''/download'')")
  case (Inl e)
  then show ?thesis using assms by (simp add: zoho_download_def io_err_def)
next
  let ?S = "\<lambda>start. sends (own_post (zl_tokens c)) (token_safe E start) (client_chain E c)"
  case (Inr start)
  with assms have dl: "dl_loop E c MAX_REDIRECTS start True w = Some (Returns (r, w'))"
    by (simp add: zoho_download_def download_with_trusted_auth_def)
  have "keeps (?S start) (dl_loop E c MAX_REDIRECTS start True)"
    by (rule dl_loop_sends) (simp add: token_safe_def)
  with dl have "?S start w w'" unfolding keeps_def by blast
  then obtain new where n: "zw_sent w' = zw_sent w @ new" "\<forall>r \<in> set new. token_safe E start r"
    unfolding sends_def adds_def by blast
  moreover have "length new \<le> MAX_REDIRECTS" using dl_loop_count [OF dl] n(1) by simp
  moreover have "token = None \<or> (\<exists>s v. za_parse_url E s = Inr v \<and> url_str v = u \<and>
           (s = zl_api_base c @ ''/files/'' @ ci_remote_id item @ ''/download'' \<or>
            is_trusted_zoho_host (unwrap_or [] (url_host v))))" if "(u, token) \<in> set new" for u token
  proof -
    have "token_safe E start (u, token)" using n(2) that by blast
    then consider "token = None" | "u = url_str start" | s v where "za_parse_url E s = Inr v" "url_str v = u"
        "is_trusted_zoho_host (unwrap_or [] (url_host v))" unfolding token_safe_def by blast
    then show ?thesis using Inr by cases blast+
  qed
  ultimately show ?thesis by blast
qed

text \<open>
  C39. A listing can run forever: against a server that keeps answering an empty page with
  \<open>more_records\<close> set, a call on a cursor at that folder never returns.
\<close>

theorem listing_can_diverge:
  assumes "stuck E c (fc_folder_id fc)" and "token_ok E (zl_tokens c)"
    and "za_from_json E s = Some st" and "zu_queue st = fc # q" and "0 \<le> zu_watermark_ms st"
  shows "zoho_list_changes E c (Some s) w = None"
proof -
  obtain from_ms where "from_ms_of (za_debug E) (zu_watermark_ms st) = Returns from_ms"
    using assms(5) by (simp add: from_ms_of_def WATERMARK_OVERLAP_MS_def Let_def)
  then show ?thesis
    using assms(3,4) zoho_pages_stuck [OF assms(1,2)]
    by (simp add: zoho_list_changes_def load_state_def from_json_def io_defs io_run_def visit_def)
qed

text \<open>
  Spilling a large body to a file is invisible: if the file operations succeed, a body is returned
  exactly when its stream has no error, and then it is the concatenation of the stream, whatever
  length the server announced.
\<close>

theorem spill_is_invisible:
  assumes "\<forall>i. za_file_fault E i = None"
  shows "stream_body E body = Inr bs \<longleftrightarrow> collect_bytes (db_chunks body) = Inr bs"
  using spill_loop_ok [OF assms, of 1 "db_chunks body" "[]"] assms
  by (auto simp: stream_body_def Let_def and_then_Inl_iff split: option.splits sum.splits prod.splits)

text \<open>
  The time stamp of a non-negative epoch: the time of day is exact, and the date fields are the day
  number in years of 365 days and months of 30, so the month is 13 from day 360 of a year on.
\<close>

theorem epoch_fields:
  assumes "0 \<le> ms"
  shows "\<exists>y mo d h mi s. format_epoch_ms ms = pad_zero 4 y @ ''-'' @ pad_zero 2 mo @ ''-'' @ pad_zero 2 d @ ''T'' @
       pad_zero 2 h @ '':'' @ pad_zero 2 mi @ '':'' @ pad_zero 2 s @ ''Z'' \<and>
     nat (ms div 1000) = ((y - 1970) * 365 + (mo - 1) * 30 + (d - 1)) * 86400 + h * 3600 + mi * 60 + s \<and>
     1970 \<le> y \<and> 1 \<le> mo \<and> mo \<le> 13 \<and> 1 \<le> d \<and> d \<le> 30 \<and> h < 24 \<and> mi < 60 \<and> s < 60 \<and>
     (mo = 13 \<longleftrightarrow> 360 \<le> nat (ms div 1000) div 86400 mod 365)"
proof -
  define t where "t = nat (ms div 1000)"
  define days where "days = t div 86400"
  have f: "format_epoch_ms ms = pad_zero 4 (1970 + days div 365) @ ''-'' @ pad_zero 2 (days mod 365 div 30 + 1) @ ''-'' @
      pad_zero 2 (days mod 365 mod 30 + 1) @ ''T'' @ pad_zero 2 (t div 3600 mod 24) @ '':'' @
      pad_zero 2 (t div 60 mod 60) @ '':'' @ pad_zero 2 (t mod 60) @ ''Z''"
    using epoch_secs_nonneg [OF assms] by (simp add: format_epoch_ms_def Let_def t_def days_def)
  have day: "days = days div 365 * 365 + days mod 365 div 30 * 30 + days mod 365 mod 30"
    using div_mult_mod_eq [of days 365] div_mult_mod_eq [of "days mod 365" 30] by linarith
  have "t = t div 60 * 60 + t mod 60" "t div 60 = t div 3600 * 60 + t div 60 mod 60"
    "t div 3600 = t div 86400 * 24 + t div 3600 mod 24"
    using div_mult_mod_eq [of t 60] div_mult_mod_eq [of "t div 60" 60] div_mult_mod_eq [of "t div 3600" 24]
    by (simp_all add: div_mult2_eq [symmetric])
  then have "t = t div 86400 * 86400 + t div 3600 mod 24 * 3600 + t div 60 mod 60 * 60 + t mod 60"
    by linarith
  then have "t = days * 86400 + t div 3600 mod 24 * 3600 + t div 60 mod 60 * 60 + t mod 60"
    by (simp add: days_def)
  then have dec: "t = (days div 365 * 365 + days mod 365 div 30 * 30 + days mod 365 mod 30) * 86400 +
      t div 3600 mod 24 * 3600 + t div 60 mod 60 * 60 + t mod 60" by (simp only: day [symmetric])
  have mo: "days mod 365 div 30 \<le> 12" "days mod 365 div 30 = 12 \<longleftrightarrow> 360 \<le> days mod 365"
    using mod_less_divisor [of 365 days] by linarith+
  show ?thesis
  proof (intro exI conjI)
    show "format_epoch_ms ms = pad_zero 4 (1970 + days div 365) @ ''-'' @ pad_zero 2 (days mod 365 div 30 + 1) @ ''-'' @
      pad_zero 2 (days mod 365 mod 30 + 1) @ ''T'' @ pad_zero 2 (t div 3600 mod 24) @ '':'' @
      pad_zero 2 (t div 60 mod 60) @ '':'' @ pad_zero 2 (t mod 60) @ ''Z''" by (rule f)
    show "nat (ms div 1000) = (((1970 + days div 365) - 1970) * 365 + ((days mod 365 div 30 + 1) - 1) * 30 +
        ((days mod 365 mod 30 + 1) - 1)) * 86400 + t div 3600 mod 24 * 3600 + t div 60 mod 60 * 60 + t mod 60"
      using dec by (simp only: t_def [symmetric] add_diff_cancel_left' add_diff_cancel_right')
    show "(days mod 365 div 30 + 1 = 13) = (360 \<le> nat (ms div 1000) div 86400 mod 365)"
      using mo(2) by (simp only: t_def [symmetric] days_def [symmetric]) simp
    show "days mod 365 div 30 + 1 \<le> 13" using mo(1) by simp
    have "days mod 365 mod 30 < 30" by simp
    then show "days mod 365 mod 30 + 1 \<le> 30" by linarith
  qed simp_all
qed

section \<open>A concrete client\<close>

text \<open>A printable form of cursors: numbers in unary, lists and strings with their length.\<close>

definition ser_nat :: "nat \<Rightarrow> string" where
  "ser_nat n = replicate n (CHR ''1'') @ ''0''"

definition de_nat :: "string \<Rightarrow> nat \<times> string" where
  "de_nat s = (length (takeWhile (\<lambda>c. c = CHR ''1'') s), drop 1 (dropWhile (\<lambda>c. c = CHR ''1'') s))"

definition ser_str :: "string \<Rightarrow> string" where
  "ser_str s = ser_nat (length s) @ s"

definition de_str :: "string \<Rightarrow> string \<times> string" where
  "de_str s = (case de_nat s of (n, r) \<Rightarrow> (take n r, drop n r))"

definition ser_list :: "('a \<Rightarrow> string) \<Rightarrow> 'a list \<Rightarrow> string" where
  "ser_list f xs = ser_nat (length xs) @ concat (map f xs)"

fun de_times :: "(string \<Rightarrow> 'a \<times> string) \<Rightarrow> nat \<Rightarrow> string \<Rightarrow> 'a list \<times> string" where
  "de_times d 0 s = ([], s)"
| "de_times d (Suc n) s = (case d s of (x, r) \<Rightarrow> case de_times d n r of (xs, r') \<Rightarrow> (x # xs, r'))"

definition de_list :: "(string \<Rightarrow> 'a \<times> string) \<Rightarrow> string \<Rightarrow> 'a list \<times> string" where
  "de_list d s = (case de_nat s of (n, r) \<Rightarrow> de_times d n r)"

definition ser_int :: "int \<Rightarrow> string" where
  "ser_int i = (if i < 0 then CHR ''-'' # ser_nat (nat (- i)) else CHR ''+'' # ser_nat (nat i))"

definition de_int :: "string \<Rightarrow> int \<times> string" where
  "de_int s = (case de_nat (drop 1 s) of (n, r) \<Rightarrow> (if hd s = CHR ''-'' then - int n else int n, r))"

definition ser_fc :: "folder_cursor \<Rightarrow> string" where
  "ser_fc fc = ser_str (fc_folder_id fc) @ ser_nat (unat (fc_next_offset fc))"

definition de_fc :: "string \<Rightarrow> folder_cursor \<times> string" where
  "de_fc s = (case de_str s of (i, r) \<Rightarrow> case de_nat r of (n, r') \<Rightarrow>
     (\<lparr>fc_folder_id = i, fc_next_offset = of_nat n\<rparr>, r'))"

definition ser_cursor :: "zoho_cursor \<Rightarrow> string" where
  "ser_cursor c = ser_int (zu_watermark_ms c) @ ser_list ser_fc (zu_queue c) @ ser_list ser_str (zu_visited c) @
     ser_str (zu_root_id c) @ ser_int (zu_run_started_ms c)"

definition de_cursor :: "string \<Rightarrow> zoho_cursor" where
  "de_cursor s = (case de_int s of (wm, r) \<Rightarrow> case de_list de_fc r of (q, r) \<Rightarrow> case de_list de_str r of (v, r) \<Rightarrow>
     case de_str r of (i, r) \<Rightarrow> case de_int r of (st, r) \<Rightarrow>
     \<lparr>zu_watermark_ms = wm, zu_queue = q, zu_visited = v, zu_root_id = i, zu_run_started_ms = st\<rparr>)"

lemma de_nat_ser [simp]: "de_nat (ser_nat n @ r) = (n, r)"
  by (induction n) (simp_all add: de_nat_def ser_nat_def)

lemma de_str_ser [simp]: "de_str (ser_str s @ r) = (s, r)"
  by (simp add: de_str_def ser_str_def)

lemma de_int_ser [simp]: "de_int (ser_int i @ r) = (i, r)"
  by (simp add: de_int_def ser_int_def)

lemma de_fc_ser [simp]: "de_fc (ser_fc fc @ r) = (fc, r)"
  by (simp add: de_fc_def ser_fc_def)

lemma de_list_ser:
  assumes "\<And>x r. d (f x @ r) = (x, r)"
  shows "de_list d (ser_list f xs @ r) = (xs, r)"
proof -
  have "de_times d (length xs) (concat (map f xs) @ r) = (xs, r)"
    by (induction xs) (simp_all add: assms)
  then show ?thesis by (simp add: de_list_def ser_list_def)
qed

lemma de_cursor_ser: "de_cursor (ser_cursor c) = c"
  using de_int_ser [of "zu_run_started_ms c" "[]"]
  by (simp add: de_cursor_def ser_cursor_def de_list_ser)

definition toy_creds :: zoho_credentials where
  "toy_creds = \<lparr>zc_client_id = ''id'', zc_client_secret = ''cs'', zc_refresh_token = ''rt'', zc_dc = ''eu''\<rparr>"

definition toy_client :: zoho_client where
  "toy_client = \<lparr>zl_id = ''z'', zl_tokens = token_cache_new toy_creds default_policy, zl_api_base = ''https://w'',
     zl_download_client = NoRedirects, zl_root_id = ''R''\<rparr>"

definition toy_item :: "string \<Rightarrow> string \<Rightarrow> zoho_file_item" where
  "toy_item i k = \<lparr>zi_id = i, zi_name = Some i, zi_kind = Some k, zi_modified_time = None, zi_status = None,
     zi_permalink = None\<rparr>"

text \<open>A root with a file and a subfolder, which holds a file and the root again.\<close>

definition toy_kids :: "string \<Rightarrow> zoho_file_item list" where
  "toy_kids f = (if f = ''R'' then [toy_item ''x'' ''file'', toy_item ''A'' ''folder'']
     else if f = ''A'' then [toy_item ''R'' ''folder'', toy_item ''y'' ''file''] else [])"

definition toy_prefix :: "string \<Rightarrow> string" where
  "toy_prefix f = ''https://w/files/'' @ f @ ''/files?offset=''"

definition toy_list :: "string \<Rightarrow> list_answer" where
  "toy_list u =
     (let f = (if starts_with u (toy_prefix ''R'') then ''R'' else ''A'') in
      page_answer toy_kids 1 f (dec_value (takeWhile is_digit_char (drop (length (toy_prefix f)) u))))"

definition toy_zoho :: zoho_env where
  "toy_zoho = \<lparr>ze_now = (\<lambda>_. 0), ze_instant_end = nanos 1000000,
     ze_oauth = (\<lambda>_ _ _. Answer 200 (Some \<lparr>to_access_token = Some ''tok'', to_expires_in = Some 3600, to_error = None\<rparr>)),
     ze_hops = (\<lambda>_ _ _ _. []), za_now_ms = (\<lambda>_. 0), za_list = (\<lambda>_. toy_list),
     za_get = (\<lambda>_ u. if u = ''https://w/files/x/download''
                then DlAnswer 302 (Some (Some ''http://evil.com'')) \<lparr>db_content_length = None, db_chunks = []\<rparr>
                else DlAnswer 200 None \<lparr>db_content_length = None, db_chunks = [Inr [1], Inr [2]]\<rparr>),
     za_parse_url = (\<lambda>u. Inr \<lparr>url_str = u, url_scheme = takeWhile (\<lambda>c. c \<noteq> CHR '':'') u,
        url_host = Some (takeWhile (\<lambda>c. c \<noteq> CHR ''/'') (drop 2 (dropWhile (\<lambda>c. c \<noteq> CHR ''/'') u)))\<rparr>),
     za_to_json = (\<lambda>c. Inr (ser_cursor c)), za_from_json = (\<lambda>s. Some (de_cursor s)),
     za_file_fault = (\<lambda>_. None), za_debug = True\<rparr>"

lemma toy_now [simp]: "ze_now toy_zoho t = 0" and toy_hops [simp]: "ze_hops toy_zoho t u f k = []"
  by (simp_all add: toy_zoho_def)

lemma toy_answer [simp]: "token_of_answer toy_zoho 0 (ze_oauth toy_zoho t u f) =
    Returns (Inr \<lparr>ct_access_token = ''tok'', ct_expires_at = nanos 3300\<rparr>)"
  by (simp add: token_of_answer_Inr toy_zoho_def nanos_def is_success_def)

lemma toy_token: "token_ok toy_zoho T"
proof -
  have fresh: "\<exists>t. cached_fresh toy_zoho 0 c = Returns t" for c
    by (cases c) (auto simp: cached_fresh_def is_fresh_def instant_add_def toy_zoho_def nanos_def
        ACCESS_TOKEN_TTL_SAFETY_SECS_def)
  have c: "yields (check_cache toy_zoho)"
    unfolding yields_def
  proof
    fix w :: zoho_world
    show "\<exists>x w'. check_cache toy_zoho w = Some (Returns (Inr x, w'))"
      using fresh [of "zw_cache w"] by (auto simp: check_cache_def)
  qed
  have r: "yields (call_oauth_refresh toy_zoho T)"
    by (simp add: yields_def call_oauth_refresh_def)
  have s: "yields (store_token t)" for t
    by (simp add: yields_def store_token_def)
  have "yields (refresh_if_needed toy_zoho T)"
    unfolding refresh_if_needed_def
    by (intro yields_bind c r s yields_ret | split option.split | intro conjI allI impI)+
  then show ?thesis by (simp add: token_ok_def yields_def)
qed

lemma toy_json: "json_ok toy_zoho"
  by (simp add: json_ok_def toy_zoho_def de_cursor_ser)

lemma toy_reach: "reach toy_kids ''R'' \<subseteq> {''R'', ''A''}"
proof
  fix f assume "f \<in> reach toy_kids ''R''"
  then show "f \<in> {''R'', ''A''}"
    by induction (auto simp: toy_kids_def toy_item_def zi_is_folder_def split: if_splits)
qed

lemma takeWhile_digits:
  "\<not> is_digit_char c \<Longrightarrow> takeWhile is_digit_char (show_nat n @ c # r) = show_nat n"
  using show_nat_digits [of n] by (simp add: list_all_iff)

lemma toy_offset:
  "takeWhile is_digit_char (show_nat n @ CHR ''&'' # r) = show_nat n"
  by (rule takeWhile_digits) (simp add: is_digit_char_def)

lemma toy_serves: "serves toy_zoho toy_client toy_kids 1"
  unfolding serves_def
proof (intro conjI ballI allI)
  fix f assume "f \<in> reach toy_kids (zl_root_id toy_client)"
  then have f: "f = ''R'' \<or> f = ''A''" using toy_reach by (auto simp: toy_client_def)
  then show "length (toy_kids f) < 2 ^ 32" by (auto simp: toy_kids_def)
  fix t offset "from"
  show "za_list toy_zoho t (list_url toy_client f offset from) = page_answer toy_kids 1 f (unat offset)"
    using f by (auto simp: toy_zoho_def toy_list_def list_url_def toy_client_def toy_prefix_def starts_with_def
        toy_offset Let_def)
qed simp

lemma toy_reach_eq: "reach toy_kids ''R'' = {''R'', ''A''}"
proof
  have r: "''R'' \<in> reach toy_kids ''R''" by (rule reach.root)
  have "zi_id (toy_item ''A'' ''folder'') \<in> reach toy_kids ''R''"
    by (rule reach.child [OF r]) (simp_all add: toy_kids_def zi_is_folder_def toy_item_def)
  then show "{''R'', ''A''} \<subseteq> reach toy_kids ''R''" using r by (simp add: toy_item_def)
qed (rule toy_reach)

definition toy_world :: zoho_world where
  "toy_world = \<lparr>zw_tick = 0, zw_cache = None, zw_posts = [], zw_sent = [], zw_chains = []\<rparr>"

theorem zoho_crawl_complete_witness:
  "\<exists>chs. zoho_crawl toy_zoho toy_client 3 None toy_world = Some chs \<and> ci_remote_id ` set chs = {''x'', ''y''}"
proof -
  have R: "reach toy_kids (zl_root_id toy_client) = {''R'', ''A''}"
    using toy_reach_eq by (simp add: toy_client_def)
  then have "finite (reach toy_kids (zl_root_id toy_client))" by simp
  from zoho_crawl_complete [OF toy_serves toy_token toy_json this, of toy_world] R
  obtain chs where chs: "zoho_crawl toy_zoho toy_client 3 None toy_world = Some chs"
    "set chs = {change_of f i | f i. f \<in> {''R'', ''A''} \<and> i \<in> set (toy_kids f) \<and> \<not> zi_is_folder i}"
    by (auto simp: numeral_3_eq_3)
  have "set chs = (\<Union>f \<in> {''R'', ''A''}. change_of f ` set (filter (\<lambda>i. \<not> zi_is_folder i) (toy_kids f)))"
    unfolding chs(2) by auto
  also have "\<dots> = {change_of ''R'' (toy_item ''x'' ''file''), change_of ''A'' (toy_item ''y'' ''file'')}"
  proof -
    have "filter (\<lambda>i. \<not> zi_is_folder i) (toy_kids ''R'') = [toy_item ''x'' ''file'']"
      "filter (\<lambda>i. \<not> zi_is_folder i) (toy_kids ''A'') = [toy_item ''y'' ''file'']"
      by (simp_all add: toy_kids_def toy_item_def zi_is_folder_def)
    then show ?thesis by (simp del: set_filter add: insert_commute)
  qed
  finally have "ci_remote_id ` set chs = {''x'', ''y''}"
    by (simp add: change_of_def toy_item_def)
  with chs show ?thesis by blast
qed

definition toy_change :: change_item where
  "toy_change = \<lparr>ci_remote_id = ''x'', ci_parent_id = None, ci_name = [], ci_is_folder = False,
     ci_modified_at = None, ci_deleted = False, ci_raw = JNull\<rparr>"

definition toy_post :: "string \<times> form" where
  "toy_post = (oauth_url (zl_tokens toy_client), oauth_form (zl_tokens toy_client))"

lemma toy_refresh: "refresh_if_needed toy_zoho (zl_tokens toy_client) toy_world = Some (Returns (Inr ''tok'',
    \<lparr>zw_tick = 4, zw_cache = Some \<lparr>ct_access_token = ''tok'', ct_expires_at = nanos 3300\<rparr>,
     zw_posts = [toy_post], zw_sent = [], zw_chains = [(fst toy_post, [])]\<rparr>))"
  by (simp add: refresh_if_needed_def check_cache_def call_oauth_refresh_def store_token_def io_defs
      cached_fresh_def toy_world_def toy_post_def hops_by_def)

lemma toy_parse_url: "za_parse_url toy_zoho u = Inr \<lparr>url_str = u, url_scheme = takeWhile (\<lambda>c. c \<noteq> CHR '':'') u,
    url_host = Some (takeWhile (\<lambda>c. c \<noteq> CHR ''/'') (drop 2 (dropWhile (\<lambda>c. c \<noteq> CHR ''/'') u)))\<rparr>"
  by (simp add: toy_zoho_def)

lemma toy_get: "za_get toy_zoho t u = (if u = ''https://w/files/x/download''
    then DlAnswer 302 (Some (Some ''http://evil.com'')) \<lparr>db_content_length = None, db_chunks = []\<rparr>
    else DlAnswer 200 None \<lparr>db_content_length = None, db_chunks = [Inr [1], Inr [2]]\<rparr>)"
  by (simp add: toy_zoho_def)

lemma toy_download:
  "zoho_download toy_zoho toy_client toy_change toy_world = Some (Returns (Inr [1, 2],
     \<lparr>zw_tick = 6, zw_cache = Some \<lparr>ct_access_token = ''tok'', ct_expires_at = nanos 3300\<rparr>,
      zw_posts = [toy_post], zw_sent = [(''https://w/files/x/download'', Some ''tok''), (''http://evil.com'', None)],
      zw_chains = [(fst toy_post, []), (''https://w/files/x/download'', []), (''http://evil.com'', [])]\<rparr>))"
proof -
  obtain n where five: "MAX_REDIRECTS = Suc (Suc n)" by (rule that [of 3]) (simp add: MAX_REDIRECTS_def)
  have base: "zl_api_base toy_client = ''https://w''" by (simp add: toy_client_def)
  show ?thesis
    by (simp add: zoho_download_def download_with_trusted_auth_def five toy_parse_url toy_get toy_refresh io_defs
        send_def hops_by_def Let_def is_redirection_def is_success_def is_trusted_zoho_host_def
        ends_with_def stream_body_def base toy_change_def)
qed

theorem token_confined_witness:
  "\<exists>r w'. zoho_download toy_zoho toy_client toy_change toy_world = Some (Returns (r, w')) \<and>
     zw_sent w' = [(''https://w/files/x/download'', Some ''tok''), (''http://evil.com'', None)] \<and>
     length (zw_sent w') \<le> MAX_REDIRECTS"
  using token_confined [OF toy_download] toy_download by (auto simp: toy_world_def)

theorem listing_can_diverge_witness:
  "zoho_list_changes (toy_zoho\<lparr>za_list := \<lambda>_ _. ListAnswer 200 None
       (Inr \<lparr>fl_data = Some [], fl_info = Some \<lparr>zg_more_records = Some True\<rparr>\<rparr>)\<rparr>) toy_client
     (Some (ser_cursor (bootstrap 0 ''R''))) toy_world = None"
proof (rule listing_can_diverge)
  let ?E = "toy_zoho\<lparr>za_list := \<lambda>_ _. ListAnswer 200 None (Inr \<lparr>fl_data = Some [], fl_info = Some \<lparr>zg_more_records = Some True\<rparr>\<rparr>)\<rparr>"
  show "stuck ?E toy_client (fc_folder_id \<lparr>fc_folder_id = ''R'', fc_next_offset = 0\<rparr>)" by (simp add: stuck_def)
  have "refresh_if_needed ?E T = refresh_if_needed toy_zoho T" for T by (rule refresh_cong) simp_all
  then show "token_ok ?E (zl_tokens toy_client)" using toy_token by (simp add: token_ok_def)
  show "za_from_json ?E (ser_cursor (bootstrap 0 ''R'')) = Some (bootstrap 0 ''R'')"
    by (simp add: toy_zoho_def de_cursor_ser)
qed (simp_all add: bootstrap_def)

theorem spill_is_invisible_witness:
  "stream_body toy_zoho \<lparr>db_content_length = Some 10000000, db_chunks = [Inr [1], Inr [2]]\<rparr> = Inr [1, 2]"
  by (subst spill_is_invisible) (simp_all add: toy_zoho_def)

theorem epoch_fields_witness:
  "format_epoch_ms 31104000000 = ''1970-13-01T00:00:00Z'' \<and>
   (\<exists>y mo d h mi s. format_epoch_ms 31104000000 = pad_zero 4 y @ ''-'' @ pad_zero 2 mo @ ''-'' @ pad_zero 2 d @ ''T'' @
       pad_zero 2 h @ '':'' @ pad_zero 2 mi @ '':'' @ pad_zero 2 s @ ''Z'' \<and> mo = 13)"
proof
  show "format_epoch_ms 31104000000 = ''1970-13-01T00:00:00Z''"
  proof -
    have t: "epoch_secs 31104000000 = 31104000" by (subst epoch_secs_nonneg) simp_all
    have d: "show_nat n = [digit_char n]" if "n < 10" for n using that by (subst show_nat.simps) simp
    have y: "show_nat 1970 = [digit_char 1, digit_char 9, digit_char 7, digit_char 0]"
      by (subst show_nat.simps, simp, subst show_nat.simps, simp, subst show_nat.simps, simp, subst show_nat.simps, simp)
    have m: "show_nat 13 = [digit_char 1, digit_char 3]"
      by (subst show_nat.simps, simp, subst show_nat.simps, simp)
    show ?thesis
      by (simp add: format_epoch_ms_def t Let_def pad_zero_def y m d) (simp add: digit_char_def char_of_def bit_0)
  qed
  show "\<exists>y mo d h mi s. format_epoch_ms 31104000000 = pad_zero 4 y @ ''-'' @ pad_zero 2 mo @ ''-'' @ pad_zero 2 d @ ''T'' @
       pad_zero 2 h @ '':'' @ pad_zero 2 mi @ '':'' @ pad_zero 2 s @ ''Z'' \<and> mo = 13"
  proof -
    have "(0::int) \<le> 31104000000" by simp
    from epoch_fields [OF this] obtain y mo d h mi s where
      f: "format_epoch_ms 31104000000 = pad_zero 4 y @ ''-'' @ pad_zero 2 mo @ ''-'' @ pad_zero 2 d @ ''T'' @
        pad_zero 2 h @ '':'' @ pad_zero 2 mi @ '':'' @ pad_zero 2 s @ ''Z''"
      and m: "mo = 13 \<longleftrightarrow> 360 \<le> nat (31104000000 div 1000) div 86400 mod 365" by (elim exE conjE) rule
    have "mo = 13" unfolding m by simp
    with f show ?thesis by (intro exI conjI)
  qed
qed

end
