(* ===== verification/Ingestion.thy ===== *)
theory Ingestion
  imports Chunker Crypto Chunk_Db Embed Cursor_State Graph Zoho
begin

text \<open>
  The daemon, \<open>ingestion/src/main.rs\<close>: text extraction, \<open>build_zoho_connector\<close>, the poll cycle
  \<open>run_cycle\<close> over any connector, and \<open>main\<close>'s configuration and pass over the connectors.

  The state of a daemon is a record with the world of the connectors (a type \<open>'w\<close>), the table of
  chunks, the saved cursors, and the ticks of the embedding service and of the random generator. Every
  error path of the cycle that the code logs and skips leaves the item out and goes on.

  The proofs use the components through their interfaces: \<open>pgc\<close> (the chunk store), \<open>cursor_table\<close> (the
  cursors) and the AEAD laws.
\<close>

section \<open>Text extraction\<close>

text \<open>
  \<open>to_lowercase\<close> on the ASCII letters. No other character has a lower case with a letter of the
  extensions below, so the suffix tests are those of the code.
\<close>

definition lower_char :: "char \<Rightarrow> char" where
  "lower_char c = (let n = of_char c :: nat in if 65 \<le> n \<and> n \<le> 90 then char_of (n + 32) else c)"

definition extract_text :: "bytes \<Rightarrow> string \<Rightarrow> string" where
  "extract_text content filename =
     (let lower = map lower_char filename in
      if ends_with lower ''.txt'' \<or> ends_with lower ''.md'' \<or> ends_with lower ''.rst''
      then from_utf8_lossy content
      else if ends_with lower ''.pdf'' \<or> ends_with lower ''.docx'' \<or> ends_with lower ''.doc'' \<or>
        ends_with lower ''.pptx'' then []
      else unwrap_or [] (from_utf8 content))"

section \<open>Configuration\<close>

text \<open>\<open>var\<close> is \<open>std::env::var(..).ok()\<close>; \<open>build\<close> the outcome of building the HTTP clients.\<close>

definition build_zoho_connector :: "(anyhow + unit) \<times> (anyhow + unit) \<Rightarrow> (string \<Rightarrow> string option) \<Rightarrow>
    anyhow + zoho_client option" where
  "build_zoho_connector build var =
     (let client_id = var ''ZOHO_CLIENT_ID''; client_secret = var ''ZOHO_CLIENT_SECRET'';
          refresh_token = var ''ZOHO_REFRESH_TOKEN''; root_id = var ''ZOHO_ROOT_ID'' in
      if client_id = None \<and> client_secret = None \<and> refresh_token = None then Inr None
      else
        and_then (ok_or (''ZOHO_CLIENT_ID not set '' @ em_dash @ '' skipping zoho connector'') client_id) (\<lambda>client_id.
        and_then (ok_or (''ZOHO_CLIENT_SECRET not set '' @ em_dash @ '' skipping zoho connector'') client_secret) (\<lambda>client_secret.
        and_then (ok_or (''ZOHO_REFRESH_TOKEN not set '' @ em_dash @ '' skipping zoho connector'') refresh_token) (\<lambda>refresh_token.
        and_then (ok_or (''ZOHO_ROOT_ID not set '' @ em_dash @ '' skipping zoho connector'') root_id) (\<lambda>root_id.
          let dc = unwrap_or ''eu'' (var ''ZOHO_DC'');
              connector_id = unwrap_or (''zoho:'' @ root_id) (var ''ZOHO_CONNECTOR_ID'');
              creds = \<lparr>zc_client_id = client_id, zc_client_secret = client_secret,
                       zc_refresh_token = refresh_token, zc_dc = dc\<rparr>
          in map_sum id Some (zoho_new build creds connector_id root_id))))))"

record args =
  ar_content_key :: string
  ar_database_url :: string
  ar_tei_base_url :: string
  ar_tenant_id :: string
  ar_client_id :: string
  ar_client_secret :: string
  ar_drive_id :: string
  ar_classification :: string
  ar_poll_interval_secs :: nat
  ar_embed_batch_size :: nat
  ar_once :: bool

section \<open>The state of the daemon\<close>

record 'w daemon =
  dm_world :: 'w
  dm_db :: db
  dm_cursors :: cursors
  dm_tei :: nat
  dm_rng :: nat

record 'f ingest_env =
  in_pg :: "'f pg"
  in_embed :: "'f embed_env"
  in_state :: state_env
  in_aead :: aead
  in_iv :: "nat \<Rightarrow> bytes option"

text \<open>What a cycle is given: the embedding client, the arguments it reads and the key.\<close>

record cycle_conf =
  cc_tei :: tei_client
  cc_classification :: string
  cc_key :: bytes

section \<open>One item\<close>

text \<open>Collecting into a \<open>Result\<close> stops at the first error.\<close>

fun encrypt_all :: "'f ingest_env \<Rightarrow> bytes \<Rightarrow> string list \<Rightarrow> nat \<Rightarrow> (anyhow + bytes list) \<times> nat" where
  "encrypt_all E key [] t = (Inr [], t)"
| "encrypt_all E key (c # cs) t =
     (case encrypt (in_aead E) (in_iv E t) key (as_bytes c) of
        Inl e \<Rightarrow> (Inl e, t + 1)
      | Inr enc \<Rightarrow>
          (case encrypt_all E key cs (t + 1) of
             (Inl e, t') \<Rightarrow> (Inl e, t')
           | (Inr encs, t') \<Rightarrow> (Inr (enc # encs), t')))"

text \<open>From the chunks on: encrypt, embed, upsert. The boolean says whether the item counts as processed.\<close>

definition store_chunks :: "'f ingest_env \<Rightarrow> cycle_conf \<Rightarrow> change_item \<Rightarrow> string list \<Rightarrow> 'w daemon \<Rightarrow>
    (bool \<times> 'w daemon) run" where
  "store_chunks E cc item chunks d =
     (case encrypt_all E (cc_key cc) chunks (dm_rng d) of
        (Inl _, t) \<Rightarrow> Returns (False, d\<lparr>dm_rng := t\<rparr>)
      | (Inr encrypted, t) \<Rightarrow>
          (case embed_batch (in_embed E) (cc_tei cc) chunks (dm_tei d) of
             (Inl _, u) \<Rightarrow> Returns (False, d\<lparr>dm_rng := t, dm_tei := u\<rparr>)
           | (Inr embeddings, u) \<Rightarrow>
               run_map (\<lambda>(r, db). (r = Inr (), d\<lparr>dm_rng := t, dm_tei := u, dm_db := db\<rparr>))
                 (upsert_chunks (in_pg E) (ci_remote_id item) (ci_name item) (cc_classification cc)
                    encrypted embeddings (dm_db d))))"

definition store_content :: "'f ingest_env \<Rightarrow> cycle_conf \<Rightarrow> change_item \<Rightarrow> bytes \<Rightarrow> 'w daemon \<Rightarrow>
    (bool \<times> 'w daemon) run" where
  "store_content E cc item content d =
     (let txt = extract_text content (ci_name item) in
      if txt = [] then Returns (False, d)
      else run_bind (chunk txt) (\<lambda>r. case r of
          Inl _ \<Rightarrow> Returns (False, d)
        | Inr chunks \<Rightarrow> if chunks = [] then Returns (False, d) else store_chunks E cc item chunks d))"

definition ingest_item :: "'f ingest_env \<Rightarrow> cycle_conf \<Rightarrow> 'w connector \<Rightarrow> change_item \<Rightarrow> 'w daemon \<Rightarrow>
    (bool \<times> 'w daemon) run option" where
  "ingest_item E cc conn item d =
     (if ci_deleted item then
        (case delete_chunks (in_pg E) (ci_remote_id item) (dm_db d) of
           (_, db) \<Rightarrow> Some (Returns (False, d\<lparr>dm_db := db\<rparr>)))
      else (case cn_download conn item (dm_world d) of
          None \<Rightarrow> None
        | Some Panics \<Rightarrow> Some Panics
        | Some (Returns (Inl _, w)) \<Rightarrow> Some (Returns (False, d\<lparr>dm_world := w\<rparr>))
        | Some (Returns (Inr content, w)) \<Rightarrow> Some (store_content E cc item content (d\<lparr>dm_world := w\<rparr>))))"

section \<open>One cycle\<close>

fun ingest_items :: "'f ingest_env \<Rightarrow> cycle_conf \<Rightarrow> 'w connector \<Rightarrow> change_item list \<Rightarrow> nat \<Rightarrow> 'w daemon \<Rightarrow>
    (nat \<times> 'w daemon) run option" where
  "ingest_items E cc conn [] processed d = Some (Returns (processed, d))"
| "ingest_items E cc conn (item # items) processed d =
     (case ingest_item E cc conn item d of
        None \<Rightarrow> None
      | Some Panics \<Rightarrow> Some Panics
      | Some (Returns (ok, d')) \<Rightarrow> ingest_items E cc conn items (if ok then processed + 1 else processed) d')"

fun show_auth_kind :: "auth_error_kind \<Rightarrow> string" where
  "show_auth_kind InvalidCode = ''InvalidCode''"
| "show_auth_kind AccessDenied = ''AccessDenied''"
| "show_auth_kind InvalidClient = ''InvalidClient''"
| "show_auth_kind Unexpected = ''Unexpected''"

fun show_connector_error :: "connector_error \<Rightarrow> string" where
  "show_connector_error (Http status) = ''http error: status='' @ show_nat status"
| "show_connector_error (Auth k) = ''auth error: '' @ show_auth_kind k"
| "show_connector_error CursorInvalid = ''cursor invalid''"
| "show_connector_error (Throttled n) = ''throttled '' @ em_dash @ '' retry after '' @ show_nat n @ ''s''"
| "show_connector_error (OtherErr s) = ''other: '' @ s"

definition finish_cycle :: "'f ingest_env \<Rightarrow> 'w connector \<Rightarrow> string option \<Rightarrow> nat \<Rightarrow> 'w daemon \<Rightarrow>
    (anyhow + nat) \<times> 'w daemon" where
  "finish_cycle E conn next_cursor processed d =
     (case next_cursor of
        None \<Rightarrow> (Inr processed, d)
      | Some c \<Rightarrow>
          (case save_cursor (in_state E) (cn_id conn) c (dm_cursors d) of
             (Inl e, cu) \<Rightarrow> (Inl (''failed to save delta cursor: '' @ e), d\<lparr>dm_cursors := cu\<rparr>)
           | (Inr _, cu) \<Rightarrow> (Inr processed, d\<lparr>dm_cursors := cu\<rparr>)))"

definition run_cycle :: "'f ingest_env \<Rightarrow> cycle_conf \<Rightarrow> 'w connector \<Rightarrow> 'w daemon \<Rightarrow>
    ((anyhow + nat) \<times> 'w daemon) run option" where
  "run_cycle E cc conn d =
     (case load_cursor (in_state E) (cn_id conn) (dm_cursors d) of
        (Inl e, cu) \<Rightarrow> Some (Returns (Inl (''failed to load delta cursor: '' @ e), d\<lparr>dm_cursors := cu\<rparr>))
      | (Inr cursor, cu) \<Rightarrow>
          (case cn_list_changes conn cursor (dm_world d) of
             None \<Rightarrow> None
           | Some Panics \<Rightarrow> Some Panics
           | Some (Returns (Inl e, w)) \<Rightarrow> Some (Returns
               (Inl (''connector list_changes failed: '' @ show_connector_error e), d\<lparr>dm_cursors := cu, dm_world := w\<rparr>))
           | Some (Returns (Inr delta, w)) \<Rightarrow>
               map_option (run_map (\<lambda>(n, d'). finish_cycle E conn (dr_next_cursor delta) n d'))
                 (ingest_items E cc conn (dr_changes delta) 0 (d\<lparr>dm_cursors := cu, dm_world := w\<rparr>))))"

section \<open>main\<close>

text \<open>A connector that works on a part of the world.\<close>

definition on_part :: "('w \<Rightarrow> 'v) \<Rightarrow> ('v \<Rightarrow> 'w \<Rightarrow> 'w) \<Rightarrow> ('v, 'a) io \<Rightarrow> ('w, 'a) io" where
  "on_part get put m w = map_option (run_map (\<lambda>(r, v). (r, put v w))) (m (get w))"

definition part_connector :: "('w \<Rightarrow> 'v) \<Rightarrow> ('v \<Rightarrow> 'w \<Rightarrow> 'w) \<Rightarrow> 'v connector \<Rightarrow> 'w connector" where
  "part_connector get put conn = \<lparr>cn_id = cn_id conn, cn_kind = cn_kind conn,
     cn_list_changes = (\<lambda>c. on_part get put (cn_list_changes conn c)),
     cn_download = (\<lambda>i. on_part get put (cn_download conn i))\<rparr>"

type_synonym world = "graph_world \<times> zoho_world"

definition build_connectors :: "graph_env \<Rightarrow> 'e zoho_env_scheme \<Rightarrow> (anyhow + unit) \<times> (anyhow + unit) \<Rightarrow>
    (string \<Rightarrow> string option) \<Rightarrow> args \<Rightarrow> world connector list" where
  "build_connectors G Z build var a =
     part_connector fst (\<lambda>g w. (g, snd w))
       (graph_connector G (fst (graph_new (ar_drive_id a) (ar_tenant_id a) (ar_client_id a) (ar_client_secret a)))) #
     (case build_zoho_connector build var of
        Inr (Some zoho) \<Rightarrow> [part_connector snd (\<lambda>z w. (fst w, z)) (zoho_connector Z zoho)]
      | Inr None \<Rightarrow> []
      | Inl _ \<Rightarrow> [])"

text \<open>The checks of the start-up, and what the cycles are given.\<close>

definition start_up :: "(string \<Rightarrow> anyhow + bytes) \<Rightarrow> (string \<Rightarrow> anyhow + unit) \<Rightarrow> args \<Rightarrow> anyhow + cycle_conf" where
  "start_up hx connect a =
     and_then (map_err (\<lambda>e. ''MCP_CONTENT_KEY is not a valid 64-char hex string: '' @ e)
       (parse_key hx (ar_content_key a))) (\<lambda>key.
     if ar_classification a \<notin> set classifications
     then Inl ''CLASSIFICATION must be one of: PUBLIC, INTERNAL, CONFIDENTIAL''
     else and_then (map_err (\<lambda>e. ''failed to connect to PostgreSQL: '' @ e) (connect (ar_database_url a))) (\<lambda>_.
       Inr \<lparr>cc_tei = embed_new (ar_tei_base_url a) (ar_embed_batch_size a),
            cc_classification = ar_classification a, cc_key = key\<rparr>))"

text \<open>One pass of the loop over the connectors: a failed cycle is logged.\<close>

fun daemon_pass :: "'f ingest_env \<Rightarrow> cycle_conf \<Rightarrow> 'w connector list \<Rightarrow> 'w daemon \<Rightarrow> 'w daemon run option" where
  "daemon_pass E cc [] d = Some (Returns d)"
| "daemon_pass E cc (conn # conns) d =
     (case run_cycle E cc conn d of
        None \<Rightarrow> None
      | Some Panics \<Rightarrow> Some Panics
      | Some (Returns (_, d')) \<Rightarrow> daemon_pass E cc conns d')"

section \<open>What an item does: proofs\<close>

lemma encrypt_all_ok:
  "encrypt_all E key cs t = (Inr encs, t') \<Longrightarrow>
     list_all2 (\<lambda>c enc. \<exists>t. encrypt (in_aead E) (in_iv E t) key (as_bytes c) = Inr enc) cs encs"
proof (induction cs arbitrary: t encs)
  case (Cons c cs)
  then show ?case by (fastforce split: sum.splits prod.splits)
qed simp

text \<open>The rows of an upsert that succeeded, seen through the cipher.\<close>

lemma store_chunks_true:
  assumes "store_chunks E cc item chunks d = Returns (True, d')"
  obtains encs embs u where "encrypt_all E (cc_key cc) chunks (dm_rng d) = (Inr encs, dm_rng d')"
    and "embed_batch (in_embed E) (cc_tei cc) chunks (dm_tei d) = (Inr embs, u)"
    and "item_view (ci_remote_id item) (db_rows (dm_db d')) = stored (pg_show (in_pg E)) 0 (zip encs embs)"
proof -
  obtain encs t embs u db where e: "encrypt_all E (cc_key cc) chunks (dm_rng d) = (Inr encs, t)"
    and b: "embed_batch (in_embed E) (cc_tei cc) chunks (dm_tei d) = (Inr embs, u)"
    and ups: "upsert_chunks (in_pg E) (ci_remote_id item) (ci_name item) (cc_classification cc) encs embs (dm_db d) =
      Returns (Inr (), db)" and d': "d' = d\<lparr>dm_rng := t, dm_tei := u, dm_db := db\<rparr>"
    using assms
    by (auto simp: store_chunks_def split: prod.splits sum.splits)
  from pgc.ups_ok [OF ups] d' e b show ?thesis by (intro that) simp_all
qed

lemma store_chunks_frame:
  assumes "store_chunks E cc item chunks d = Returns (ok, d')"
  shows "dm_cursors d' = dm_cursors d \<and> dm_world d' = dm_world d \<and>
     (i \<noteq> ci_remote_id item \<longrightarrow> item_view i (db_rows (dm_db d')) = item_view i (db_rows (dm_db d))) \<and>
     (\<not> ok \<longrightarrow> db_rows (dm_db d') = db_rows (dm_db d))"
proof (cases "\<exists>encs t embs u. encrypt_all E (cc_key cc) chunks (dm_rng d) = (Inr encs, t) \<and>
    embed_batch (in_embed E) (cc_tei cc) chunks (dm_tei d) = (Inr embs, u)")
  case True
  then obtain encs t embs u r db where
    ups: "upsert_chunks (in_pg E) (ci_remote_id item) (ci_name item) (cc_classification cc) encs embs (dm_db d) =
      Returns (r, db)" and d': "d' = d\<lparr>dm_rng := t, dm_tei := u, dm_db := db\<rparr>" "ok \<longleftrightarrow> r = Inr ()"
    using assms by (auto simp: store_chunks_def)
  from pgc.ups_other_view [OF ups] pgc.ups_atomic [OF ups] d' show ?thesis
    by (auto split: sum.splits)
next
  case False
  with assms show ?thesis by (auto simp: store_chunks_def split: prod.splits sum.splits)
qed

lemma store_content_cases:
  assumes "store_content E cc item content d = Returns (ok, d')"
  obtains (skip) "\<not> ok" "d' = d"
    | (chunks) chunks where "chunk (extract_text content (ci_name item)) = Returns (Inr chunks)"
      "chunks \<noteq> []" "store_chunks E cc item chunks d = Returns (ok, d')"
proof (cases "extract_text content (ci_name item) = []")
  case True
  with assms skip show thesis by (simp add: store_content_def)
next
  case False
  then obtain r where r: "chunk (extract_text content (ci_name item)) = Returns r"
    using assms by (cases "chunk (extract_text content (ci_name item))") (auto simp: store_content_def Let_def)
  show thesis
    using assms skip chunks False r by (cases r) (auto simp: store_content_def Let_def split: if_splits)
qed

lemma store_content_frame:
  assumes "store_content E cc item content d = Returns (ok, d')"
  shows "dm_cursors d' = dm_cursors d \<and> dm_world d' = dm_world d \<and>
     (i \<noteq> ci_remote_id item \<longrightarrow> item_view i (db_rows (dm_db d')) = item_view i (db_rows (dm_db d))) \<and>
     (\<not> ok \<longrightarrow> db_rows (dm_db d') = db_rows (dm_db d))"
  using assms
proof (cases rule: store_content_cases)
  case (chunks chunks)
  from store_chunks_frame [OF chunks(3)] show ?thesis by blast
qed simp

text \<open>The ways through \<open>ingest_item\<close>.\<close>

lemma ingest_item_cases:
  assumes "ingest_item E cc conn item d = Some (Returns (ok, d'))"
  obtains (deleted) r db where "ci_deleted item" "\<not> ok" "d' = d\<lparr>dm_db := db\<rparr>"
      "delete_chunks (in_pg E) (ci_remote_id item) (dm_db d) = (r, db)"
    | (failed) e w where "\<not> ci_deleted item" "\<not> ok" "d' = d\<lparr>dm_world := w\<rparr>"
      "cn_download conn item (dm_world d) = Some (Returns (Inl e, w))"
    | (downloaded) content w where "\<not> ci_deleted item"
      "cn_download conn item (dm_world d) = Some (Returns (Inr content, w))"
      "store_content E cc item content (d\<lparr>dm_world := w\<rparr>) = Returns (ok, d')"
  using assms
  by (auto simp: ingest_item_def split: if_splits prod.splits outcome_splits sum.splits)

lemma ingest_item_frame:
  assumes "ingest_item E cc conn item d = Some (Returns (ok, d'))"
  shows "dm_cursors d' = dm_cursors d \<and>
     (i \<noteq> ci_remote_id item \<longrightarrow> item_view i (db_rows (dm_db d')) = item_view i (db_rows (dm_db d)))"
  using assms
proof (cases rule: ingest_item_cases)
  case (deleted r db)
  from pgc.del_other_view [OF deleted(4), of i] deleted(3) show ?thesis by auto
next
  case (downloaded content w)
  from store_content_frame [OF downloaded(3), of i] show ?thesis by simp
qed simp

lemma ingest_item_skipped:
  assumes "ingest_item E cc conn item d = Some (Returns (False, d'))" and "\<not> ci_deleted item"
  shows "db_rows (dm_db d') = db_rows (dm_db d)"
  using assms(1)
proof (cases rule: ingest_item_cases)
  case (downloaded content w)
  from store_content_frame [OF downloaded(3)] show ?thesis by simp
qed (use assms(2) in simp_all)

lemma ingest_item_deleted:
  assumes "ingest_item E cc conn item d = Some (Returns (ok, d'))" and "ci_deleted item"
  shows "item_view (ci_remote_id item) (db_rows (dm_db d')) = [] \<or> db_rows (dm_db d') = db_rows (dm_db d)"
  using assms(1)
proof (cases rule: ingest_item_cases)
  case (deleted r db)
  have "item_view (ci_remote_id item) (db_rows db) = [] \<or> db_rows db = db_rows (dm_db d)"
    using pgc.del_ok [of "in_pg E"] pgc.del_err [of "in_pg E"] deleted(4) by (cases r) blast+
  with deleted show ?thesis by simp
qed (use assms(2) in simp_all)

section \<open>What a cycle does: proofs\<close>

lemma ingest_items_frame:
  "ingest_items E cc conn items n d = Some (Returns (m, d')) \<Longrightarrow>
     dm_cursors d' = dm_cursors d \<and> n \<le> m \<and> m \<le> n + length items \<and>
     (i \<notin> ci_remote_id ` set items \<longrightarrow> item_view i (db_rows (dm_db d')) = item_view i (db_rows (dm_db d)))"
proof (induction items arbitrary: n d)
  case (Cons item items)
  then obtain ok d1 where one: "ingest_item E cc conn item d = Some (Returns (ok, d1))"
    and rest: "ingest_items E cc conn items (if ok then n + 1 else n) d1 = Some (Returns (m, d'))"
    by (auto split: outcome_splits prod.splits)
  from ingest_item_frame [OF one, of i] Cons.IH [OF rest] show ?case by (auto split: if_splits)
qed simp

lemma ingest_items_skipped:
  "ingest_items E cc conn items n d = Some (Returns (n, d')) \<Longrightarrow> \<forall>item \<in> set items. \<not> ci_deleted item \<Longrightarrow>
     db_rows (dm_db d') = db_rows (dm_db d)"
proof (induction items arbitrary: d)
  case (Cons item items)
  then obtain ok d1 where one: "ingest_item E cc conn item d = Some (Returns (ok, d1))"
    and rest: "ingest_items E cc conn items (if ok then n + 1 else n) d1 = Some (Returns (n, d'))"
    by (auto split: outcome_splits prod.splits)
  have "\<not> ok" using ingest_items_frame [OF rest] by (auto split: if_splits)
  with one rest Cons.prems(2) Cons.IH [of d1] ingest_item_skipped [of E cc conn item d d1]
  show ?case by simp
qed simp

lemma run_cycle_cases:
  assumes "run_cycle E cc conn d = Some (Returns (r, d'))"
  obtains (noload) e where "r = Inl e" "db_rows (dm_db d') = db_rows (dm_db d)"
      "\<And>j. saved j (dm_cursors d') = saved j (dm_cursors d)"
    | (nolist) e f w where "r = Inl e" "db_rows (dm_db d') = db_rows (dm_db d)"
      "\<And>j. saved j (dm_cursors d') = saved j (dm_cursors d)"
      "cn_list_changes conn (saved (cn_id conn) (dm_cursors d)) (dm_world d) = Some (Returns (Inl f, w))"
    | (listed) delta w d1 n d2 where
      "cn_list_changes conn (saved (cn_id conn) (dm_cursors d)) (dm_world d) = Some (Returns (Inr delta, w))"
      "dm_db d1 = dm_db d" "\<And>j. saved j (dm_cursors d1) = saved j (dm_cursors d)"
      "ingest_items E cc conn (dr_changes delta) 0 d1 = Some (Returns (n, d2))"
      "finish_cycle E conn (dr_next_cursor delta) n d2 = (r, d')"
proof -
  obtain l cu where ld: "load_cursor (in_state E) (cn_id conn) (dm_cursors d) = (l, cu)" by fastforce
  from cursor_table.load_view [OF ld] have same: "saved j cu = saved j (dm_cursors d)" for j by blast
  show thesis
  proof (cases l)
    case (Inl e)
    with assms ld same show ?thesis by (intro noload) (auto simp: run_cycle_def)
  next
    case (Inr cursor)
    with cursor_table.load_view [OF ld] have cur: "cursor = saved (cn_id conn) (dm_cursors d)" by simp
    consider f w where "cn_list_changes conn cursor (dm_world d) = Some (Returns (Inl f, w))"
      | delta w where "cn_list_changes conn cursor (dm_world d) = Some (Returns (Inr delta, w))"
      using assms ld Inr by (auto simp: run_cycle_def split: outcome_splits sum.splits)
    then show ?thesis
    proof cases
      case 1
      with assms ld Inr same cur show ?thesis by (intro nolist) (auto simp: run_cycle_def)
    next
      case 2
      with assms ld Inr obtain n d2 where
        "ingest_items E cc conn (dr_changes delta) 0 (d\<lparr>dm_cursors := cu, dm_world := w\<rparr>) = Some (Returns (n, d2))"
        "finish_cycle E conn (dr_next_cursor delta) n d2 = (r, d')"
        by (auto simp: run_cycle_def)
      with 2 same cur show ?thesis by (intro listed) simp_all
    qed
  qed
qed

lemma finish_cycle_ok:
  assumes "finish_cycle E conn nc n d = (r, d')"
  shows "dm_db d' = dm_db d \<and> (\<forall>j. j \<noteq> cn_id conn \<longrightarrow> saved j (dm_cursors d') = saved j (dm_cursors d)) \<and>
     (case r of
        Inl _ \<Rightarrow> saved (cn_id conn) (dm_cursors d') = saved (cn_id conn) (dm_cursors d)
      | Inr m \<Rightarrow> m = n \<and> saved (cn_id conn) (dm_cursors d') =
          (case nc of None \<Rightarrow> saved (cn_id conn) (dm_cursors d) | Some c \<Rightarrow> Some c))"
proof (cases nc)
  case None
  with assms show ?thesis by (auto simp: finish_cycle_def)
next
  case (Some c)
  obtain q cu where sv: "save_cursor (in_state E) (cn_id conn) c (dm_cursors d) = (q, cu)" by fastforce
  show ?thesis
  proof (cases q)
    case (Inl e)
    with assms Some sv cursor_table.save_err [of "in_state E"] show ?thesis by (auto simp: finish_cycle_def)
  next
    case (Inr u)
    with assms Some sv cursor_table.save_ok [of "in_state E" "cn_id conn" c "dm_cursors d" u cu]
    show ?thesis by (auto simp: finish_cycle_def)
  qed
qed

lemma list_changes_ok_part:
  assumes "\<And>c v d v'. cn_list_changes conn c v = Some (Returns (Inr d, v')) \<Longrightarrow> dr_next_cursor d \<noteq> None"
    and "cn_list_changes (part_connector get put conn) c w = Some (Returns (Inr d, w'))"
  shows "dr_next_cursor d \<noteq> None"
  using assms by (auto simp: part_connector_def on_part_def)

lemma built_connector_cursor:
  assumes "conn \<in> set (build_connectors G Z build var a)"
    and "cn_list_changes conn c w = Some (Returns (Inr d, w'))"
  shows "dr_next_cursor d \<noteq> None"
proof -
  have g: "dr_next_cursor d \<noteq> None" if "cn_list_changes (graph_connector G gc) c v = Some (Returns (Inr d, v'))" for gc c v d v'
    using graph.list_ok [of "(G, gc)"] that by auto
  have z: "dr_next_cursor d \<noteq> None" if "cn_list_changes (zoho_connector Z zc) c v = Some (Returns (Inr d, v'))" for zc c v d v'
    using zoho.list_ok [of "(Z, zc)"] that by auto
  consider gc get put where "conn = part_connector get put (graph_connector G gc)"
    | zc get put where "conn = part_connector get put (zoho_connector Z zc)"
    using assms(1) by (auto simp: build_connectors_def split: sum.splits option.splits prod.splits)
  then show ?thesis
  proof cases
    case 1
    show ?thesis by (rule list_changes_ok_part [OF g assms(2) [unfolded 1]])
  next
    case 2
    show ?thesis by (rule list_changes_ok_part [OF z assms(2) [unfolded 2]])
  qed
qed

text \<open>What the libraries promise: the AEAD laws, and 12 random bytes whenever the generator delivers.\<close>

definition ingest_env_ok :: "'f ingest_env \<Rightarrow> bool" where
  "ingest_env_ok E \<longleftrightarrow> aead_laws (in_aead E) \<and> (\<forall>t iv. in_iv E t = Some iv \<longrightarrow> length iv = 12)"

lemma ingest_item_stores:
  assumes "ingest_env_ok E" and "ingest_item E cc conn item d = Some (Returns (True, d'))"
  shows "\<exists>content w chunks encs embs u.
     cn_download conn item (dm_world d) = Some (Returns (Inr content, w)) \<and>
     chunks = map of_chars (filter (\<lambda>w. \<not> blank w) (windows (chars (extract_text content (ci_name item))))) \<and>
     chunks \<noteq> [] \<and> length encs = length chunks \<and> length embs = length chunks \<and>
     embed_batch (in_embed E) (cc_tei cc) chunks (dm_tei d) = (Inr embs, u) \<and>
     item_view (ci_remote_id item) (db_rows (dm_db d')) = stored (pg_show (in_pg E)) 0 (zip encs embs) \<and>
     (\<forall>i < length chunks. kr_decrypt (in_aead E) (cc_key cc) (encs ! i) = Inr (as_bytes (chunks ! i)))"
  using assms(2)
proof (cases rule: ingest_item_cases)
  case (downloaded content w)
  from downloaded(3) obtain chunks where ch: "chunk (extract_text content (ci_name item)) = Returns (Inr chunks)"
    "chunks \<noteq> []" "store_chunks E cc item chunks (d\<lparr>dm_world := w\<rparr>) = Returns (True, d')"
    by (cases rule: store_content_cases) auto
  from store_chunks_true [OF ch(3)] obtain encs embs u where
    e: "encrypt_all E (cc_key cc) chunks (dm_rng d) = (Inr encs, dm_rng d')"
    and b: "embed_batch (in_embed E) (cc_tei cc) chunks (dm_tei d) = (Inr embs, u)"
    and v: "item_view (ci_remote_id item) (db_rows (dm_db d')) = stored (pg_show (in_pg E)) 0 (zip encs embs)"
    by auto
  from encrypt_all_ok [OF e] have le: "length encs = length chunks"
    by (simp add: list_all2_lengthD)
  have "kr_decrypt (in_aead E) (cc_key cc) (encs ! i) = Inr (as_bytes (chunks ! i))" if "i < length chunks" for i
  proof -
    from list_all2_nthD [OF encrypt_all_ok [OF e] that] obtain t where
      t: "encrypt (in_aead E) (in_iv E t) (cc_key cc) (as_bytes (chunks ! i)) = Inr (encs ! i)" by blast
    then obtain iv where iv: "in_iv E t = Some iv" by (auto simp: encrypt_Inr)
    with assms(1) have "length iv = 12" by (simp add: ingest_env_ok_def)
    with assms(1) t iv show ?thesis
      using kr_decrypt_encrypt [of "in_aead E" iv] by (simp add: ingest_env_ok_def)
  qed
  with downloaded(2) ch(1,2) le embed_batch_length [OF b] b v show ?thesis
    unfolding chunk_eq by (intro exI conjI) auto
qed simp_all

section \<open>Properties\<close>

text \<open>
  C10. What the daemon stores: an item that counts as processed was downloaded, and its rows are then
  exactly one for each non-blank window of its text, numbered from 0, with the embedding of that window
  and a content that the key-rotation tool decrypts, under the daemon's key, to that window.
\<close>

theorem ingest_stores_text:
  assumes "ingest_env_ok E" and "ingest_item E cc conn item d = Some (Returns (True, d'))"
  shows "\<exists>content w chunks encs embs u.
     cn_download conn item (dm_world d) = Some (Returns (Inr content, w)) \<and>
     chunks = map of_chars (filter (\<lambda>w. \<not> blank w) (windows (chars (extract_text content (ci_name item))))) \<and>
     chunks \<noteq> [] \<and> length encs = length chunks \<and> length embs = length chunks \<and>
     embed_batch (in_embed E) (cc_tei cc) chunks (dm_tei d) = (Inr embs, u) \<and>
     item_view (ci_remote_id item) (db_rows (dm_db d')) = stored (pg_show (in_pg E)) 0 (zip encs embs) \<and>
     (\<forall>i < length chunks. kr_decrypt (in_aead E) (cc_key cc) (encs ! i) = Inr (as_bytes (chunks ! i)))"
  by (rule ingest_item_stores [OF assms])

text \<open>
  Items are isolated and replaced as a whole: whatever happens to one item, the rows of every other
  item stay as they are; an item that is not deleted and does not count as processed keeps its rows;
  a deleted item loses all of them, or the table is unchanged. No item touches a saved cursor.
\<close>

theorem item_isolated:
  assumes "ingest_item E cc conn item d = Some (Returns (ok, d'))"
  shows "dm_cursors d' = dm_cursors d \<and>
     (\<forall>i. i \<noteq> ci_remote_id item \<longrightarrow> item_view i (db_rows (dm_db d')) = item_view i (db_rows (dm_db d))) \<and>
     (if ci_deleted item
      then item_view (ci_remote_id item) (db_rows (dm_db d')) = [] \<or> db_rows (dm_db d') = db_rows (dm_db d)
      else ok \<or> db_rows (dm_db d') = db_rows (dm_db d))"
  using ingest_item_frame [OF assms] ingest_item_deleted [OF assms]
    ingest_item_skipped [of E cc conn item d d'] assms by auto

text \<open>
  The cursor of a cycle: a cycle that fails leaves the saved cursor of its connector as it was (the
  next one lists the same changes again); a cycle that succeeds with \<open>n\<close> items processed has listed
  the changes from the saved cursor, saves the cursor that came with them, and touches the rows of
  those items only. The cursors of other connectors never change.
\<close>

theorem cycle_cursor:
  assumes "run_cycle E cc conn d = Some (Returns (r, d'))"
  shows "(\<forall>j. j \<noteq> cn_id conn \<longrightarrow> saved j (dm_cursors d') = saved j (dm_cursors d)) \<and>
     (case r of
        Inl _ \<Rightarrow> saved (cn_id conn) (dm_cursors d') = saved (cn_id conn) (dm_cursors d)
      | Inr n \<Rightarrow> (\<exists>delta w.
          cn_list_changes conn (saved (cn_id conn) (dm_cursors d)) (dm_world d) = Some (Returns (Inr delta, w)) \<and>
          n \<le> length (dr_changes delta) \<and>
          saved (cn_id conn) (dm_cursors d') = (case dr_next_cursor delta of
              None \<Rightarrow> saved (cn_id conn) (dm_cursors d) | Some c \<Rightarrow> Some c) \<and>
          (\<forall>i. i \<notin> ci_remote_id ` set (dr_changes delta) \<longrightarrow>
             item_view i (db_rows (dm_db d')) = item_view i (db_rows (dm_db d)))))"
  using assms
proof (cases rule: run_cycle_cases)
  case (listed delta w d1 n d2)
  note fin = finish_cycle_ok [OF listed(5)]
  have cur: "dm_cursors d2 = dm_cursors d1" "n \<le> length (dr_changes delta)"
    using ingest_items_frame [OF listed(4)] by simp_all
  have rows: "item_view i (db_rows (dm_db d')) = item_view i (db_rows (dm_db d))"
    if "i \<notin> ci_remote_id ` set (dr_changes delta)" for i
    using ingest_items_frame [OF listed(4), of i] fin listed(2) that by simp
  show ?thesis
  proof (cases r)
    case (Inl e)
    with fin cur listed(3) show ?thesis by simp
  next
    case (Inr m)
    with fin cur listed(1,3) rows show ?thesis by (auto split: option.splits)
  qed
qed simp_all

text \<open>
  C27. Skipped changes are passed over: a cycle that lists changes without deletions and processes none
  of them (each failed to download, to encrypt, to embed or to store, or has no text now) leaves the
  table as it was, and saves the next cursor all the same.
\<close>

theorem cycle_passes_over:
  assumes "run_cycle E cc conn d = Some (Returns (Inr 0, d'))"
    and "cn_list_changes conn (saved (cn_id conn) (dm_cursors d)) (dm_world d) = Some (Returns (Inr delta, w))"
    and "\<forall>item \<in> set (dr_changes delta). \<not> ci_deleted item" and "dr_next_cursor delta = Some c"
  shows "db_rows (dm_db d') = db_rows (dm_db d) \<and> saved (cn_id conn) (dm_cursors d') = Some c"
  using assms(1)
proof (cases rule: run_cycle_cases)
  case (listed delta' w' d1 n d2)
  with assms(2) have dl: "delta' = delta" by simp
  note fin = finish_cycle_ok [OF listed(5)]
  then have "n = 0" by simp
  with listed(4) dl assms(3) have "db_rows (dm_db d2) = db_rows (dm_db d1)"
    using ingest_items_skipped by blast
  with fin listed(2) dl assms(4) show ?thesis by simp
qed simp_all

text \<open>
  The daemon only runs on a valid configuration: when the start-up succeeds, the key has 32 bytes,
  the classification is one the table accepts and the embedding batch size is positive.
\<close>

theorem start_up_valid:
  assumes "start_up hx connect a = Inr cc"
  shows "length (cc_key cc) = 32 \<and> cc_classification cc \<in> set classifications \<and> 0 < tc_batch_size (cc_tei cc)"
  using assms by (auto simp: start_up_def parse_key_def embed_new_def split: if_splits)

text \<open>
  After a successful cycle of a connector that \<open>main\<close> builds, a cursor is saved for it: the next
  cycle continues from there, and no other cycle is a first run.
\<close>

theorem cycle_saves_cursor:
  assumes "conn \<in> set (build_connectors G Z build var a)" and "run_cycle E cc conn d = Some (Returns (Inr n, d'))"
  shows "\<exists>c. saved (cn_id conn) (dm_cursors d') = Some c"
proof -
  have c: "\<forall>c w delta w'. cn_list_changes conn c w = Some (Returns (Inr delta, w')) \<longrightarrow> dr_next_cursor delta \<noteq> None"
    using built_connector_cursor [OF assms(1)] by blast
  show ?thesis using assms(2)
  proof (cases rule: run_cycle_cases)
    case (listed delta w d1 m d2)
    with c obtain nc where "dr_next_cursor delta = Some nc" by blast
    with finish_cycle_ok [OF listed(5)] show ?thesis by simp
  qed simp_all
qed

section \<open>A concrete daemon\<close>

definition toy_ingest :: "nat ingest_env" where
  "toy_ingest = \<lparr>in_pg = toy_pg, in_embed = toy_tei,
     in_state = \<lparr>se_fails = (\<lambda>_. False), se_now = (\<lambda>t. t)\<rparr>, in_aead = toy_aead,
     in_iv = (\<lambda>_. Some (replicate 12 1))\<rparr>"

definition toy_conf :: cycle_conf where
  "toy_conf = \<lparr>cc_tei = embed_new ''http://tei'' 32, cc_classification = ''INTERNAL'', cc_key = replicate 32 7\<rparr>"

definition toy_file :: "string \<Rightarrow> change_item" where
  "toy_file n = \<lparr>ci_remote_id = ''f'', ci_parent_id = None, ci_name = n, ci_is_folder = False,
     ci_modified_at = None, ci_deleted = False, ci_raw = JNull\<rparr>"

text \<open>A source with one change: \<open>a.txt\<close> can be downloaded, any other file cannot.\<close>

definition toy_source :: "string \<Rightarrow> unit connector" where
  "toy_source n = \<lparr>cn_id = ''D'', cn_kind = ''toy'',
     cn_list_changes = (\<lambda>_ w. Some (Returns (Inr
        \<lparr>dr_next_cursor = Some ''c1'', dr_changes = [toy_file n], dr_more = False\<rparr>, w))),
     cn_download = (\<lambda>i w. Some (Returns (if ci_name i = ''a.txt'' then Inr [104, 105] else Inl (Http 500), w)))\<rparr>"

definition toy_daemon :: "unit daemon" where
  "toy_daemon = \<lparr>dm_world = (), dm_db = \<lparr>db_rows = [], db_tick = 0\<rparr>,
     dm_cursors = \<lparr>cu_rows = Map.empty, cu_tick = 0\<rparr>, dm_tei = 0, dm_rng = 0\<rparr>"

lemma toy_env_ok: "ingest_env_ok toy_ingest"
  by (simp add: ingest_env_ok_def toy_ingest_def toy_aead_laws)

lemma chars_hi: "chars ''hi'' = [104, 105]"
  using ascii_is_str [of "''hi''"] by (simp add: codes_def)

lemma toy_text: "extract_text [104, 105] ''a.txt'' = ''hi''"
proof -
  have "from_utf8_lossy (as_bytes ''hi'') = ''hi''" by (rule from_utf8_lossy_as_bytes) (simp add: ascii_is_str)
  then show ?thesis by (simp add: extract_text_def lower_char_def Let_def ends_with_def as_bytes_def)
qed

lemma toy_chunk: "chunk ''hi'' = Returns (Inr [''hi''])"
proof -
  have "is_str ''hi''" by (simp add: ascii_is_str)
  then have "of_chars [104, 105] = ''hi''" using of_chars_chars [of "''hi''"] by (simp add: chars_hi)
  then show ?thesis
    by (simp add: chunk_eq chars_hi windows_def window_count_def window_def CHUNK_CHARS_def blank_def is_whitespace_def)
qed

lemma toy_embed: "embed_batch toy_tei (embed_new ''http://tei'' 32) [''hi''] 0 = (Inr [[2]], 1)"
  by (simp add: embed_batch_def embed_new_def embed_one_batch_def toy_tei_def is_error_status_def)

lemma toy_ingests_any: "\<exists>d'. ingest_item toy_ingest toy_conf (toy_source ''a.txt'') (toy_file ''a.txt'') (toy_daemon\<lparr>dm_cursors := cu\<rparr>) =
    Some (Returns (True, d')) \<and> dm_cursors d' = cu \<and> db_tick (dm_db d') = 4 \<and>
    db_rows (dm_db d') = [\<lparr>dc_id = 2, dc_doc_name = ''a.txt'',
      dc_classification = ''INTERNAL'', dc_chunk_index = 0,
      dc_encrypted_content = Some (replicate 12 1 @ [104, 105] @ replicate 16 7), dc_embedding = Some ''[2]'',
      dc_source_item_id = Some ''f'', dc_workspace_id = default_workspace\<rparr>]"
proof -
  have two: "show_nat 2 = ''2''" by (subst show_nat.simps) (simp add: digit_char_def char_of_def bit_0)
  have ch: "length (chars ''a.txt'') \<le> 255" "length (chars ''f'') \<le> 255"
    using length_chars_le [of "''a.txt''"] length_chars_le [of "''f''"] by (simp_all add: ascii_is_str)
  show ?thesis
    by (simp add: ingest_item_def toy_file_def toy_source_def store_content_def toy_text toy_chunk store_chunks_def
        toy_conf_def toy_ingest_def toy_daemon_def toy_encrypt as_bytes_def toy_embed upsert_chunks_def toy_pg_def
        Let_def insert_row_def classifications_def delete_rows_def format_vector_def two)
      (use ch in simp)
qed

lemma toy_daemon_same: "toy_daemon\<lparr>dm_cursors := dm_cursors toy_daemon\<rparr> = toy_daemon"
  by simp

lemmas toy_ingests = toy_ingests_any [of "dm_cursors toy_daemon", unfolded toy_daemon_same]

theorem ingest_stores_text_witness:
  "\<exists>d' w. ingest_item toy_ingest toy_conf (toy_source ''a.txt'') (toy_file ''a.txt'') toy_daemon =
       Some (Returns (True, d')) \<and>
     item_view ''f'' (db_rows (dm_db d')) = [(0, Some w, Some ''[2]'')] \<and>
     kr_decrypt toy_aead (replicate 32 7) w = Inr [104, 105]"
proof -
  obtain d' where d': "ingest_item toy_ingest toy_conf (toy_source ''a.txt'') (toy_file ''a.txt'') toy_daemon =
      Some (Returns (True, d'))" using toy_ingests by blast
  have view: "item_view ''f'' (db_rows (dm_db d')) =
      [(0, Some (replicate 12 1 @ [104, 105] @ replicate 16 7), Some ''[2]'')]"
    using toy_ingests d' by (auto simp: item_view_def item_rows_def)
  obtain content w chunks encs embs where x: "length encs = length chunks" "length embs = length chunks" "chunks \<noteq> []"
    "item_view (ci_remote_id (toy_file ''a.txt'')) (db_rows (dm_db d')) = stored (pg_show (in_pg toy_ingest)) 0 (zip encs embs)"
    "\<forall>i < length chunks. kr_decrypt (in_aead toy_ingest) (cc_key toy_conf) (encs ! i) = Inr (as_bytes (chunks ! i))"
    "cn_download (toy_source ''a.txt'') (toy_file ''a.txt'') (dm_world toy_daemon) = Some (Returns (Inr content, w))"
    "chunks = map of_chars (filter (\<lambda>w. \<not> blank w) (windows (chars (extract_text content (ci_name (toy_file ''a.txt''))))))"
    using ingest_stores_text [OF toy_env_ok d'] by blast
  have "content = [104, 105]" using x(6) by (simp add: toy_source_def toy_file_def)
  then have c: "chunks = [''hi'']" using x(7) toy_chunk by (simp add: chunk_eq toy_file_def toy_text)
  then obtain e b where eb: "encs = [e]" "embs = [b]" using x(1,2) by (auto simp: length_Suc_conv)
  with x(4) view have "e = replicate 12 1 @ [104, 105] @ replicate 16 7" by (simp add: toy_file_def)
  moreover have "kr_decrypt toy_aead (replicate 32 7) e = Inr [104, 105]"
    using x(5) c eb by (simp add: toy_ingest_def toy_conf_def as_bytes_def)
  ultimately show ?thesis using d' view by blast
qed

theorem item_isolated_witness:
  "\<exists>d'. ingest_item toy_ingest toy_conf (toy_source ''b.txt'') (toy_file ''b.txt'') toy_daemon =
      Some (Returns (False, d')) \<and> db_rows (dm_db d') = []"
proof -
  have run: "ingest_item toy_ingest toy_conf (toy_source ''b.txt'') (toy_file ''b.txt'') toy_daemon =
      Some (Returns (False, toy_daemon))"
    by (simp add: ingest_item_def toy_file_def toy_source_def toy_daemon_def)
  from item_isolated [OF run] run show ?thesis by (simp add: toy_file_def toy_daemon_def)
qed

lemma toy_cycle: "run_cycle toy_ingest toy_conf (toy_source ''b.txt'') toy_daemon = Some (Returns (Inr 0,
    toy_daemon\<lparr>dm_cursors := \<lparr>cu_rows = [''D'' \<mapsto> \<lparr>sr_delta_token = ''c1'', sr_last_synced = 1\<rparr>], cu_tick = 2\<rparr>\<rparr>))"
proof -
  have "length (chars ''D'') \<le> 255" using length_chars_le [of "''D''"] by (simp add: ascii_is_str)
  then show ?thesis
    by (simp add: run_cycle_def load_cursor_def save_cursor_def finish_cycle_def ingest_item_def toy_file_def
        toy_source_def toy_daemon_def toy_ingest_def Let_def)
qed

theorem cycle_cursor_witness:
  "\<exists>d'. run_cycle toy_ingest toy_conf (toy_source ''b.txt'') toy_daemon = Some (Returns (Inr 0, d')) \<and>
     saved ''D'' (dm_cursors d') = Some ''c1'' \<and> saved ''E'' (dm_cursors d') = None"
  using cycle_cursor [OF toy_cycle] toy_cycle
  by (simp add: toy_source_def) (simp add: saved_def toy_daemon_def)

theorem cycle_passes_over_witness:
  "\<exists>d'. run_cycle toy_ingest toy_conf (toy_source ''b.txt'') toy_daemon = Some (Returns (Inr 0, d')) \<and>
     db_rows (dm_db d') = [] \<and> saved ''D'' (dm_cursors d') = Some ''c1''"
proof -
  have "db_rows (dm_db (toy_daemon\<lparr>dm_cursors := \<lparr>cu_rows = [''D'' \<mapsto> \<lparr>sr_delta_token = ''c1'', sr_last_synced = 1\<rparr>],
      cu_tick = 2\<rparr>\<rparr>)) = db_rows (dm_db toy_daemon) \<and> saved (cn_id (toy_source ''b.txt'')) (dm_cursors
      (toy_daemon\<lparr>dm_cursors := \<lparr>cu_rows = [''D'' \<mapsto> \<lparr>sr_delta_token = ''c1'', sr_last_synced = 1\<rparr>], cu_tick = 2\<rparr>\<rparr>)) =
      Some ''c1''"
    by (rule cycle_passes_over [OF toy_cycle]) (auto simp: toy_source_def toy_file_def)
  with toy_cycle show ?thesis by (simp add: toy_source_def toy_daemon_def)
qed

definition toy_args :: args where
  "toy_args = \<lparr>ar_content_key = hex_encode (replicate 32 7), ar_database_url = ''postgres://db'', ar_tei_base_url = ''http://tei'', ar_tenant_id = ''T'',
     ar_client_id = ''I'', ar_client_secret = ''S'', ar_drive_id = ''D'', ar_classification = ''INTERNAL'',
     ar_poll_interval_secs = 300, ar_embed_batch_size = 0, ar_once = True\<rparr>"

theorem start_up_valid_witness:
  "\<exists>cc. start_up toy_hex (\<lambda>_. Inr ()) toy_args = Inr cc \<and> length (cc_key cc) = 32 \<and> tc_batch_size (cc_tei cc) = 1"
proof -
  have "parse_key toy_hex (hex_encode (replicate 32 7)) = Inr (replicate 32 7)"
    using toy_hex_laws trim_hex [of "[]" "[]" "replicate 32 7"]
    by (simp add: parse_key_def hex_laws_def trim_eq_Nil ascii_is_str)
  then obtain cc where cc: "start_up toy_hex (\<lambda>_. Inr ()) toy_args = Inr cc" "tc_batch_size (cc_tei cc) = 1"
    by (simp add: start_up_def toy_args_def classifications_def embed_new_def)
  with start_up_valid [OF cc(1)] show ?thesis by blast
qed

text \<open>The daemon with a Graph drive in which nothing changed.\<close>

definition toy_quiet :: graph_env where
  "toy_quiet = toy_graph\<lparr>ge_delta := \<lambda>_ _. DeltaAnswer 200 None
     (Inr \<lparr>dp_value = [], dp_next_link = None, dp_delta_link = Some ''d''\<rparr>)\<rparr>"

definition toy_drive_daemon :: "world daemon" where
  "toy_drive_daemon = \<lparr>dm_world = (graph_start, toy_world), dm_db = \<lparr>db_rows = [], db_tick = 0\<rparr>,
     dm_cursors = \<lparr>cu_rows = Map.empty, cu_tick = 0\<rparr>, dm_tei = 0, dm_rng = 0\<rparr>"

definition toy_built :: "world connector" where
  "toy_built = part_connector fst (\<lambda>g w. (g, snd w)) (graph_connector toy_quiet toy_drive)"

lemma toy_built_in: "toy_built \<in> set (build_connectors toy_quiet toy_zoho (Inr (), Inr ()) (\<lambda>_. None)
    toy_args)"
  by (simp add: toy_built_def build_connectors_def graph_new_def toy_drive_def toy_args_def build_zoho_connector_def)

lemma toy_quiet_list: "\<exists>w. graph_list_changes toy_quiet toy_drive None graph_start =
    Some (Returns (Inr \<lparr>dr_next_cursor = Some ''d'', dr_changes = [], dr_more = False\<rparr>, w))"
  by (simp add: graph_list_changes_def run_delta_cycle_def access_token_def graph_cached_def fetch_token_def
      graph_store_def token_of_reply_def toy_quiet_def toy_graph_def graph_start_def io_defs
      is_error_status_def instant_plus_def graph_pages.simps page_of_200 Let_def)

theorem cycle_saves_cursor_witness:
  "\<exists>d' c. run_cycle toy_ingest toy_conf toy_built toy_drive_daemon = Some (Returns (Inr 0, d')) \<and>
     saved ''D'' (dm_cursors d') = Some c"
proof -
  have "length (chars ''D'') \<le> 255" using length_chars_le [of "''D''"] by (simp add: ascii_is_str)
  then obtain d' where run: "run_cycle toy_ingest toy_conf toy_built toy_drive_daemon = Some (Returns (Inr 0, d'))"
    using toy_quiet_list
    by (auto simp: run_cycle_def load_cursor_def save_cursor_def finish_cycle_def toy_built_def part_connector_def
        on_part_def graph_connector_def toy_drive_daemon_def toy_ingest_def toy_drive_def Let_def)
  from cycle_saves_cursor [OF toy_built_in run] run show ?thesis
    by (simp add: toy_built_def part_connector_def graph_connector_def toy_drive_def)
qed

end
