(* ===== verification/Daemon.thy ===== *)
theory Daemon
  imports Ingestion
begin

text \<open>
  The poll loop of \<open>main\<close> (\<open>ingestion/src/main.rs\<close>), pass after pass, and what it means for a source
  over time: a Zoho tree is listed in full, one folder per cycle, and a cursor that the source rejects
  is never dropped.
\<close>

section \<open>The loop\<close>

text \<open>
  The first \<open>n\<close> passes of the loop, or the single one of \<open>--once\<close>; the sleep between two passes changes
  no state.
\<close>

fun daemon_run :: "'f ingest_env \<Rightarrow> cycle_conf \<Rightarrow> 'w connector list \<Rightarrow> bool \<Rightarrow> nat \<Rightarrow> 'w daemon \<Rightarrow>
    'w daemon run option" where
  "daemon_run E cc conns once 0 d = Some (Returns d)"
| "daemon_run E cc conns once (Suc n) d =
     (case daemon_pass E cc conns d of
        None \<Rightarrow> None
      | Some Panics \<Rightarrow> Some Panics
      | Some (Returns d') \<Rightarrow> if once then Some (Returns d') else daemon_run E cc conns once n d')"

text \<open>\<open>main\<close>: the checks of the start-up, the connectors, the loop (its first \<open>n\<close> passes).\<close>

definition ingestion_main :: "(string \<Rightarrow> anyhow + bytes) \<Rightarrow> (string \<Rightarrow> anyhow + unit) \<Rightarrow> graph_env \<Rightarrow>
    'e zoho_env_scheme \<Rightarrow> (anyhow + unit) \<times> (anyhow + unit) \<Rightarrow> (string \<Rightarrow> string option) \<Rightarrow> 'f ingest_env \<Rightarrow>
    args \<Rightarrow> nat \<Rightarrow> world daemon \<Rightarrow> anyhow + world daemon run option" where
  "ingestion_main hx connect G Z build var E a n d =
     and_then (start_up hx connect a) (\<lambda>cc.
       Inr (daemon_run E cc (build_connectors G Z build var a) (ar_once a) n d))"

text \<open>The states before each of \<open>n\<close> cycles of one connector, when all of them succeed, and after.\<close>

fun run_cycles :: "'f ingest_env \<Rightarrow> cycle_conf \<Rightarrow> 'w connector \<Rightarrow> nat \<Rightarrow> 'w daemon \<Rightarrow> 'w daemon list option" where
  "run_cycles E cc conn 0 d = Some [d]"
| "run_cycles E cc conn (Suc n) d =
     (case run_cycle E cc conn d of
        Some (Returns (Inr _, d')) \<Rightarrow> map_option ((#) d) (run_cycles E cc conn n d')
      | _ \<Rightarrow> None)"

text \<open>What the cycle that starts in a state lists.\<close>

definition cycle_lists :: "'w connector \<Rightarrow> 'w daemon \<Rightarrow> change_item list \<Rightarrow> bool" where
  "cycle_lists conn d items \<longleftrightarrow> (\<exists>delta w.
     cn_list_changes conn (saved (cn_id conn) (dm_cursors d)) (dm_world d) = Some (Returns (Inr delta, w)) \<and>
     dr_changes delta = items)"

section \<open>Cursors over a pass\<close>

lemma cycle_other_cursor:
  assumes "run_cycle E cc conn d = Some (Returns (r, d'))" and "j \<noteq> cn_id conn"
  shows "saved j (dm_cursors d') = saved j (dm_cursors d)"
  using assms(1)
proof (cases rule: run_cycle_cases)
  case (listed delta w d1 n d2)
  with finish_cycle_ok [OF listed(5)] ingest_items_frame [OF listed(4)] assms(2) show ?thesis by simp
qed simp_all

definition rejects :: "'w connector \<Rightarrow> string \<Rightarrow> bool" where
  "rejects conn c \<longleftrightarrow> (\<forall>w. \<exists>e w'. cn_list_changes conn (Some c) w = Some (Returns (Inl e, w')))"

lemma cycle_rejected:
  assumes "run_cycle E cc conn d = Some (Returns (r, d'))" and "rejects conn c"
    and "saved (cn_id conn) (dm_cursors d) = Some c"
  shows "saved (cn_id conn) (dm_cursors d') = Some c"
  using assms(1)
proof (cases rule: run_cycle_cases)
  case (listed delta w d1 n d2)
  moreover obtain e w' where "cn_list_changes conn (Some c) (dm_world d) = Some (Returns (Inl e, w'))"
    using assms(2) unfolding rejects_def by blast
  ultimately show ?thesis using assms(3) by simp
qed (use assms(3) in simp_all)

lemma pass_rejected:
  "daemon_pass E cc conns d = Some (Returns d') \<Longrightarrow> saved i (dm_cursors d) = Some c \<Longrightarrow>
     (\<forall>conn \<in> set conns. cn_id conn = i \<longrightarrow> rejects conn c) \<Longrightarrow> saved i (dm_cursors d') = Some c"
proof (induction conns arbitrary: d)
  case (Cons conn conns)
  obtain r d1 where one: "run_cycle E cc conn d = Some (Returns (r, d1))"
    and rest: "daemon_pass E cc conns d1 = Some (Returns d')"
    using Cons.prems(1) by (auto split: outcome_splits)
  have "saved i (dm_cursors d1) = Some c"
    using cycle_other_cursor [OF one] cycle_rejected [OF one] Cons.prems(2,3)
    by (cases "cn_id conn = i") auto
  with Cons.IH [OF rest] Cons.prems(3) show ?case by simp
qed simp

lemma run_rejected:
  "daemon_run E cc conns once n d = Some (Returns d') \<Longrightarrow> saved i (dm_cursors d) = Some c \<Longrightarrow>
     (\<forall>conn \<in> set conns. cn_id conn = i \<longrightarrow> rejects conn c) \<Longrightarrow> saved i (dm_cursors d') = Some c"
proof (induction n arbitrary: d)
  case (Suc n)
  obtain d1 where one: "daemon_pass E cc conns d = Some (Returns d1)"
    and rest: "if once then d' = d1 else daemon_run E cc conns once n d1 = Some (Returns d')"
    using Suc.prems(1) by (auto split: outcome_splits if_splits)
  note sv = pass_rejected [OF one Suc.prems(2,3)]
  from rest show ?case
    using sv Suc.IH [OF _ sv Suc.prems(3)] by (cases once) simp_all
qed simp

text \<open>The connectors of the repository do reject: a cursor that is not JSON, and a link answered with an error.\<close>

lemma zoho_rejects: "za_from_json Z c = None \<Longrightarrow> rejects (zoho_connector Z zc) c"
  by (simp add: rejects_def zoho_connector_def zoho_list_changes_def load_state_def from_json_def io_defs)

section \<open>Crawling by cycles\<close>

lemma cycles_from:
  fixes Z :: "'e zoho_env_scheme" and c :: zoho_client
  defines "conn \<equiv> zoho_connector Z c" and "root \<equiv> zl_root_id c"
  assumes sv: "serves Z c kids page" "token_ok Z (zl_tokens c)" "json_ok Z" and fin: "finite (reach kids root)"
  shows "bfs_inv kids root D st \<Longrightarrow>
     load_state Z c (saved (cn_id conn) (dm_cursors d)) (dm_world d) = Some (Returns (Inr st, w1)) \<Longrightarrow>
     todo kids root st \<le> n \<Longrightarrow> run_cycles E cc conn n d = Some ds \<Longrightarrow> f \<in> reach kids root - D \<Longrightarrow>
     \<exists>k < n. cycle_lists conn (ds ! k) (files_of kids f)"
proof (induction n arbitrary: D st d w1 ds)
  case 0
  then have "zu_queue st = []" by (simp add: todo_def)
  with bfs_done [OF 0(1)] 0(5) show ?case by blast
next
  case (Suc n)
  have "zu_queue st \<noteq> []" using bfs_done [OF Suc.prems(1)] Suc.prems(5) by blast
  then obtain g q where q: "zu_queue st = \<lparr>fc_folder_id = g, fc_next_offset = 0\<rparr> # q" and g: "g \<in> reach kids root"
    by (rule bfs_head [OF Suc.prems(1)])
  have wm: "0 \<le> zu_watermark_ms st" using Suc.prems(1) by (simp add: bfs_inv_def)
  obtain s w' where step: "zoho_list_changes Z c (saved (cn_id conn) (dm_cursors d)) (dm_world d) = Some (Returns (Inr
       \<lparr>dr_next_cursor = Some s, dr_changes = files_of kids g, dr_more = (zu_queue (bfs_next kids g q st) \<noteq> [])\<rparr>, w'))"
    and fj: "za_from_json Z s = Some (bfs_next kids g q st)"
    using list_changes_step [OF sv g [unfolded root_def] Suc.prems(2) q wm] by blast
  have list: "cn_list_changes conn cu w = zoho_list_changes Z c cu w" for cu w
    by (simp add: conn_def zoho_connector_def)
  have head: "cycle_lists conn d (files_of kids g)"
    using step by (simp add: cycle_lists_def list)
  obtain m d1 ds' where one: "run_cycle E cc conn d = Some (Returns (Inr m, d1))"
    and rest: "run_cycles E cc conn n d1 = Some ds'" and ds: "ds = d # ds'"
    using Suc.prems(4) by (auto split: outcome_splits sum.splits)
  have sav: "saved (cn_id conn) (dm_cursors d1) = Some s" using one
  proof (cases rule: run_cycle_cases)
    case (listed delta w d2 n d3)
    with step have "dr_next_cursor delta = Some s" by (auto simp: list)
    with finish_cycle_ok [OF listed(5)] show ?thesis by simp
  qed simp_all
  show ?case
  proof (cases "f = g")
    case True
    with head ds show ?thesis by (intro exI [of _ 0]) simp
  next
    case False
    have inv: "bfs_inv kids root (insert g D) (bfs_next kids g q st)" by (rule bfs_inv_next [OF Suc.prems(1) q])
    have ld: "load_state Z c (saved (cn_id conn) (dm_cursors d1)) (dm_world d1) =
        Some (Returns (Inr (bfs_next kids g q st), dm_world d1))"
      by (simp add: sav load_state_def from_json_def fj)
    have td: "todo kids root (bfs_next kids g q st) \<le> n"
      using todo_next [OF Suc.prems(1) fin q] Suc.prems(3) by simp
    obtain k where "k < n" "cycle_lists conn (ds' ! k) (files_of kids f)"
      using Suc.IH [OF inv ld td rest] Suc.prems(5) False by blast
    then show ?thesis by (intro exI [of _ "Suc k"]) (simp add: ds)
  qed
qed

section \<open>What is in the table stays readable\<close>

text \<open>Every row of every item has a content that the key opens.\<close>

definition sealed :: "aead \<Rightarrow> bytes \<Rightarrow> table \<Rightarrow> bool" where
  "sealed A key rows \<longleftrightarrow> (\<forall>item k enc emb. (k, enc, emb) \<in> set (item_view item rows) \<longrightarrow>
     (\<exists>w m. enc = Some w \<and> kr_decrypt A key w = Inr m))"

lemma sealed_update:
  assumes "sealed A key rows" and "\<And>i. i \<noteq> item \<Longrightarrow> item_view i rows' = item_view i rows"
    and "\<And>k enc emb. (k, enc, emb) \<in> set (item_view item rows') \<Longrightarrow> \<exists>w m. enc = Some w \<and> kr_decrypt A key w = Inr m"
  shows "sealed A key rows'"
  unfolding sealed_def
proof (intro allI impI)
  fix i k enc emb assume v: "(k, enc, emb) \<in> set (item_view i rows')"
  show "\<exists>w m. enc = Some w \<and> kr_decrypt A key w = Inr m"
  proof (cases "i = item")
    case True
    with v assms(3) show ?thesis by blast
  next
    case False
    with v assms(1,2) show ?thesis unfolding sealed_def by metis
  qed
qed

lemma stored_mem: "(k, enc, emb) \<in> set (stored shw n ps) \<Longrightarrow> \<exists>w v. enc = Some w \<and> (w, v) \<in> set ps"
proof (induction ps arbitrary: n)
  case (Cons p ps)
  obtain w v where p: "p = (w, v)" by (cases p)
  show ?case
  proof (cases "enc = Some w")
    case False
    with Cons.prems p have "(k, enc, emb) \<in> set (stored shw (Suc n) ps)" by auto
    from Cons.IH [OF this] show ?thesis by auto
  qed (auto simp: p)
qed simp

lemma stored_sealed:
  assumes "length encs = length cs" and "\<forall>i < length cs. kr_decrypt A key (encs ! i) = Inr (f (cs ! i))"
    and "(k, enc, emb) \<in> set (stored shw n (zip encs embs))"
  shows "\<exists>w m. enc = Some w \<and> kr_decrypt A key w = Inr m"
proof -
  obtain w emb' where w: "enc = Some w" "(w, emb') \<in> set (zip encs embs)"
    using stored_mem [OF assms(3)] by blast
  then have "w \<in> set encs" by (blast dest: set_zip_leftD)
  then obtain i where "i < length encs" "w = encs ! i" by (metis in_set_conv_nth)
  with assms(1,2) w(1) show ?thesis by auto
qed

lemma ingest_item_sealed:
  assumes "ingest_env_ok E" and run: "ingest_item E cc conn item d = Some (Returns (ok, d'))"
    and "sealed (in_aead E) (cc_key cc) (db_rows (dm_db d))"
  shows "sealed (in_aead E) (cc_key cc) (db_rows (dm_db d'))"
proof -
  have other: "item_view i (db_rows (dm_db d')) = item_view i (db_rows (dm_db d))" if "i \<noteq> ci_remote_id item" for i
    using ingest_item_frame [OF run, of i] that by blast
  note upd = sealed_update [of "in_aead E" "cc_key cc" _ "ci_remote_id item", OF assms(3) other]
  consider "ci_deleted item" | "\<not> ci_deleted item" "\<not> ok" | ok by blast
  then show ?thesis
  proof cases
    case 1
    with ingest_item_deleted [OF run] have
      "item_view (ci_remote_id item) (db_rows (dm_db d')) = [] \<or> db_rows (dm_db d') = db_rows (dm_db d)" by blast
    then show ?thesis using upd assms(3) by auto
  next
    case 2
    with ingest_item_skipped [of E cc conn item d d'] run assms(3) show ?thesis by simp
  next
    case 3
    obtain content w chunks encs embs where x: "length encs = length chunks"
      "item_view (ci_remote_id item) (db_rows (dm_db d')) = stored (pg_show (in_pg E)) 0 (zip encs embs)"
      "\<forall>i < length chunks. kr_decrypt (in_aead E) (cc_key cc) (encs ! i) = Inr (as_bytes (chunks ! i))"
      using ingest_item_stores [OF assms(1) run [unfolded eqTrueI [OF 3]]] by blast
    show ?thesis
      by (rule upd) (use x stored_sealed [OF x(1,3)] in auto)
  qed
qed

lemma ingest_items_sealed:
  "ingest_env_ok E \<Longrightarrow> ingest_items E cc conn items n d = Some (Returns (m, d')) \<Longrightarrow>
     sealed (in_aead E) (cc_key cc) (db_rows (dm_db d)) \<Longrightarrow> sealed (in_aead E) (cc_key cc) (db_rows (dm_db d'))"
proof (induction items arbitrary: n d)
  case (Cons item items)
  then obtain ok d1 where one: "ingest_item E cc conn item d = Some (Returns (ok, d1))"
    and rest: "ingest_items E cc conn items (if ok then n + 1 else n) d1 = Some (Returns (m, d'))"
    by (auto split: outcome_splits prod.splits)
  show ?case by (rule Cons.IH [OF Cons.prems(1) rest ingest_item_sealed [OF Cons.prems(1) one Cons.prems(3)]])
qed simp

lemma run_cycle_sealed:
  assumes "ingest_env_ok E" and "run_cycle E cc conn d = Some (Returns (r, d'))"
    and "sealed (in_aead E) (cc_key cc) (db_rows (dm_db d))"
  shows "sealed (in_aead E) (cc_key cc) (db_rows (dm_db d'))"
  using assms(2)
proof (cases rule: run_cycle_cases)
  case (listed delta w d1 n d2)
  with ingest_items_sealed [OF assms(1) listed(4)] assms(3) finish_cycle_ok [OF listed(5)] show ?thesis by simp
qed (use assms(3) in simp_all)

lemma daemon_pass_sealed:
  "ingest_env_ok E \<Longrightarrow> daemon_pass E cc conns d = Some (Returns d') \<Longrightarrow>
     sealed (in_aead E) (cc_key cc) (db_rows (dm_db d)) \<Longrightarrow> sealed (in_aead E) (cc_key cc) (db_rows (dm_db d'))"
proof (induction conns arbitrary: d)
  case (Cons conn conns)
  then obtain r d1 where one: "run_cycle E cc conn d = Some (Returns (r, d1))"
    and rest: "daemon_pass E cc conns d1 = Some (Returns d')"
    by (auto split: outcome_splits)
  show ?case by (rule Cons.IH [OF Cons.prems(1) rest run_cycle_sealed [OF Cons.prems(1) one Cons.prems(3)]])
qed simp

lemma daemon_run_sealed:
  "ingest_env_ok E \<Longrightarrow> daemon_run E cc conns once n d = Some (Returns d') \<Longrightarrow>
     sealed (in_aead E) (cc_key cc) (db_rows (dm_db d)) \<Longrightarrow> sealed (in_aead E) (cc_key cc) (db_rows (dm_db d'))"
proof (induction n arbitrary: d)
  case (Suc n)
  then obtain d1 where one: "daemon_pass E cc conns d = Some (Returns d1)"
    and rest: "if once then d' = d1 else daemon_run E cc conns once n d1 = Some (Returns d')"
    by (auto split: outcome_splits if_splits)
  from daemon_pass_sealed [OF Suc.prems(1) one Suc.prems(3)] rest Suc.IH [OF Suc.prems(1), of d1]
  show ?case by (cases once) simp_all
qed simp

section \<open>Properties\<close>

text \<open>
  C13. The daemon crawls a Zoho tree in full, one folder a cycle: on a server that pages correctly, of
  the first cycles of a fresh connector, one more than there are folders reachable from the root, each
  file of each reachable folder is listed by one, provided the cycles succeed; whether the single items
  of a cycle can be downloaded or stored does not matter.
\<close>

theorem daemon_crawls:
  assumes "serves Z c kids page" and "token_ok Z (zl_tokens c)" and "json_ok Z" and "finite (reach kids (zl_root_id c))"
    and "saved (zl_id c) (dm_cursors d) = None"
    and "run_cycles E cc (zoho_connector Z c) (Suc (card (reach kids (zl_root_id c)))) d = Some ds"
    and "f \<in> reach kids (zl_root_id c)" and "i \<in> set (kids f)" and "\<not> zi_is_folder i"
  shows "\<exists>k \<le> card (reach kids (zl_root_id c)). \<exists>items.
     cycle_lists (zoho_connector Z c) (ds ! k) items \<and> change_of f i \<in> set items"
proof -
  let ?conn = "zoho_connector Z c" and ?st = "bootstrap (za_now_ms Z (zw_tick (dm_world d))) (zl_root_id c)"
  have "load_state Z c (saved (cn_id ?conn) (dm_cursors d)) (dm_world d) =
      Some (Returns (Inr ?st, (dm_world d)\<lparr>zw_tick := zw_tick (dm_world d) + 1\<rparr>))"
    using assms(5) by (simp add: load_state_def now_ms_def io_defs zoho_connector_def)
  moreover have "todo kids (zl_root_id c) ?st \<le> Suc (card (reach kids (zl_root_id c)))"
    by (simp add: bootstrap_def todo_def)
  ultimately obtain k where "k < Suc (card (reach kids (zl_root_id c)))" "cycle_lists ?conn (ds ! k) (files_of kids f)"
    using cycles_from [OF assms(1-4) bfs_inv_bootstrap _ _ assms(6)] assms(7) by blast
  moreover have "change_of f i \<in> set (files_of kids f)" using assms(8,9) by (simp add: files_of_def)
  ultimately show ?thesis using less_Suc_eq_le by blast
qed

text \<open>
  C14. A cursor that the source rejects is never dropped: however many passes the daemon makes, a
  connector whose saved cursor makes \<open>list_changes\<close> fail keeps that cursor.
\<close>

theorem rejected_cursor_sticks:
  assumes "daemon_run E cc conns once n d = Some (Returns d')" and "saved i (dm_cursors d) = Some c"
    and "\<forall>conn \<in> set conns. cn_id conn = i \<longrightarrow> rejects conn c"
  shows "saved i (dm_cursors d') = Some c"
  by (rule run_rejected [OF assms])

text \<open>
  C9. What the daemon stores stays readable: from a table whose item rows all open under the content
  key, any number of passes of \<open>main\<close> over its connectors, whatever they answer and whatever fails,
  leaves a table whose item rows all open under the key of the configuration.
\<close>

theorem main_keeps_rows_readable:
  assumes "ingest_env_ok E" and "parse_key hx (ar_content_key a) = Inr key"
    and "ingestion_main hx connect G Z build var E a n d = Inr (Some (Returns d'))"
    and "sealed (in_aead E) key (db_rows (dm_db d))"
  shows "sealed (in_aead E) key (db_rows (dm_db d'))"
proof -
  obtain cc where cc: "start_up hx connect a = Inr cc"
    and run: "daemon_run E cc (build_connectors G Z build var a) (ar_once a) n d = Some (Returns d')"
    using assms(3) by (auto simp: ingestion_main_def)
  have "cc_key cc = key" using cc assms(2) by (auto simp: start_up_def split: if_splits)
  with daemon_run_sealed [OF assms(1) run] assms(4) show ?thesis by simp
qed

section \<open>A concrete source\<close>

text \<open>The Zoho tree of theory \<open>Zoho\<close>, of which no file can be downloaded.\<close>

definition toy_dead :: zoho_env where
  "toy_dead = toy_zoho\<lparr>za_parse_url := \<lambda>_. Inl ''empty host''\<rparr>"

definition toy_crawler :: "zoho_world daemon" where
  "toy_crawler = \<lparr>dm_world = toy_world, dm_db = \<lparr>db_rows = [], db_tick = 0\<rparr>,
     dm_cursors = \<lparr>cu_rows = Map.empty, cu_tick = 0\<rparr>, dm_tei = 0, dm_rng = 0\<rparr>"

lemma dead_refresh: "refresh_if_needed toy_dead T = refresh_if_needed toy_zoho T"
  by (rule refresh_cong) (simp_all add: toy_dead_def)

lemma dead_laws: "serves toy_dead toy_client toy_kids 1" "token_ok toy_dead T" "json_ok toy_dead"
  using toy_serves toy_token toy_json dead_refresh
  by (simp_all add: serves_def token_ok_def json_ok_def) (simp_all add: toy_dead_def)

abbreviation dead_connector :: "zoho_world connector" where
  "dead_connector \<equiv> zoho_connector toy_dead toy_client"

lemma dead_items:
  "\<forall>i \<in> set items. \<not> ci_deleted i \<Longrightarrow>
     ingest_items toy_ingest toy_conf dead_connector items n d = Some (Returns (n, d))"
proof (induction items)
  case (Cons i items)
  have "cn_download dead_connector i (dm_world d) = Some (Returns (Inl (OtherErr ''invalid download URL: empty host''), dm_world d))"
    by (simp add: zoho_connector_def zoho_download_def toy_dead_def io_err_def)
  then have "ingest_item toy_ingest toy_conf dead_connector i d = Some (Returns (False, d))"
    using Cons.prems by (simp add: ingest_item_def)
  with Cons show ?case by simp
qed simp

lemma dead_cycle:
  assumes "zoho_list_changes toy_dead toy_client (saved ''z'' (dm_cursors d)) (dm_world d) =
      Some (Returns (Inr \<lparr>dr_next_cursor = Some s, dr_changes = items, dr_more = m\<rparr>, w))"
    and "\<forall>i \<in> set items. \<not> ci_deleted i"
  shows "\<exists>d'. run_cycle toy_ingest toy_conf dead_connector d = Some (Returns (Inr 0, d')) \<and>
     saved ''z'' (dm_cursors d') = Some s"
proof -
  have z: "length (chars ''z'') \<le> 255" using length_chars_le [of "''z''"] by (simp add: ascii_is_str)
  have conn: "cn_id dead_connector = ''z''" "cn_list_changes dead_connector = zoho_list_changes toy_dead toy_client"
    by (simp_all add: zoho_connector_def toy_client_def)
  define d1 where "d1 = d\<lparr>dm_cursors := (dm_cursors d)\<lparr>cu_tick := cu_tick (dm_cursors d) + 1\<rparr>, dm_world := w\<rparr>"
  have ld: "load_cursor (in_state toy_ingest) ''z'' (dm_cursors d) = (Inr (saved ''z'' (dm_cursors d)), dm_cursors d1)"
    by (simp add: load_cursor_def saved_def d1_def toy_ingest_def)
  obtain cu where sv: "save_cursor (in_state toy_ingest) ''z'' s (dm_cursors d1) = (Inr (), cu)"
    and cu: "saved ''z'' cu = Some s"
    using z by (auto simp: save_cursor_def saved_def toy_ingest_def Let_def)
  have d1: "d\<lparr>dm_cursors := dm_cursors d1, dm_world := w\<rparr> = d1" by (simp add: d1_def)
  have it: "ingest_items toy_ingest toy_conf dead_connector items 0 d1 = Some (Returns (0, d1))"
    by (rule dead_items [OF assms(2)])
  have "run_cycle toy_ingest toy_conf dead_connector d = Some (Returns (Inr 0, d1\<lparr>dm_cursors := cu\<rparr>))"
    using assms(1) ld it sv unfolding run_cycle_def conn by (simp add: d1 finish_cycle_def conn(1))
  with cu show ?thesis by simp
qed

text \<open>The states of the crawl's queue.\<close>

lemma kids_not_deleted: "\<forall>i \<in> set (files_of toy_kids f). \<not> ci_deleted i"
  by (auto simp: files_of_def toy_kids_def toy_item_def change_of_def)

lemma dead_folder:
  assumes "load_state toy_dead toy_client (saved ''z'' (dm_cursors d)) (dm_world d) = Some (Returns (Inr st, w1))"
    and "zu_queue st = \<lparr>fc_folder_id = f, fc_next_offset = 0\<rparr> # q" and "0 \<le> zu_watermark_ms st" and "f \<in> {''R'', ''A''}"
  shows "\<exists>d'. run_cycle toy_ingest toy_conf dead_connector d = Some (Returns (Inr 0, d')) \<and>
     load_state toy_dead toy_client (saved ''z'' (dm_cursors d')) (dm_world d') =
       Some (Returns (Inr (bfs_next toy_kids f q st), dm_world d'))"
proof -
  have "f \<in> reach toy_kids (zl_root_id toy_client)" using assms(4) toy_reach_eq by (simp add: toy_client_def)
  then obtain s w' m where
    l: "zoho_list_changes toy_dead toy_client (saved ''z'' (dm_cursors d)) (dm_world d) = Some (Returns (Inr
       \<lparr>dr_next_cursor = Some s, dr_changes = files_of toy_kids f, dr_more = m\<rparr>, w'))"
    and s: "za_from_json toy_dead s = Some (bfs_next toy_kids f q st)"
    using list_changes_step [OF dead_laws _ assms(1-3)] by metis
  from dead_cycle [OF l kids_not_deleted] obtain d' where
    "run_cycle toy_ingest toy_conf dead_connector d = Some (Returns (Inr 0, d'))" "saved ''z'' (dm_cursors d') = Some s"
    by blast
  with s show ?thesis by (simp add: load_state_def from_json_def)
qed

lemma dead_crawl: "\<exists>ds. run_cycles toy_ingest toy_conf dead_connector 3 toy_crawler = Some ds"
proof -
  let ?st0 = "bootstrap 0 ''R''"
  have sv0: "saved ''z'' (dm_cursors toy_crawler) = None" by (simp add: toy_crawler_def saved_def)
  have "load_state toy_dead toy_client (saved ''z'' (dm_cursors toy_crawler)) (dm_world toy_crawler) =
      Some (Returns (Inr ?st0, toy_world\<lparr>zw_tick := 1\<rparr>))"
    unfolding sv0 by (simp add: load_state_def now_ms_def io_defs toy_dead_def toy_zoho_def toy_client_def
        toy_crawler_def toy_world_def)
  then obtain d1 where c1: "run_cycle toy_ingest toy_conf dead_connector toy_crawler = Some (Returns (Inr 0, d1))"
    and l1: "load_state toy_dead toy_client (saved ''z'' (dm_cursors d1)) (dm_world d1) =
       Some (Returns (Inr (bfs_next toy_kids ''R'' [] ?st0), dm_world d1))"
    using dead_folder [of toy_crawler ?st0 _ "''R''" "[]"] by (auto simp: bootstrap_def)
  let ?st1 = "bfs_next toy_kids ''R'' [] ?st0"
  have q1: "zu_queue ?st1 = [\<lparr>fc_folder_id = ''A'', fc_next_offset = 0\<rparr>]" "zu_watermark_ms ?st1 = 0"
    by (simp_all add: bfs_next_def toy_kids_def absorb_items_def absorb_item_def toy_item_def bootstrap_def Let_def)
  obtain d2 where c2: "run_cycle toy_ingest toy_conf dead_connector d1 = Some (Returns (Inr 0, d2))"
    and l2: "load_state toy_dead toy_client (saved ''z'' (dm_cursors d2)) (dm_world d2) =
       Some (Returns (Inr (bfs_next toy_kids ''A'' [] ?st1), dm_world d2))"
    using dead_folder [OF l1 q1(1)] q1(2) by auto
  let ?st2 = "bfs_next toy_kids ''A'' [] ?st1"
  have q2: "zu_queue ?st2 = [\<lparr>fc_folder_id = ''R'', fc_next_offset = 0\<rparr>]" "zu_watermark_ms ?st2 = 0"
    using q1 by (simp_all add: bfs_next_def toy_kids_def absorb_items_def absorb_item_def toy_item_def bootstrap_def Let_def)
  obtain d3 where c3: "run_cycle toy_ingest toy_conf dead_connector d2 = Some (Returns (Inr 0, d3))"
    using dead_folder [OF l2 q2(1)] q2(2) by auto
  from c1 c2 c3 show ?thesis by (simp add: numeral_3_eq_3)
qed

theorem daemon_crawls_witness:
  "\<exists>ds. run_cycles toy_ingest toy_conf dead_connector 3 toy_crawler = Some ds \<and>
     (\<exists>k \<le> 2. \<exists>items. cycle_lists dead_connector (ds ! k) items \<and> change_of ''A'' (toy_item ''y'' ''file'') \<in> set items)"
proof -
  obtain ds where ds: "run_cycles toy_ingest toy_conf dead_connector 3 toy_crawler = Some ds" using dead_crawl by blast
  have R: "reach toy_kids (zl_root_id toy_client) = {''R'', ''A''}" using toy_reach_eq by (simp add: toy_client_def)
  have "\<exists>k \<le> card (reach toy_kids (zl_root_id toy_client)). \<exists>items. cycle_lists dead_connector (ds ! k) items \<and>
      change_of ''A'' (toy_item ''y'' ''file'') \<in> set items"
  proof (rule daemon_crawls [OF dead_laws])
    show "run_cycles toy_ingest toy_conf dead_connector (Suc (card (reach toy_kids (zl_root_id toy_client)))) toy_crawler = Some ds"
      using ds by (simp add: R numeral_3_eq_3)
    show "finite (reach toy_kids (zl_root_id toy_client))" by (simp add: R)
    show "saved (zl_id toy_client) (dm_cursors toy_crawler) = None" by (simp add: toy_crawler_def saved_def)
    show "''A'' \<in> reach toy_kids (zl_root_id toy_client)" by (simp add: R)
    show "toy_item ''y'' ''file'' \<in> set (toy_kids ''A'')" by (simp add: toy_kids_def)
    show "\<not> zi_is_folder (toy_item ''y'' ''file'')" by (simp add: toy_item_def zi_is_folder_def)
  qed
  moreover have "card (reach toy_kids (zl_root_id toy_client)) = 2" by (simp add: R)
  ultimately show ?thesis using ds by metis
qed

text \<open>A saved cursor that does not parse.\<close>

definition toy_garbled :: zoho_env where
  "toy_garbled = toy_zoho\<lparr>za_from_json := \<lambda>_. None\<rparr>"

definition toy_stuck :: "zoho_world daemon" where
  "toy_stuck = toy_crawler\<lparr>dm_cursors := \<lparr>cu_rows = [''z'' \<mapsto> \<lparr>sr_delta_token = ''?'', sr_last_synced = 0\<rparr>], cu_tick = 0\<rparr>\<rparr>"

theorem rejected_cursor_sticks_witness:
  "\<exists>d'. daemon_run toy_ingest toy_conf [zoho_connector toy_garbled toy_client] False 2 toy_stuck = Some (Returns d') \<and>
     saved ''z'' (dm_cursors d') = Some ''?''"
proof -
  let ?conn = "zoho_connector toy_garbled toy_client"
  have rj: "rejects ?conn ''?''" by (rule zoho_rejects) (simp add: toy_garbled_def)
  have sv: "saved ''z'' (dm_cursors toy_stuck) = Some ''?''" by (simp add: toy_stuck_def saved_def)
  have one: "\<exists>d'. daemon_pass toy_ingest toy_conf [?conn] d = Some (Returns d') \<and>
      cu_rows (dm_cursors d') ''z'' = cu_rows (dm_cursors d) ''z''"
    if s: "cu_rows (dm_cursors d) ''z'' = Some \<lparr>sr_delta_token = ''?'', sr_last_synced = 0\<rparr>" for d
  proof -
    obtain e w' where "cn_list_changes ?conn (Some ''?'') (dm_world d) = Some (Returns (Inl e, w'))"
      using rj unfolding rejects_def by blast
    with s show ?thesis by (simp add: run_cycle_def load_cursor_def toy_ingest_def zoho_connector_def toy_client_def)
  qed
  have "cu_rows (dm_cursors toy_stuck) ''z'' = Some \<lparr>sr_delta_token = ''?'', sr_last_synced = 0\<rparr>"
    by (simp add: toy_stuck_def)
  with one obtain d1 where d1: "daemon_pass toy_ingest toy_conf [?conn] toy_stuck = Some (Returns d1)"
    "cu_rows (dm_cursors d1) ''z'' = Some \<lparr>sr_delta_token = ''?'', sr_last_synced = 0\<rparr>" by metis
  with one obtain d2 where "daemon_pass toy_ingest toy_conf [?conn] d1 = Some (Returns d2)" by blast
  with d1 have "\<exists>d'. daemon_run toy_ingest toy_conf [?conn] False 2 toy_stuck = Some (Returns d')"
    by (simp add: numeral_2_eq_2 del: daemon_pass.simps)
  moreover have "\<forall>conn \<in> set [?conn]. cn_id conn = ''z'' \<longrightarrow> rejects conn ''?''" using rj by simp
  ultimately show ?thesis using rejected_cursor_sticks [OF _ sv] by blast
qed

text \<open>One pass of \<open>main\<close> over a quiet drive, on a table with a row.\<close>

definition toy_kept :: "world daemon" where
  "toy_kept = toy_drive_daemon\<lparr>dm_db := \<lparr>db_rows = [\<lparr>dc_id = 2, dc_doc_name = ''a.txt'',
      dc_classification = ''INTERNAL'', dc_chunk_index = 0,
      dc_encrypted_content = Some (replicate 12 1 @ [104, 105] @ replicate 16 7), dc_embedding = Some ''[2]'',
      dc_source_item_id = Some ''f'', dc_workspace_id = default_workspace\<rparr>], db_tick = 0\<rparr>\<rparr>"

theorem main_keeps_rows_readable_witness:
  "\<exists>d'. ingestion_main toy_hex (\<lambda>_. Inr ()) toy_quiet toy_zoho (Inr (), Inr ()) (\<lambda>_. None) toy_ingest toy_args 1 toy_kept =
       Inr (Some (Returns d')) \<and> sealed toy_aead (replicate 32 7) (db_rows (dm_db d'))"
proof -
  have key: "parse_key toy_hex (ar_content_key toy_args) = Inr (replicate 32 7)"
    using toy_hex_laws trim_hex [of "[]" "[]" "replicate 32 7"]
    by (simp add: parse_key_def hex_laws_def trim_eq_Nil ascii_is_str toy_args_def)
  then obtain cc where cc: "start_up toy_hex (\<lambda>_. Inr ()) toy_args = Inr cc"
    by (simp add: start_up_def) (simp add: toy_args_def classifications_def)
  have conns: "build_connectors toy_quiet toy_zoho (Inr (), Inr ()) (\<lambda>_. None) toy_args = [toy_built]"
    by (simp add: toy_built_def build_connectors_def graph_new_def toy_drive_def toy_args_def build_zoho_connector_def)
  have "length (chars ''D'') \<le> 255" using length_chars_le [of "''D''"] by (simp add: ascii_is_str)
  then have "\<exists>d'. run_cycle toy_ingest cc toy_built toy_kept = Some (Returns (Inr 0, d'))"
    using toy_quiet_list
    by (auto simp: run_cycle_def load_cursor_def save_cursor_def finish_cycle_def toy_built_def part_connector_def
        on_part_def graph_connector_def toy_kept_def toy_drive_daemon_def toy_ingest_def toy_drive_def Let_def)
  then obtain d' where run: "ingestion_main toy_hex (\<lambda>_. Inr ()) toy_quiet toy_zoho (Inr (), Inr ()) (\<lambda>_. None)
      toy_ingest toy_args 1 toy_kept = Inr (Some (Returns d'))"
    using cc conns by (auto simp: ingestion_main_def)
  have "sealed (in_aead toy_ingest) (replicate 32 7) (db_rows (dm_db toy_kept))"
    by (auto simp: sealed_def toy_kept_def item_view_def item_rows_def toy_ingest_def kr_decrypt_def MIN_LEN_def
        IV_LEN_def toy_aead_def split: if_splits)
  from main_keeps_rows_readable [OF toy_env_ok key run this] run show ?thesis by (simp add: toy_ingest_def)
qed

end
