(* ===== verification/Index_Spec.thy ===== *)
theory Index_Spec
  imports Daemon
begin

text \<open>
  What the daemon promises, without its mechanisms: an index that gives each item its numbered texts, a cursor
  for each connector, and the changes that are still to be treated before the cursor of their
  connector may move (\<open>istep\<close>). The daemon itself is taken one treated change at a time (\<open>dstep\<close>): its
  process may also end at any moment, by a panic or because it is killed, and be started again on the tables as they
  then are. \<open>index_of\<close> reads the index of a daemon from its tables, through the key; the steps of the daemon are
  simulated by those of the specification, and what \<open>daemon_run\<close> computes is a run of these steps.
\<close>

section \<open>The abstract daemon\<close>

type_synonym index = "string \<Rightarrow> (u32 \<times> (anyhow + bytes) option) list"

record index_state =
  ix_texts :: index
  ix_cursor :: "string \<Rightarrow> string option"

text \<open>The texts of an item: the windows of its content that are not blank, numbered from 0.\<close>

definition item_windows :: "change_item \<Rightarrow> bytes \<Rightarrow> string list" where
  "item_windows item content =
     map of_chars (filter (\<lambda>w. \<not> blank w) (windows (chars (extract_text content (ci_name item)))))"

definition numbered_texts :: "string list \<Rightarrow> (u32 \<times> (anyhow + bytes) option) list" where
  "numbered_texts cs = map (\<lambda>(k, c). (of_nat k, Some (Inr (as_bytes c)))) (enumerate 0 cs)"

text \<open>
  The reasons for which a change may be passed over: the \<open>DELETE\<close> of a deleted item fails; the download of another
  one fails; what it delivers has no text; or the encryption, the embedding or the upsert of its texts fails.
\<close>

inductive may_pass :: "'f ingest_env \<Rightarrow> cycle_conf \<Rightarrow> 'w connector \<Rightarrow> change_item \<Rightarrow> bool" for E cc conn item where
  undeleted: "ci_deleted item \<Longrightarrow> delete_chunks (in_pg E) (ci_remote_id item) db = (Inl e, db') \<Longrightarrow>
     may_pass E cc conn item"
| undelivered: "\<not> ci_deleted item \<Longrightarrow> cn_download conn item w = Some (Returns (Inl f, w')) \<Longrightarrow> may_pass E cc conn item"
| textless: "\<not> ci_deleted item \<Longrightarrow> cn_download conn item w = Some (Returns (Inr content, w')) \<Longrightarrow>
     item_windows item content = [] \<Longrightarrow> may_pass E cc conn item"
| unsealed: "\<not> ci_deleted item \<Longrightarrow> cn_download conn item w = Some (Returns (Inr content, w')) \<Longrightarrow>
     encrypt_all E (cc_key cc) (item_windows item content) t = (Inl e, t') \<Longrightarrow> may_pass E cc conn item"
| unembedded: "\<not> ci_deleted item \<Longrightarrow> cn_download conn item w = Some (Returns (Inr content, w')) \<Longrightarrow>
     embed_batch (in_embed E) (cc_tei cc) (item_windows item content) u = (Inl e, u') \<Longrightarrow> may_pass E cc conn item"
| unstored: "\<not> ci_deleted item \<Longrightarrow> cn_download conn item w = Some (Returns (Inr content, w')) \<Longrightarrow>
     upsert_chunks (in_pg E) (ci_remote_id item) (ci_name item) (cc_classification cc) encs embs db = Returns (Inl e, db') \<Longrightarrow>
     may_pass E cc conn item"

text \<open>
  A change removes the texts of its item, replaces all of them, or is passed over for a reason; only replacing them
  counts as processed.
\<close>

inductive handled :: "'f ingest_env \<Rightarrow> cycle_conf \<Rightarrow> 'w connector \<Rightarrow> change_item \<Rightarrow> bool \<Rightarrow> index \<Rightarrow> index \<Rightarrow> bool"
    for E cc conn where
  dropped: "ci_deleted item \<Longrightarrow> handled E cc conn item False ix (ix(ci_remote_id item := []))"
| passed_over: "may_pass E cc conn item \<Longrightarrow> handled E cc conn item False ix ix"
| replaced: "\<not> ci_deleted item \<Longrightarrow> cn_download conn item w = Some (Returns (Inr content, w')) \<Longrightarrow>
     item_windows item content \<noteq> [] \<Longrightarrow>
     handled E cc conn item True ix (ix(ci_remote_id item := numbered_texts (item_windows item content)))"

text \<open>
  The state has the index and, while a cycle is under way, its connector, the changes still to be treated and the
  cursor that came with them. The changes are those listed from the saved cursor; they are treated in order; and
  only when none is left does the cursor move. It stays if there is none to save or saving it fails. The cycle
  is given up, with the cursor where it was, when the process ends (\<open>may_end\<close>).
\<close>

type_synonym 'w todo = "'w connector \<times> change_item list \<times> string option"

inductive istep :: "'f ingest_env \<Rightarrow> cycle_conf \<Rightarrow> 'w connector list \<Rightarrow> bool \<Rightarrow>
    index_state \<times> 'w todo option \<Rightarrow> index_state \<times> 'w todo option \<Rightarrow> bool" for E cc conns may_end where
  listed: "conn \<in> set conns \<Longrightarrow> cn_list_changes conn (ix_cursor s (cn_id conn)) w = Some (Returns (Inr delta, w')) \<Longrightarrow>
     istep E cc conns may_end (s, None) (s, Some (conn, dr_changes delta, dr_next_cursor delta))"
| treated: "handled E cc conn item ok (ix_texts s) ix \<Longrightarrow>
     istep E cc conns may_end (s, Some (conn, item # items, c)) (s\<lparr>ix_texts := ix\<rparr>, Some (conn, items, c))"
| moved: "istep E cc conns may_end (s, Some (conn, [], Some c))
     (s\<lparr>ix_cursor := (ix_cursor s)(cn_id conn \<mapsto> c)\<rparr>, None)"
| nothing_to_save: "istep E cc conns may_end (s, Some (conn, [], None)) (s, None)"
| unsaved: "save_cursor (in_state E) (cn_id conn) c cu = (Inl e, cu') \<Longrightarrow>
     istep E cc conns may_end (s, Some (conn, [], Some c)) (s, None)"
| given_up: "may_end \<Longrightarrow> istep E cc conns may_end (s, work) (s, None)"

section \<open>The daemon, one change at a time\<close>

text \<open>
  Before a pass; in a pass, with the connectors to come; in a cycle, with the changes to come, the next cursor
  and the number of processed changes; stopped, after the pass of \<open>--once\<close>. A step that ends the process
  keeps the tables; what is in memory is lost, and the world is whatever it then is.
\<close>

datatype 'w dphase =
    Starting
  | Passing "'w connector list"
  | Handling "'w connector" "change_item list" "string option" nat "'w connector list"
  | Stopped

inductive dstep :: "'f ingest_env \<Rightarrow> cycle_conf \<Rightarrow> 'w connector list \<Rightarrow> bool \<Rightarrow> bool \<Rightarrow>
    'w daemon \<times> 'w dphase \<Rightarrow> 'w daemon \<times> 'w dphase \<Rightarrow> bool" for E cc conns once may_end where
  begin_pass: "dstep E cc conns once may_end (d, Starting) (d, Passing conns)"
| end_pass: "dstep E cc conns once may_end (d, Passing []) (d, if once then Stopped else Starting)"
| load_fails: "load_cursor (in_state E) (cn_id conn) (dm_cursors d) = (Inl e, cu) \<Longrightarrow>
     dstep E cc conns once may_end (d, Passing (conn # cs)) (d\<lparr>dm_cursors := cu\<rparr>, Passing cs)"
| list_fails: "load_cursor (in_state E) (cn_id conn) (dm_cursors d) = (Inr cursor, cu) \<Longrightarrow>
     cn_list_changes conn cursor (dm_world d) = Some (Returns (Inl f, w)) \<Longrightarrow>
     dstep E cc conns once may_end (d, Passing (conn # cs)) (d\<lparr>dm_cursors := cu, dm_world := w\<rparr>, Passing cs)"
| list_changes: "load_cursor (in_state E) (cn_id conn) (dm_cursors d) = (Inr cursor, cu) \<Longrightarrow>
     cn_list_changes conn cursor (dm_world d) = Some (Returns (Inr delta, w)) \<Longrightarrow>
     dstep E cc conns once may_end (d, Passing (conn # cs))
       (d\<lparr>dm_cursors := cu, dm_world := w\<rparr>, Handling conn (dr_changes delta) (dr_next_cursor delta) 0 cs)"
| one_change: "ingest_item E cc conn item d = Some (Returns (ok, d')) \<Longrightarrow>
     dstep E cc conns once may_end (d, Handling conn (item # items) c n cs)
       (d', Handling conn items c (if ok then n + 1 else n) cs)"
| finish: "finish_cycle E conn c n d = (r, d') \<Longrightarrow>
     dstep E cc conns once may_end (d, Handling conn [] c n cs) (d', Passing cs)"
| process_ends: "may_end \<Longrightarrow> dstep E cc conns once may_end (d, p) (d\<lparr>dm_world := w\<rparr>, Starting)"

text \<open>The runs that \<open>daemon_run\<close> computes are runs of these steps.\<close>

lemma items_run:
  "ingest_items E cc conn items n d = Some (Returns (m, d')) \<Longrightarrow>
     (dstep E cc conns once may_end)\<^sup>*\<^sup>* (d, Handling conn items c n cs) (d', Handling conn [] c m cs)"
proof (induction items arbitrary: n d)
  case (Cons item items)
  then obtain ok d1 where one: "ingest_item E cc conn item d = Some (Returns (ok, d1))"
    and rest: "ingest_items E cc conn items (if ok then n + 1 else n) d1 = Some (Returns (m, d'))"
    by (auto split: outcome_splits prod.splits)
  from dstep.one_change [OF one] Cons.IH [OF rest] show ?case by (rule converse_rtranclp_into_rtranclp)
qed simp

lemma cycle_run:
  assumes "run_cycle E cc conn d = Some (Returns (r, d'))"
  shows "(dstep E cc conns once may_end)\<^sup>*\<^sup>* (d, Passing (conn # cs)) (d', Passing cs)"
proof -
  let ?step = "dstep E cc conns once may_end"
  obtain l cu where ld: "load_cursor (in_state E) (cn_id conn) (dm_cursors d) = (l, cu)" by fastforce
  show ?thesis
  proof (cases l)
    case (Inl e)
    with assms ld have "d' = d\<lparr>dm_cursors := cu\<rparr>" by (simp add: run_cycle_def)
    with dstep.load_fails [OF ld [unfolded Inl]] show ?thesis by (simp add: r_into_rtranclp)
  next
    case (Inr cursor)
    note ld = ld [unfolded Inr]
    consider (fails) f w where "cn_list_changes conn cursor (dm_world d) = Some (Returns (Inl f, w))"
      | (lists) delta w where "cn_list_changes conn cursor (dm_world d) = Some (Returns (Inr delta, w))"
      using assms ld by (auto simp: run_cycle_def split: outcome_splits sum.splits)
    then show ?thesis
    proof cases
      case fails
      with assms ld have "d' = d\<lparr>dm_cursors := cu, dm_world := w\<rparr>" by (simp add: run_cycle_def)
      with dstep.list_fails [OF ld fails] show ?thesis by (simp add: r_into_rtranclp)
    next
      case lists
      with assms ld obtain n d2 where
        items: "ingest_items E cc conn (dr_changes delta) 0 (d\<lparr>dm_cursors := cu, dm_world := w\<rparr>) = Some (Returns (n, d2))"
        and fin: "finish_cycle E conn (dr_next_cursor delta) n d2 = (r, d')"
        by (auto simp: run_cycle_def)
      note dstep.list_changes [OF ld lists]
      also note items_run [OF items]
      also note dstep.finish [OF fin]
      finally show ?thesis .
    qed
  qed
qed

lemma pass_run:
  "daemon_pass E cc cs d = Some (Returns d') \<Longrightarrow>
     (dstep E cc conns once may_end)\<^sup>*\<^sup>* (d, Passing cs) (d', Passing [])"
proof (induction cs arbitrary: d)
  case (Cons conn cs)
  then obtain r d1 where one: "run_cycle E cc conn d = Some (Returns (r, d1))"
    and rest: "daemon_pass E cc cs d1 = Some (Returns d')"
    by (auto split: outcome_splits)
  from rtranclp_trans [OF cycle_run [OF one] Cons.IH [OF rest]] show ?case .
qed simp

lemma daemon_run_steps:
  "daemon_run E cc conns once n d = Some (Returns d') \<Longrightarrow>
     \<exists>p. (dstep E cc conns once may_end)\<^sup>*\<^sup>* (d, Starting) (d', p)"
proof (induction n arbitrary: d)
  case (Suc n)
  let ?step = "dstep E cc conns once may_end"
  obtain d1 where one: "daemon_pass E cc conns d = Some (Returns d1)"
    and rest: "if once then d' = d1 else daemon_run E cc conns once n d1 = Some (Returns d')"
    using Suc.prems by (auto split: outcome_splits if_splits)
  have "?step\<^sup>*\<^sup>* (d, Starting) (d, Passing conns)" by (rule r_into_rtranclp) (rule dstep.begin_pass)
  also have "?step\<^sup>*\<^sup>* (d, Passing conns) (d1, Passing [])" by (rule pass_run [OF one])
  also have "?step\<^sup>*\<^sup>* (d1, Passing []) (d1, if once then Stopped else Starting)"
    by (rule r_into_rtranclp) (rule dstep.end_pass)
  finally have run: "?step\<^sup>*\<^sup>* (d, Starting) (d1, if once then Stopped else Starting)" .
  show ?case
  proof (cases once)
    case True
    with run rest show ?thesis by auto
  next
    case False
    with Suc.IH [of d1] rest obtain p where "?step\<^sup>*\<^sup>* (d1, Starting) (d', p)" by auto
    with run False show ?thesis by (auto intro: rtranclp_trans)
  qed
qed auto

section \<open>The index of a daemon\<close>

text \<open>The texts the rows of an item hold under a key: chunk number and plaintext.\<close>

definition item_texts :: "aead \<Rightarrow> bytes \<Rightarrow> string \<Rightarrow> table \<Rightarrow> (u32 \<times> (anyhow + bytes) option) list" where
  "item_texts A key item rows =
     map (\<lambda>r. (dc_chunk_index r, map_option (kr_decrypt A key) (dc_encrypted_content r))) (item_rows item rows)"

definition texts_of :: "aead \<Rightarrow> bytes \<Rightarrow> table \<Rightarrow> index" where
  "texts_of A key rows = (\<lambda>item. item_texts A key item rows)"

definition index_of :: "aead \<Rightarrow> bytes \<Rightarrow> 'w daemon \<Rightarrow> index_state" where
  "index_of A key d =
     \<lparr>ix_texts = texts_of A key (db_rows (dm_db d)), ix_cursor = (\<lambda>j. saved j (dm_cursors d))\<rparr>"

lemma item_texts_view:
  "item_texts A key item rows = map (\<lambda>(k, enc, emb). (k, map_option (kr_decrypt A key) enc)) (item_view item rows)"
  by (simp add: item_texts_def item_view_def comp_def)

lemma item_texts_stored:
  assumes "item_view item rows = stored shw 0 (zip encs embs)" and "length encs = length cs" and "length embs = length cs"
    and "\<forall>i < length cs. kr_decrypt A key (encs ! i) = Inr (as_bytes (cs ! i))"
  shows "item_texts A key item rows = numbered_texts cs"
  unfolding item_texts_view assms(1) stored_def numbered_texts_def using assms(2-4)
  by (intro nth_equalityI) (auto simp: enumerate_eq_zip)

lemma texts_of_update:
  assumes "\<And>i. i \<noteq> item \<Longrightarrow> item_view i rows' = item_view i rows"
  shows "texts_of A key rows' = (texts_of A key rows)(item := item_texts A key item rows')"
  using assms by (auto simp: texts_of_def item_texts_view fun_eq_iff)

section \<open>The simulation\<close>

lemma item_windows_none: "extract_text content (ci_name item) = [] \<Longrightarrow> item_windows item content = []"
  using chunk_eq [of "[]"] by (simp add: item_windows_def chunk_def trim_eq_Nil)

text \<open>An item that does not count as processed, and is not a deletion, was passed over for a reason.\<close>

lemma store_chunks_fails:
  assumes "store_chunks E cc item cs d = Returns (False, d')"
  shows "(\<exists>t e t'. encrypt_all E (cc_key cc) cs t = (Inl e, t')) \<or>
     (\<exists>u e u'. embed_batch (in_embed E) (cc_tei cc) cs u = (Inl e, u')) \<or>
     (\<exists>encs embs db e db'. upsert_chunks (in_pg E) (ci_remote_id item) (ci_name item) (cc_classification cc) encs embs db =
        Returns (Inl e, db'))"
proof (cases "encrypt_all E (cc_key cc) cs (dm_rng d)")
  case enc: (Pair r t)
  show ?thesis
  proof (cases r)
    case encs: (Inr encs)
    show ?thesis
    proof (cases "embed_batch (in_embed E) (cc_tei cc) cs (dm_tei d)")
      case emb: (Pair q u)
      show ?thesis
      proof (cases q)
        case (Inr embs)
        with assms enc encs emb obtain x db where
          "upsert_chunks (in_pg E) (ci_remote_id item) (ci_name item) (cc_classification cc) encs embs (dm_db d) =
            Returns (x, db)" "x \<noteq> Inr ()" by (auto simp: store_chunks_def)
        then show ?thesis by (cases x) auto
      qed (use emb in blast)
    qed
  qed (use enc in blast)
qed

lemma ingest_item_passes:
  assumes "ingest_item E cc conn item d = Some (Returns (False, d'))" and "\<not> ci_deleted item"
  shows "may_pass E cc conn item"
  using assms(1)
proof (cases rule: ingest_item_cases)
  case (failed e w)
  then show ?thesis by (intro may_pass.undelivered)
next
  case (downloaded content w)
  show ?thesis
  proof (cases "item_windows item content = []")
    case True
    then show ?thesis by (rule may_pass.textless [OF downloaded(1,2)])
  next
    case False
    then have "extract_text content (ci_name item) \<noteq> []" using item_windows_none by blast
    then have "store_chunks E cc item (item_windows item content) (d\<lparr>dm_world := w\<rparr>) = Returns (False, d')"
      using downloaded(3) False by (simp add: store_content_def chunk_eq item_windows_def Let_def)
    from store_chunks_fails [OF this] show ?thesis
      using may_pass.unsealed [OF downloaded(1,2)] may_pass.unembedded [OF downloaded(1,2)]
        may_pass.unstored [OF downloaded(1,2)] by blast
  qed
qed (use assms(2) in simp)

lemma ingest_item_handled:
  assumes "ingest_env_ok E" and run: "ingest_item E cc conn item d = Some (Returns (ok, d'))"
  shows "handled E cc conn item ok (texts_of (in_aead E) (cc_key cc) (db_rows (dm_db d)))
     (texts_of (in_aead E) (cc_key cc) (db_rows (dm_db d')))"
proof -
  let ?T = "\<lambda>d. texts_of (in_aead E) (cc_key cc) (db_rows (dm_db d))"
  have upd: "?T d' = (?T d)(ci_remote_id item := item_texts (in_aead E) (cc_key cc) (ci_remote_id item) (db_rows (dm_db d')))"
    using ingest_item_frame [OF run] by (intro texts_of_update) blast
  consider (del) r db where "ci_deleted item" "\<not> ok" "d' = d\<lparr>dm_db := db\<rparr>"
      "delete_chunks (in_pg E) (ci_remote_id item) (dm_db d) = (r, db)"
    | (kept) "\<not> ci_deleted item" "\<not> ok" | (put) "\<not> ci_deleted item" ok
    using run by (cases rule: ingest_item_cases) auto
  then show ?thesis
  proof cases
    case del
    show ?thesis
    proof (cases r)
      case (Inl e)
      with del pgc.del_err [of "in_pg E"] have "?T d' = ?T d" by simp
      with del Inl show ?thesis by (simp add: handled.passed_over may_pass.undeleted)
    next
      case (Inr u)
      with del pgc.del_ok [of "in_pg E"] have "item_view (ci_remote_id item) (db_rows (dm_db d')) = []" by simp
      then have "?T d' = (?T d)(ci_remote_id item := [])" unfolding upd by (simp add: item_texts_view)
      with del show ?thesis using handled.dropped by metis
    qed
  next
    case kept
    with ingest_item_skipped [of E cc conn item d d'] ingest_item_passes [of E cc conn item d d'] run
    show ?thesis by (simp add: handled.passed_over)
  next
    case put
    obtain content w chunks encs embs where x:
      "cn_download conn item (dm_world d) = Some (Returns (Inr content, w))" "chunks = item_windows item content"
      "chunks \<noteq> []" "length encs = length chunks" "length embs = length chunks"
      "item_view (ci_remote_id item) (db_rows (dm_db d')) = stored (pg_show (in_pg E)) 0 (zip encs embs)"
      "\<forall>i < length chunks. kr_decrypt (in_aead E) (cc_key cc) (encs ! i) = Inr (as_bytes (chunks ! i))"
      using ingest_item_stores [OF assms(1) run [unfolded eqTrueI [OF put(2)]]] unfolding item_windows_def by blast
    have "?T d' = (?T d)(ci_remote_id item := numbered_texts (item_windows item content))"
      unfolding upd item_texts_stored [OF x(6,4,5,7)] x(2) ..
    with put x(1-3) show ?thesis by (simp add: handled.replaced)
  qed
qed

text \<open>The abstraction of a phase, and the connectors in it.\<close>

fun todo_of :: "'w dphase \<Rightarrow> 'w todo option" where
  "todo_of (Handling conn items c n cs) = Some (conn, items, c)"
| "todo_of _ = None"

fun at_work :: "'w dphase \<Rightarrow> 'w connector set" where
  "at_work (Passing cs) = set cs"
| "at_work (Handling conn items c n cs) = insert conn (set cs)"
| "at_work _ = {}"

definition abs_state :: "aead \<Rightarrow> bytes \<Rightarrow> 'w daemon \<times> 'w dphase \<Rightarrow> index_state \<times> 'w todo option" where
  "abs_state A key s = (index_of A key (fst s), todo_of (snd s))"

lemma at_work_step: "dstep E cc conns once may_end s t \<Longrightarrow> at_work (snd s) \<subseteq> set conns \<Longrightarrow> at_work (snd t) \<subseteq> set conns"
  by (erule dstep.cases) auto

lemma index_of_cong:
  "dm_db d' = dm_db d \<Longrightarrow> (\<And>j. saved j (dm_cursors d') = saved j (dm_cursors d)) \<Longrightarrow> index_of A key d' = index_of A key d"
  by (simp add: index_of_def)

text \<open>The end of a cycle moves the cursor, or keeps it because there is none or it cannot be saved.\<close>

lemma finish_simulated:
  assumes "finish_cycle E conn c n d = (r, d')"
  shows "istep E cc conns may_end (index_of A key d, Some (conn, [], c)) (index_of A key d', None)"
proof (cases c)
  case None
  with assms show ?thesis by (simp add: finish_cycle_def istep.nothing_to_save)
next
  case (Some t)
  obtain q cu where sv: "save_cursor (in_state E) (cn_id conn) t (dm_cursors d) = (q, cu)" by fastforce
  then have d': "d' = d\<lparr>dm_cursors := cu\<rparr>" using assms Some by (auto simp: finish_cycle_def split: sum.splits)
  show ?thesis
  proof (cases q)
    case (Inl e)
    with save_cursor_saved [OF sv] have "index_of A key d' = index_of A key d" by (simp add: d' index_of_def)
    with istep.unsaved [OF sv [unfolded Inl]] Some show ?thesis by simp
  next
    case (Inr u)
    with save_cursor_saved [OF sv] have "index_of A key d' =
        (index_of A key d)\<lparr>ix_cursor := (ix_cursor (index_of A key d))(cn_id conn \<mapsto> t)\<rparr>"
      by (simp add: d' index_of_def fun_eq_iff)
    with Some show ?thesis by (simp add: istep.moved)
  qed
qed

lemma dstep_simulated:
  assumes "ingest_env_ok E" and "dstep E cc conns once may_end s t" and "at_work (snd s) \<subseteq> set conns"
  shows "(istep E cc conns may_end)\<^sup>*\<^sup>* (abs_state (in_aead E) (cc_key cc) s) (abs_state (in_aead E) (cc_key cc) t)"
  using assms(2)
proof cases
  case (load_fails conn d e cu cs)
  then have "index_of A key (d\<lparr>dm_cursors := cu\<rparr>) = index_of A key d" for A key
    using load_cursor_saved by (intro index_of_cong) auto
  with load_fails show ?thesis by (simp add: abs_state_def)
next
  case (list_fails conn d cursor cu f w cs)
  then have "index_of A key (d\<lparr>dm_cursors := cu, dm_world := w\<rparr>) = index_of A key d" for A key
    using load_cursor_saved [of "in_state E"] by (intro index_of_cong) auto
  with list_fails show ?thesis by (simp add: abs_state_def)
next
  case (list_changes conn d cursor cu delta w cs)
  have same: "index_of A key (d\<lparr>dm_cursors := cu, dm_world := w\<rparr>) = index_of A key d" for A key
    using load_cursor_saved [OF list_changes(3)] by (intro index_of_cong) auto
  have "cursor = ix_cursor (index_of (in_aead E) (cc_key cc) d) (cn_id conn)"
    using load_cursor_saved [OF list_changes(3)] by (auto simp: index_of_def)
  with list_changes(4) assms(3) list_changes(1) have "istep E cc conns may_end
      (index_of (in_aead E) (cc_key cc) d, None)
      (index_of (in_aead E) (cc_key cc) d, Some (conn, dr_changes delta, dr_next_cursor delta))"
    by (intro istep.listed) auto
  with list_changes same show ?thesis by (simp add: abs_state_def r_into_rtranclp)
next
  case (one_change conn item d ok d' items c n cs)
  let ?I = "index_of (in_aead E) (cc_key cc)"
  have "dm_cursors d' = dm_cursors d" using ingest_item_frame [OF one_change(3)] by blast
  then have "?I d' = (?I d)\<lparr>ix_texts := texts_of (in_aead E) (cc_key cc) (db_rows (dm_db d'))\<rparr>" by (simp add: index_of_def)
  moreover have "handled E cc conn item ok (ix_texts (?I d)) (texts_of (in_aead E) (cc_key cc) (db_rows (dm_db d')))"
    using ingest_item_handled [OF assms(1) one_change(3)] by (simp add: index_of_def)
  ultimately have "istep E cc conns may_end (?I d, Some (conn, item # items, c)) (?I d', Some (conn, items, c))"
    using istep.treated by metis
  with one_change show ?thesis by (simp add: abs_state_def r_into_rtranclp)
next
  case (finish conn c n d r d' cs)
  from finish_simulated [OF finish(3)] finish show ?thesis by (simp add: abs_state_def r_into_rtranclp)
next
  case (process_ends d p w)
  have "index_of A key (d\<lparr>dm_world := w\<rparr>) = index_of A key d" for A key by (rule index_of_cong) simp_all
  with process_ends istep.given_up [of may_end E cc conns] show ?thesis
    by (simp add: abs_state_def r_into_rtranclp)
qed (simp_all add: abs_state_def)

lemma dsteps_simulated:
  assumes "ingest_env_ok E" and "(dstep E cc conns once may_end)\<^sup>*\<^sup>* (d, Starting) s"
  shows "(istep E cc conns may_end)\<^sup>*\<^sup>* (abs_state (in_aead E) (cc_key cc) (d, Starting)) (abs_state (in_aead E) (cc_key cc) s) \<and>
     at_work (snd s) \<subseteq> set conns"
  using assms(2)
proof (induction rule: rtranclp_induct)
  case (step u v)
  with dstep_simulated [OF assms(1) step(2)] at_work_step [OF step(2)] show ?case by (auto intro: rtranclp_trans)
qed simp

section \<open>Where texts come from\<close>

text \<open>The texts some connector gave for an item, whatever the state it was asked in.\<close>

definition given :: "'w connector list \<Rightarrow> string \<Rightarrow> (u32 \<times> (anyhow + bytes) option) list \<Rightarrow> bool" where
  "given conns item ts \<longleftrightarrow> (\<exists>conn \<in> set conns. \<exists>ch w content w'. ci_remote_id ch = item \<and> \<not> ci_deleted ch \<and>
     cn_download conn ch w = Some (Returns (Inr content, w')) \<and> ts = numbered_texts (item_windows ch content))"

lemma handled_given:
  assumes "handled E cc conn ch ok ix ix'" and "conn \<in> set conns"
  shows "ix' item = ix item \<or> ix' item = [] \<or> given conns item (ix' item)"
  using assms(1)
proof (cases rule: handled.cases)
  case (replaced w content w')
  then have "given conns (ci_remote_id ch) (numbered_texts (item_windows ch content))"
    unfolding given_def using assms(2) by blast
  with replaced show ?thesis by simp
qed simp_all

lemma istep_given:
  assumes "istep E cc conns may_end s t" and "\<forall>conn items c. snd s = Some (conn, items, c) \<longrightarrow> conn \<in> set conns"
  shows "(ix_texts (fst t) item = ix_texts (fst s) item \<or> ix_texts (fst t) item = [] \<or> given conns item (ix_texts (fst t) item)) \<and>
     (\<forall>conn items c. snd t = Some (conn, items, c) \<longrightarrow> conn \<in> set conns)"
  using assms(1)
proof cases
  case (treated conn ch ok s ix items c)
  with assms(2) handled_given [OF treated(3), of conns item] show ?thesis by simp
qed (use assms(2) in simp_all)

lemma isteps_given:
  assumes "(istep E cc conns may_end)\<^sup>*\<^sup>* (s, None) t"
  shows "(ix_texts (fst t) item = ix_texts s item \<or> ix_texts (fst t) item = [] \<or> given conns item (ix_texts (fst t) item)) \<and>
     (\<forall>conn items c. snd t = Some (conn, items, c) \<longrightarrow> conn \<in> set conns)"
  using assms
proof (induction rule: rtranclp_induct)
  case (step u v)
  from istep_given [OF step(2), of item] step(3) show ?case by metis
qed simp

section \<open>Properties\<close>

text \<open>
  C7. The daemon refines its specification: every run of its steps, whatever fails and whenever the process ends and is
  started again, is a run of the specification on the index read from its tables. So every cycle lists from the
  saved cursor of its connector; it treats the listed changes in order, each by removing, replacing or, for
  a reason of \<open>may_pass\<close>, keeping the texts of its item as a whole; and at every moment the cursor is the old
  one until no change is left to be treated. What \<open>daemon_run\<close> returns is reached by these steps, with none that
  ends the process.
\<close>

theorem daemon_refines_index:
  assumes "ingest_env_ok E"
  shows "(\<forall>s. (dstep E cc conns once may_end)\<^sup>*\<^sup>* (d, Starting) s \<longrightarrow>
       (istep E cc conns may_end)\<^sup>*\<^sup>* (abs_state (in_aead E) (cc_key cc) (d, Starting)) (abs_state (in_aead E) (cc_key cc) s)) \<and>
     (\<forall>n d'. daemon_run E cc conns once n d = Some (Returns d') \<longrightarrow>
       (\<exists>p. (dstep E cc conns once False)\<^sup>*\<^sup>* (d, Starting) (d', p)))"
  using dsteps_simulated [OF assms] daemon_run_steps by blast

text \<open>
  C8. Nothing foreign enters the index: after any number of passes, the texts stored for an item are
  those it had at the start, or none, or exactly the numbered windows of a content that one of the
  connectors delivered for this very item.
\<close>

theorem index_provenance:
  assumes "ingest_env_ok E" and "daemon_run E cc conns once n d = Some (Returns d')"
  shows "let ts = item_texts (in_aead E) (cc_key cc) item (db_rows (dm_db d')) in
     ts = item_texts (in_aead E) (cc_key cc) item (db_rows (dm_db d)) \<or> ts = [] \<or>
     (\<exists>conn \<in> set conns. \<exists>ch w content w'. ci_remote_id ch = item \<and> \<not> ci_deleted ch \<and>
        cn_download conn ch w = Some (Returns (Inr content, w')) \<and>
        ts = numbered_texts (map of_chars (filter (\<lambda>w. \<not> blank w)
               (windows (chars (extract_text content (ci_name ch)))))))"
proof -
  obtain p where run: "(dstep E cc conns once False)\<^sup>*\<^sup>* (d, Starting) (d', p)"
    using daemon_run_steps [OF assms(2)] by blast
  have "(istep E cc conns False)\<^sup>*\<^sup>* (index_of (in_aead E) (cc_key cc) d, None) (abs_state (in_aead E) (cc_key cc) (d', p))"
    using dsteps_simulated [OF assms(1) run] by (simp add: abs_state_def)
  from isteps_given [OF this, of item] show ?thesis
    by (auto simp: abs_state_def index_of_def texts_of_def given_def item_windows_def Let_def)
qed

section \<open>A concrete run\<close>

text \<open>One pass over the source of theory \<open>Ingestion\<close> whose file can be downloaded.\<close>

lemma toy_indexes: "\<exists>d'. run_cycle toy_ingest toy_conf (toy_source ''a.txt'') toy_daemon = Some (Returns (Inr 1, d')) \<and>
    db_tick (dm_db d') = 4 \<and> saved ''D'' (dm_cursors d') = Some ''c1'' \<and>
    item_texts toy_aead (replicate 32 7) ''f'' (db_rows (dm_db d')) \<noteq> []"
proof -
  let ?cu = "(dm_cursors toy_daemon)\<lparr>cu_tick := 1\<rparr>"
  obtain d1 where one: "ingest_item toy_ingest toy_conf (toy_source ''a.txt'') (toy_file ''a.txt'')
      (toy_daemon\<lparr>dm_cursors := ?cu\<rparr>) = Some (Returns (True, d1))" "dm_cursors d1 = ?cu" "db_tick (dm_db d1) = 4"
      "item_texts toy_aead (replicate 32 7) ''f'' (db_rows (dm_db d1)) \<noteq> []"
    using toy_ingests_any [of ?cu] by (auto simp: item_texts_def item_rows_def)
  let ?d1 = "d1\<lparr>dm_cursors := \<lparr>cu_rows = [''D'' \<mapsto> \<lparr>sr_delta_token = ''c1'', sr_last_synced = 1\<rparr>], cu_tick = 2\<rparr>\<rparr>"
  have "length (chars ''D'') \<le> 255" using length_chars_le [of "''D''"] by (simp add: ascii_is_str)
  then have fin: "finish_cycle toy_ingest (toy_source ''a.txt'') (Some ''c1'') 1 d1 = (Inr 1, ?d1)"
    using one(2) by (simp add: finish_cycle_def save_cursor_def toy_source_def toy_ingest_def toy_daemon_def Let_def)
  have ld: "load_cursor (in_state toy_ingest) (cn_id (toy_source ''a.txt'')) (dm_cursors toy_daemon) = (Inr None, ?cu)"
    by (simp add: load_cursor_def toy_ingest_def toy_daemon_def)
  have ls: "cn_list_changes (toy_source ''a.txt'') c w = Some (Returns (Inr
      \<lparr>dr_next_cursor = Some ''c1'', dr_changes = [toy_file ''a.txt''], dr_more = False\<rparr>, w))" for c w
    by (simp add: toy_source_def)
  have wd: "toy_daemon\<lparr>dm_cursors := cu, dm_world := ()\<rparr> = toy_daemon\<lparr>dm_cursors := cu\<rparr>" for cu
    by (simp add: toy_daemon_def)
  have "run_cycle toy_ingest toy_conf (toy_source ''a.txt'') toy_daemon = Some (Returns (Inr 1, ?d1))"
    using one(1) fin by (simp add: run_cycle_def ld ls wd)
  with one show ?thesis by (simp add: saved_def)
qed

lemma toy_runs: "\<exists>d'. daemon_run toy_ingest toy_conf [toy_source ''a.txt''] True 1 toy_daemon = Some (Returns d') \<and>
    item_texts toy_aead (replicate 32 7) ''f'' (db_rows (dm_db d')) \<noteq> []"
  using toy_indexes by auto

theorem daemon_refines_index_witness:
  "\<exists>d' p. daemon_run toy_ingest toy_conf [toy_source ''a.txt''] True 1 toy_daemon = Some (Returns d') \<and>
     (istep toy_ingest toy_conf [toy_source ''a.txt''] False)\<^sup>*\<^sup>*
       (abs_state toy_aead (replicate 32 7) (toy_daemon, Starting)) (abs_state toy_aead (replicate 32 7) (d', p))"
proof -
  obtain d' where run: "daemon_run toy_ingest toy_conf [toy_source ''a.txt''] True 1 toy_daemon = Some (Returns d')"
    using toy_runs by blast
  note refines = daemon_refines_index [OF toy_env_ok, of toy_conf "[toy_source ''a.txt'']" True False toy_daemon]
  from refines run obtain p where
    "(dstep toy_ingest toy_conf [toy_source ''a.txt''] True False)\<^sup>*\<^sup>* (toy_daemon, Starting) (d', p)" by blast
  with refines have "(istep toy_ingest toy_conf [toy_source ''a.txt''] False)\<^sup>*\<^sup>*
      (abs_state (in_aead toy_ingest) (cc_key toy_conf) (toy_daemon, Starting))
      (abs_state (in_aead toy_ingest) (cc_key toy_conf) (d', p))" by blast
  with run show ?thesis by (auto simp: toy_ingest_def toy_conf_def)
qed

theorem index_provenance_witness:
  "\<exists>d'. daemon_run toy_ingest toy_conf [toy_source ''a.txt''] True 1 toy_daemon = Some (Returns d') \<and>
     item_texts toy_aead (replicate 32 7) ''f'' (db_rows (dm_db d')) = [(0, Some (Inr [104, 105]))]"
proof -
  obtain d' where run: "daemon_run toy_ingest toy_conf [toy_source ''a.txt''] True 1 toy_daemon = Some (Returns d')"
    and ne: "item_texts toy_aead (replicate 32 7) ''f'' (db_rows (dm_db d')) \<noteq> []" using toy_runs by blast
  have no: "item_texts toy_aead (replicate 32 7) ''f'' (db_rows (dm_db toy_daemon)) = []"
    by (simp add: item_texts_def item_rows_def toy_daemon_def)
  have env: "in_aead toy_ingest = toy_aead" "cc_key toy_conf = replicate 32 7"
    by (simp_all add: toy_ingest_def toy_conf_def)
  obtain ch w content w' where "cn_download (toy_source ''a.txt'') ch w = Some (Returns (Inr content, w'))"
    and ts: "item_texts toy_aead (replicate 32 7) ''f'' (db_rows (dm_db d')) =
      numbered_texts (map of_chars (filter (\<lambda>w. \<not> blank w) (windows (chars (extract_text content (ci_name ch))))))"
    using index_provenance [OF toy_env_ok run, of "''f''"] ne no unfolding env Let_def by auto
  then have "content = [104, 105]" "ci_name ch = ''a.txt''" by (auto simp: toy_source_def split: if_splits)
  with ts have "item_texts toy_aead (replicate 32 7) ''f'' (db_rows (dm_db d')) = numbered_texts [''hi'']"
    using toy_chunk by (simp add: chunk_eq toy_text)
  with run show ?thesis by (auto simp: numbered_texts_def as_bytes_def)
qed

end
