(* ===== verification/Healthy_Cycle.thy ===== *)
theory Healthy_Cycle
  imports Index_Spec
begin

text \<open>
  The other half of the daemon's contract: when nothing that the daemon asks of its environment fails,
  a cycle returns, and it brings the index to exactly the state that the listed changes describe. The
  unique identifiers that PostgreSQL draws must be fresh for as long as the cycle runs (\<open>fresh_until\<close>).
\<close>

section \<open>An environment that does not fail\<close>

text \<open>
  The statements succeed, pgvector accepts the vectors of the service, the generator and the cipher
  deliver, the service embeds any batch, and the configuration is what \<open>start_up\<close> accepts.
\<close>

definition healthy :: "'f ingest_env \<Rightarrow> cycle_conf \<Rightarrow> (string \<Rightarrow> 'f list) \<Rightarrow> bool" where
  "healthy E cc emb \<longleftrightarrow>
     (\<forall>t. \<not> pg_fails (in_pg E) t) \<and> (\<forall>s. pg_cast_ok (in_pg E) (format_vector (pg_show (in_pg E)) (emb s))) \<and>
     (\<forall>t. \<not> se_fails (in_state E) t) \<and> (\<forall>t. in_iv E t \<noteq> None) \<and>
     (\<forall>iv m. length iv = 12 \<longrightarrow> aead_seal (in_aead E) (cc_key cc) iv m \<noteq> None) \<and>
     embeds (in_embed E) (tc_batch_size (cc_tei cc)) emb \<and> 0 < tc_batch_size (cc_tei cc) \<and>
     length (cc_key cc) = 32 \<and> cc_classification cc \<in> set classifications"

text \<open>The identifiers drawn before the given tick are new.\<close>

definition fresh_until :: "'f pg \<Rightarrow> nat \<Rightarrow> db \<Rightarrow> bool" where
  "fresh_until P n d \<longleftrightarrow> inj_on (pg_fresh P) {db_tick d..<n} \<and>
     (\<forall>t \<in> {db_tick d..<n}. pg_fresh P t \<notin> dc_id ` set (db_rows d))"

text \<open>A change that fits the columns of the table.\<close>

definition fits :: "change_item \<Rightarrow> bool" where
  "fits item \<longleftrightarrow> length (chars (ci_name item)) \<le> 255 \<and> length (chars (ci_remote_id item)) \<le> 255"

section \<open>Statements that succeed\<close>

text \<open>What statements do to the identifiers: time goes on, and only drawn identifiers are added.\<close>

definition grows :: "'f pg \<Rightarrow> db \<Rightarrow> db \<Rightarrow> bool" where
  "grows P d d' \<longleftrightarrow> db_tick d \<le> db_tick d' \<and>
     dc_id ` set (db_rows d') \<subseteq> dc_id ` set (db_rows d) \<union> pg_fresh P ` {db_tick d..<db_tick d'}"

lemma grows_refl [simp]: "grows P d d"
  by (simp add: grows_def)

lemma grows_trans:
  assumes "grows P d d1" and "grows P d1 d2" shows "grows P d d2"
proof -
  have t: "db_tick d \<le> db_tick d1" "db_tick d1 \<le> db_tick d2" using assms by (simp_all add: grows_def)
  then have "pg_fresh P ` {db_tick d..<db_tick d1} \<union> pg_fresh P ` {db_tick d1..<db_tick d2} =
      pg_fresh P ` {db_tick d..<db_tick d2}"
    by (simp flip: image_Un add: ivl_disj_un_two(3))
  moreover have "dc_id ` set (db_rows d2) \<subseteq> dc_id ` set (db_rows d) \<union>
      (pg_fresh P ` {db_tick d..<db_tick d1} \<union> pg_fresh P ` {db_tick d1..<db_tick d2})"
    using assms unfolding grows_def by blast
  ultimately show ?thesis using t by (simp add: grows_def)
qed

lemma fresh_grows:
  assumes "fresh_until P n d" and "grows P d d'"
  shows "fresh_until P n d'"
proof -
  have sub: "{db_tick d'..<n} \<subseteq> {db_tick d..<n}" using assms(2) by (auto simp: grows_def)
  have "pg_fresh P t \<notin> dc_id ` set (db_rows d')" if t: "t \<in> {db_tick d'..<n}" for t
  proof
    assume "pg_fresh P t \<in> dc_id ` set (db_rows d')"
    then consider "pg_fresh P t \<in> dc_id ` set (db_rows d)" | u where "u \<in> {db_tick d..<db_tick d'}" "pg_fresh P t = pg_fresh P u"
      using assms(2) unfolding grows_def by blast
    then show False
    proof cases
      case 1
      then show ?thesis using assms(1) sub t unfolding fresh_until_def by blast
    next
      case 2
      then have "u \<in> {db_tick d..<n}" "t \<in> {db_tick d..<n}" "t \<noteq> u" using t sub by auto
      with 2(2) assms(1) show ?thesis unfolding fresh_until_def inj_on_def by blast
    qed
  qed
  moreover have "inj_on (pg_fresh P) {db_tick d'..<n}"
    using assms(1) sub unfolding fresh_until_def by (blast intro: inj_on_subset)
  ultimately show ?thesis by (simp add: fresh_until_def)
qed

lemma insert_all_grows: "insert_all P item name cls i ps d = (r, d') \<Longrightarrow> grows P d d'"
proof (induction ps arbitrary: i d)
  case (Cons p ps)
  obtain enc emb where p: "p = (enc, emb)" by (cases p)
  let ?r = "\<lparr>dc_id = pg_fresh P (db_tick d), dc_doc_name = name, dc_classification = cls,
     dc_chunk_index = of_nat i, dc_encrypted_content = Some enc,
     dc_embedding = Some (format_vector (pg_show P) emb), dc_source_item_id = Some item, dc_workspace_id = default_workspace\<rparr>"
  have tick: "grows P d (d\<lparr>db_tick := Suc (db_tick d)\<rparr>)" by (auto simp: grows_def)
  consider "d' = d\<lparr>db_tick := Suc (db_tick d)\<rparr>"
    | rows where "insert_row (pg_cast_ok P) ?r (db_rows d) = Inr rows"
      "insert_all P item name cls (Suc i) ps \<lparr>db_rows = rows, db_tick = Suc (db_tick d)\<rparr> = (r, d')"
    using Cons.prems by (auto simp: p Let_def split: if_splits sum.splits)
  then show ?case
  proof cases
    case 2
    have "grows P d \<lparr>db_rows = rows, db_tick = Suc (db_tick d)\<rparr>"
      using insert_row_Inr [OF 2(1)] by (auto simp: grows_def)
    from grows_trans [OF this Cons.IH [OF 2(2)]] show ?thesis .
  qed (use tick in simp)
qed simp

lemma insert_all_succeeds:
  "insert_all P item name cls i ps d = (r, d') \<Longrightarrow> fresh_until P (db_tick d') d \<Longrightarrow> (\<forall>t. \<not> pg_fails P t) \<Longrightarrow>
     (\<forall>(enc, emb) \<in> set ps. pg_cast_ok P (format_vector (pg_show P) emb)) \<Longrightarrow> cls \<in> set classifications \<Longrightarrow>
     length (chars name) \<le> 255 \<Longrightarrow> length (chars item) \<le> 255 \<Longrightarrow> r = Inr ()"
proof (induction ps arbitrary: i d)
  case (Cons p ps)
  obtain enc emb where p: "p = (enc, emb)" by (cases p)
  let ?r = "\<lparr>dc_id = pg_fresh P (db_tick d), dc_doc_name = name, dc_classification = cls,
     dc_chunk_index = of_nat i, dc_encrypted_content = Some enc,
     dc_embedding = Some (format_vector (pg_show P) emb), dc_source_item_id = Some item, dc_workspace_id = default_workspace\<rparr>"
  consider "db_tick d' = Suc (db_tick d)"
    | rows where "insert_all P item name cls (Suc i) ps \<lparr>db_rows = rows, db_tick = Suc (db_tick d)\<rparr> = (r, d')"
    using Cons.prems(1,3) by (auto simp: p Let_def split: sum.splits)
  then have "db_tick d < db_tick d'"
    by cases (simp, drule insert_all_grows, simp add: grows_def)
  then have "pg_fresh P (db_tick d) \<notin> dc_id ` set (db_rows d)"
    using Cons.prems(2) by (auto simp: fresh_until_def)
  then have ins: "insert_row (pg_cast_ok P) ?r (db_rows d) = Inr (db_rows d @ [?r])"
    using Cons.prems(4-7) by (simp add: insert_row_def p)
  let ?d = "\<lparr>db_rows = db_rows d @ [?r], db_tick = Suc (db_tick d)\<rparr>"
  have rest: "insert_all P item name cls (Suc i) ps ?d = (r, d')"
    using Cons.prems(1,3) ins by (simp add: p Let_def)
  have "grows P d ?d" by (auto simp: grows_def)
  from Cons.IH [OF rest fresh_grows [OF Cons.prems(2) this] Cons.prems(3) _ Cons.prems(5-7)] Cons.prems(4)
  show ?case by simp
qed simp

lemma delete_grows: "grows P d \<lparr>db_rows = delete_rows item (db_rows d), db_tick = db_tick d + k\<rparr>"
  by (auto simp: grows_def delete_rows_def)

lemma upsert_grows: "upsert_chunks P item name cls encs embs d = Returns (r, d') \<Longrightarrow> grows P d d'"
proof -
  assume u: "upsert_chunks P item name cls encs embs d = Returns (r, d')"
  let ?d = "\<lparr>db_rows = delete_rows item (db_rows d), db_tick = Suc (Suc (db_tick d))\<rparr>"
  obtain q tx where i: "insert_all P item name cls 0 (zip encs embs) ?d = (q, tx)" by fastforce
  have g: "grows P d tx"
    using grows_trans [OF delete_grows [of P d item 2] insert_all_grows] i by simp
  have "db_rows d' = db_rows d \<and> db_tick d \<le> db_tick d' \<or> db_rows d' = db_rows tx \<and> db_tick d' = Suc (db_tick tx)"
    using u i g by (auto simp: upsert_chunks_def rolled_back_def grows_def Let_def split: if_splits sum.splits)
  then show ?thesis
  proof
    assume "db_rows d' = db_rows tx \<and> db_tick d' = Suc (db_tick tx)"
    then have "grows P tx d'" by (auto simp: grows_def)
    with g show ?thesis by (rule grows_trans)
  qed (auto simp: grows_def)
qed

lemma upsert_succeeds:
  assumes u: "upsert_chunks P item name cls encs embs d = Returns (r, d')" and "fresh_until P (db_tick d') d"
    and "\<forall>t. \<not> pg_fails P t" and "\<forall>emb \<in> set embs. pg_cast_ok P (format_vector (pg_show P) emb)"
    and "cls \<in> set classifications" and "length (chars name) \<le> 255" and "length (chars item) \<le> 255"
  shows "r = Inr ()"
proof -
  let ?d = "\<lparr>db_rows = delete_rows item (db_rows d), db_tick = Suc (Suc (db_tick d))\<rparr>"
  obtain q tx where i: "insert_all P item name cls 0 (zip encs embs) ?d = (q, tx)" by fastforce
  have t: "db_tick tx \<le> db_tick d'" and rq: "q = Inr () \<Longrightarrow> r = Inr ()"
    using u i assms(3) by (auto simp: upsert_chunks_def rolled_back_def Let_def split: if_splits sum.splits)
  have "fresh_until P (db_tick tx) ?d"
    using fresh_grows [OF assms(2) delete_grows [of P d item 2]] t by (auto simp: fresh_until_def inj_on_def)
  from insert_all_succeeds [OF i this assms(3) _ assms(5-7)] assms(4) rq show ?thesis
    by (auto dest: set_zip_rightD)
qed

section \<open>An item, a cycle\<close>

text \<open>What the downloads of some items give, in every state of the world.\<close>

definition delivers :: "'w connector \<Rightarrow> (change_item \<Rightarrow> connector_error + bytes) \<Rightarrow> change_item set \<Rightarrow> bool" where
  "delivers conn dl items \<longleftrightarrow> (\<forall>item \<in> items. \<forall>w. \<exists>w'. cn_download conn item w = Some (Returns (dl item, w')))"

definition indexable :: "(change_item \<Rightarrow> connector_error + bytes) \<Rightarrow> change_item \<Rightarrow> bool" where
  "indexable dl item \<longleftrightarrow> \<not> ci_deleted item \<and> (\<exists>content. dl item = Inr content \<and> item_windows item content \<noteq> [])"

text \<open>The change of the index that a listed change describes.\<close>

definition described :: "(change_item \<Rightarrow> connector_error + bytes) \<Rightarrow> change_item \<Rightarrow> index \<Rightarrow> index" where
  "described dl item ix =
     (if ci_deleted item then ix(ci_remote_id item := [])
      else case dl item of
          Inl _ \<Rightarrow> ix
        | Inr content \<Rightarrow>
            if item_windows item content = [] then ix
            else ix(ci_remote_id item := numbered_texts (item_windows item content)))"

lemma encrypt_all_healthy:
  assumes "healthy E cc emb" and "ingest_env_ok E"
  shows "\<exists>encs t'. encrypt_all E (cc_key cc) cs t = (Inr encs, t')"
proof (induction cs arbitrary: t)
  case (Cons c cs)
  obtain iv where iv: "in_iv E t = Some iv" "length iv = 12"
    using assms unfolding healthy_def ingest_env_ok_def by (metis not_None_eq)
  then obtain buf where "aead_seal (in_aead E) (cc_key cc) iv (as_bytes c) = Some buf"
    using assms(1) unfolding healthy_def by blast
  moreover have "aead_key_ok (in_aead E) (cc_key cc)"
    using assms unfolding healthy_def ingest_env_ok_def aead_laws_def by blast
  ultimately have "encrypt (in_aead E) (in_iv E t) (cc_key cc) (as_bytes c) = Inr (iv @ buf)"
    by (simp add: encrypt_Inr iv)
  moreover obtain encs t' where "encrypt_all E (cc_key cc) cs (t + 1) = (Inr encs, t')" using Cons by blast
  ultimately show ?case by simp
qed simp

lemma embed_healthy:
  assumes "healthy E cc emb"
  shows "\<exists>u. embed_batch (in_embed E) (cc_tei cc) cs t = (Inr (map emb cs), u)"
proof -
  have e: "embeds (in_embed E) (tc_batch_size (cc_tei cc)) emb" "0 < tc_batch_size (cc_tei cc)"
    using assms by (simp_all add: healthy_def)
  then have "\<forall>b \<in> set (chunks_of (tc_batch_size (cc_tei cc)) cs). length b \<le> tc_batch_size (cc_tei cc)"
    using chunks_size by blast
  from embed_batches_ok [OF e(1) this, of "cc_tei cc" "[]" t] show ?thesis by (simp add: embed_batch_def)
qed

lemma store_chunks_healthy:
  assumes "healthy E cc emb" and "ingest_env_ok E" and "fits item"
  shows "\<exists>ok d'. store_chunks E cc item chunks d = Returns (ok, d') \<and> grows (in_pg E) (dm_db d) (dm_db d') \<and>
     (fresh_until (in_pg E) (db_tick (dm_db d')) (dm_db d) \<longrightarrow> ok)"
proof -
  obtain encs t where e: "encrypt_all E (cc_key cc) chunks (dm_rng d) = (Inr encs, t)"
    using encrypt_all_healthy [OF assms(1,2)] by blast
  obtain u where b: "embed_batch (in_embed E) (cc_tei cc) chunks (dm_tei d) = (Inr (map emb chunks), u)"
    using embed_healthy [OF assms(1)] by blast
  have "length encs = length (map emb chunks)"
    using list_all2_lengthD [OF encrypt_all_ok [OF e]] by simp
  from pgc.ups_returns [OF this] obtain r db where
    ups: "upsert_chunks (in_pg E) (ci_remote_id item) (ci_name item) (cc_classification cc) encs (map emb chunks) (dm_db d) =
      Returns (r, db)" by (metis surj_pair)
  have "fresh_until (in_pg E) (db_tick db) (dm_db d) \<longrightarrow> r = Inr ()"
    using upsert_succeeds [OF ups] assms(1,3) by (auto simp: healthy_def fits_def)
  with e b ups upsert_grows [OF ups] show ?thesis by (simp add: store_chunks_def)
qed

lemma ingest_item_healthy:
  assumes "healthy E cc emb" and "ingest_env_ok E" and "fits item" and "delivers conn dl {item}"
  shows "\<exists>ok d'. ingest_item E cc conn item d = Some (Returns (ok, d')) \<and> grows (in_pg E) (dm_db d) (dm_db d') \<and>
     (fresh_until (in_pg E) (db_tick (dm_db d')) (dm_db d) \<longrightarrow> ok = indexable dl item \<and>
       texts_of (in_aead E) (cc_key cc) (db_rows (dm_db d')) =
         described dl item (texts_of (in_aead E) (cc_key cc) (db_rows (dm_db d))))"
proof -
  let ?T = "\<lambda>d. texts_of (in_aead E) (cc_key cc) (db_rows (dm_db d))"
  obtain w where dlv: "cn_download conn item (dm_world d) = Some (Returns (dl item, w))"
    using assms(4) unfolding delivers_def by blast
  consider (gone) "ci_deleted item" | (failed) e where "\<not> ci_deleted item" "dl item = Inl e"
    | (blank) content where "\<not> ci_deleted item" "dl item = Inr content" "item_windows item content = []"
    | (texts) content where "\<not> ci_deleted item" "dl item = Inr content" "item_windows item content \<noteq> []"
    by (cases "dl item") blast+
  then show ?thesis
  proof cases
    case gone
    let ?db = "\<lparr>db_rows = delete_rows (ci_remote_id item) (db_rows (dm_db d)), db_tick = Suc (db_tick (dm_db d))\<rparr>"
    have run: "ingest_item E cc conn item d = Some (Returns (False, d\<lparr>dm_db := ?db\<rparr>))"
      using gone assms(1) by (simp add: ingest_item_def delete_chunks_def healthy_def)
    have "?T (d\<lparr>dm_db := ?db\<rparr>) = (?T d)(ci_remote_id item := item_texts (in_aead E) (cc_key cc) (ci_remote_id item) (db_rows ?db))"
      using ingest_item_frame [OF run] by (intro texts_of_update [THEN trans]) auto
    also have "item_texts (in_aead E) (cc_key cc) (ci_remote_id item) (db_rows ?db) = []" by (simp add: item_texts_view)
    finally show ?thesis using run gone delete_grows [of "in_pg E" "dm_db d" "ci_remote_id item" 1]
      by (intro exI [of _ False] exI [of _ "d\<lparr>dm_db := ?db\<rparr>"]) (simp add: indexable_def described_def fun_upd_def)
  next
    case failed
    then have "ingest_item E cc conn item d = Some (Returns (False, d\<lparr>dm_world := w\<rparr>))"
      using dlv by (simp add: ingest_item_def)
    with failed show ?thesis
      by (intro exI [of _ False] exI [of _ "d\<lparr>dm_world := w\<rparr>"]) (simp add: indexable_def described_def)
  next
    case blank
    then have "store_content E cc item content (d\<lparr>dm_world := w\<rparr>) = Returns (False, d\<lparr>dm_world := w\<rparr>)"
      by (simp add: store_content_def chunk_eq item_windows_def Let_def)
    then have "ingest_item E cc conn item d = Some (Returns (False, d\<lparr>dm_world := w\<rparr>))"
      using dlv blank by (simp add: ingest_item_def)
    with blank show ?thesis
      by (intro exI [of _ False] exI [of _ "d\<lparr>dm_world := w\<rparr>"]) (simp add: indexable_def described_def)
  next
    case texts
    obtain ok d' where st: "store_chunks E cc item (item_windows item content) (d\<lparr>dm_world := w\<rparr>) = Returns (ok, d')"
      "grows (in_pg E) (dm_db d) (dm_db d')" "fresh_until (in_pg E) (db_tick (dm_db d')) (dm_db d) \<longrightarrow> ok"
      using store_chunks_healthy [OF assms(1-3), of "item_windows item content" "d\<lparr>dm_world := w\<rparr>"] by auto
    have "extract_text content (ci_name item) \<noteq> []" using texts(3) item_windows_none by blast
    then have run: "ingest_item E cc conn item d = Some (Returns (ok, d'))"
      using st(1) texts dlv by (simp add: ingest_item_def store_content_def chunk_eq item_windows_def)
    have same: "c = content" if "cn_download conn item v = Some (Returns (Inr c, v'))" for v c v'
    proof -
      obtain v'' where "cn_download conn item v = Some (Returns (Inr content, v''))"
        using assms(4) texts(2) unfolding delivers_def by auto
      with that show ?thesis by simp
    qed
    have "?T d' = described dl item (?T d)" if ok
      using ingest_item_handled [OF assms(2) run] that texts
      by (elim handled.cases) (auto simp: described_def dest: same)
    with run st texts show ?thesis by (auto simp: indexable_def)
  qed
qed

lemma ingest_items_healthy:
  assumes "healthy E cc emb" and "ingest_env_ok E"
  shows "\<forall>item \<in> set items. fits item \<Longrightarrow> delivers conn dl (set items) \<Longrightarrow>
     \<exists>m d'. ingest_items E cc conn items n d = Some (Returns (m, d')) \<and> grows (in_pg E) (dm_db d) (dm_db d') \<and>
       (fresh_until (in_pg E) (db_tick (dm_db d')) (dm_db d) \<longrightarrow> m = n + length (filter (indexable dl) items) \<and>
         texts_of (in_aead E) (cc_key cc) (db_rows (dm_db d')) =
           fold (described dl) items (texts_of (in_aead E) (cc_key cc) (db_rows (dm_db d))))"
proof (induction items arbitrary: n d)
  case (Cons item items)
  let ?T = "\<lambda>d. texts_of (in_aead E) (cc_key cc) (db_rows (dm_db d))"
  have "fits item" "delivers conn dl {item}" "\<forall>i \<in> set items. fits i" "delivers conn dl (set items)"
    using Cons.prems by (simp_all add: delivers_def)
  from ingest_item_healthy [OF assms this(1,2), of d] this(3,4) obtain ok d1 where
    one: "ingest_item E cc conn item d = Some (Returns (ok, d1))" "grows (in_pg E) (dm_db d) (dm_db d1)"
      "fresh_until (in_pg E) (db_tick (dm_db d1)) (dm_db d) \<longrightarrow> ok = indexable dl item \<and> ?T d1 = described dl item (?T d)"
    and more: "\<forall>i \<in> set items. fits i" "delivers conn dl (set items)" by blast
  obtain m d' where rest: "ingest_items E cc conn items (if ok then n + 1 else n) d1 = Some (Returns (m, d'))"
      "grows (in_pg E) (dm_db d1) (dm_db d')"
      "fresh_until (in_pg E) (db_tick (dm_db d')) (dm_db d1) \<longrightarrow>
         m = (if ok then n + 1 else n) + length (filter (indexable dl) items) \<and> ?T d' = fold (described dl) items (?T d1)"
    using Cons.IH [OF more, of "if ok then n + 1 else n" d1] by blast
  have fresh: "fresh_until (in_pg E) (db_tick (dm_db d1)) (dm_db d)" "fresh_until (in_pg E) (db_tick (dm_db d')) (dm_db d1)"
    if f: "fresh_until (in_pg E) (db_tick (dm_db d')) (dm_db d)"
  proof -
    have "{db_tick (dm_db d)..<db_tick (dm_db d1)} \<subseteq> {db_tick (dm_db d)..<db_tick (dm_db d')}"
      using rest(2) by (auto simp: grows_def)
    then show "fresh_until (in_pg E) (db_tick (dm_db d1)) (dm_db d)"
      using f unfolding fresh_until_def by (blast intro: inj_on_subset)
    show "fresh_until (in_pg E) (db_tick (dm_db d')) (dm_db d1)" by (rule fresh_grows [OF f one(2)])
  qed
  show ?case
    using one rest fresh grows_trans [OF one(2) rest(2)] by (intro exI [of _ m] exI [of _ d']) auto
qed simp

section \<open>Properties\<close>

text \<open>
  C6. A healthy cycle does what the changes describe: when the listing succeeds, nothing fails, the
  changes fit the columns and the identifiers drawn are new, the cycle returns, counts the changes with
  text as processed, moves the cursor, and takes the index to the one obtained by applying the changes
  in order: a deletion removes the texts of its item, a download with text replaces them by its numbered
  windows, and a failed download or one without text leaves them.
\<close>

theorem healthy_cycle:
  assumes "healthy E cc emb" and "ingest_env_ok E"
    and "cn_list_changes conn (saved (cn_id conn) (dm_cursors d)) (dm_world d) = Some (Returns (Inr delta, w))"
    and "delivers conn dl (set (dr_changes delta))" and "\<forall>item \<in> set (dr_changes delta). fits item"
    and "length (chars (cn_id conn)) \<le> 255"
  shows "\<exists>r d'. run_cycle E cc conn d = Some (Returns (r, d')) \<and>
     (fresh_until (in_pg E) (db_tick (dm_db d')) (dm_db d) \<longrightarrow>
        r = Inr (length (filter (indexable dl) (dr_changes delta))) \<and>
        index_of (in_aead E) (cc_key cc) d' =
          \<lparr>ix_texts = fold (described dl) (dr_changes delta) (texts_of (in_aead E) (cc_key cc) (db_rows (dm_db d))),
           ix_cursor = (case dr_next_cursor delta of
              None \<Rightarrow> (\<lambda>j. saved j (dm_cursors d))
            | Some c \<Rightarrow> (\<lambda>j. saved j (dm_cursors d))(cn_id conn \<mapsto> c))\<rparr>)"
proof -
  have st: "\<not> se_fails (in_state E) t" for t using assms(1) by (simp add: healthy_def)
  let ?cu = "(dm_cursors d)\<lparr>cu_tick := cu_tick (dm_cursors d) + 1\<rparr>"
  let ?d = "d\<lparr>dm_cursors := ?cu, dm_world := w\<rparr>"
  have ld: "load_cursor (in_state E) (cn_id conn) (dm_cursors d) = (Inr (saved (cn_id conn) (dm_cursors d)), ?cu)"
    by (simp add: load_cursor_def saved_def st)
  obtain m d1 where it: "ingest_items E cc conn (dr_changes delta) 0 ?d = Some (Returns (m, d1))"
    "fresh_until (in_pg E) (db_tick (dm_db d1)) (dm_db ?d) \<longrightarrow> m = 0 + length (filter (indexable dl) (dr_changes delta)) \<and>
       texts_of (in_aead E) (cc_key cc) (db_rows (dm_db d1)) =
         fold (described dl) (dr_changes delta) (texts_of (in_aead E) (cc_key cc) (db_rows (dm_db ?d)))"
    using ingest_items_healthy [OF assms(1,2,5,4), of 0 ?d] by blast
  obtain r d' where fin: "finish_cycle E conn (dr_next_cursor delta) m d1 = (r, d')" by fastforce
  have run: "run_cycle E cc conn d = Some (Returns (r, d'))"
    using ld assms(3) it(1) fin by (simp add: run_cycle_def)
  have cur: "saved j (dm_cursors d1) = saved j (dm_cursors d)" for j
    using ingest_items_frame [OF it(1)] by (simp add: saved_def)
  have ok: "r = Inr m" "dm_db d' = dm_db d1"
    using fin st assms(6) by (auto simp: finish_cycle_def save_cursor_def Let_def split: option.splits)
  have "(\<lambda>j. saved j (dm_cursors d')) = (case dr_next_cursor delta of
      None \<Rightarrow> (\<lambda>j. saved j (dm_cursors d)) | Some c \<Rightarrow> (\<lambda>j. saved j (dm_cursors d))(cn_id conn \<mapsto> c))"
  proof
    fix j
    show "saved j (dm_cursors d') = (case dr_next_cursor delta of None \<Rightarrow> (\<lambda>j. saved j (dm_cursors d))
        | Some c \<Rightarrow> (\<lambda>j. saved j (dm_cursors d))(cn_id conn \<mapsto> c)) j"
      using finish_cycle_ok [OF fin] ok(1) cur by (cases "j = cn_id conn") (auto split: option.splits)
  qed
  with run ok it(2) show ?thesis by (simp add: index_of_def)
qed

lemma toy_healthy: "healthy toy_ingest toy_conf (\<lambda>s. [length s])"
  by (simp add: healthy_def toy_ingest_def toy_pg_def toy_conf_def toy_embeds embed_new_def classifications_def
      toy_aead_def)

theorem healthy_cycle_witness:
  "\<exists>d'. run_cycle toy_ingest toy_conf (toy_source ''a.txt'') toy_daemon = Some (Returns (Inr 1, d')) \<and>
     ix_texts (index_of toy_aead (replicate 32 7) d') ''f'' = [(0, Some (Inr [104, 105]))] \<and>
     ix_cursor (index_of toy_aead (replicate 32 7) d') ''D'' = Some ''c1''"
proof -
  let ?conn = "toy_source ''a.txt''"
  let ?dl = "\<lambda>i. if ci_name i = ''a.txt'' then Inr [104, 105] else Inl (Http 500)"
  let ?delta = "\<lparr>dr_next_cursor = Some ''c1'', dr_changes = [toy_file ''a.txt''], dr_more = False\<rparr>"
  have ls: "cn_list_changes ?conn (saved (cn_id ?conn) (dm_cursors toy_daemon)) (dm_world toy_daemon) =
      Some (Returns (Inr ?delta, ()))" and dv: "delivers ?conn ?dl (set (dr_changes ?delta))"
    by (simp_all add: toy_source_def delivers_def)
  have ft: "\<forall>item \<in> set (dr_changes ?delta). fits item" and nm: "length (chars (cn_id ?conn)) \<le> 255"
    using length_chars_le [of "''a.txt''"] length_chars_le [of "''f''"] length_chars_le [of "''D''"]
    by (simp_all add: fits_def toy_file_def toy_source_def ascii_is_str)
  obtain d' where run: "run_cycle toy_ingest toy_conf ?conn toy_daemon = Some (Returns (Inr 1, d'))"
    and tick: "db_tick (dm_db d') = 4" using toy_indexes by blast
  have "inj_on (of_nat :: nat \<Rightarrow> uuid) {0..<4}"
    by (rule inj_onI) (auto simp: word_of_nat_eq_iff take_bit_eq_mod)
  then have fr: "fresh_until (in_pg toy_ingest) (db_tick (dm_db d')) (dm_db toy_daemon)"
    by (simp add: fresh_until_def tick toy_ingest_def toy_pg_def toy_daemon_def)
  from healthy_cycle [OF toy_healthy toy_env_ok ls dv ft nm] run fr
  have ix: "index_of (in_aead toy_ingest) (cc_key toy_conf) d' =
      \<lparr>ix_texts = fold (described ?dl) (dr_changes ?delta)
         (texts_of (in_aead toy_ingest) (cc_key toy_conf) (db_rows (dm_db toy_daemon))),
       ix_cursor = (\<lambda>j. saved j (dm_cursors toy_daemon))(cn_id ?conn \<mapsto> ''c1'')\<rparr>" by auto
  have "item_windows (toy_file ''a.txt'') [104, 105] = [''hi'']"
    using toy_chunk by (simp add: item_windows_def chunk_eq toy_file_def toy_text)
  with ix run show ?thesis
    by (simp add: described_def toy_file_def toy_ingest_def toy_conf_def numbered_texts_def as_bytes_def)
      (simp add: toy_source_def)
qed

end
