(* ===== verification/Zoho_Runs.thy ===== *)
theory Zoho_Runs
  imports Zoho
begin

text \<open>
  The Zoho connector over time: what it sends in any sequence of calls (\<open>zoho_call\<close>), and the watermarks
  of successive crawls (\<open>crawl_history\<close>).
\<close>

section \<open>All requests of a client\<close>

text \<open>A call of the connector, whatever it returns.\<close>

inductive zoho_call :: "'e zoho_env_scheme \<Rightarrow> zoho_client \<Rightarrow> zoho_world \<Rightarrow> zoho_world \<Rightarrow> bool" for E c where
  listing: "zoho_list_changes E c cursor w = Some (Returns (r, w')) \<Longrightarrow> zoho_call E c w w'"
| downloading: "zoho_download E c item w = Some (Returns (r, w')) \<Longrightarrow> zoho_call E c w w'"

text \<open>
  A request that carries a token: for a page of a folder, for the download URL of a file, or for a URL
  of a trusted host.
\<close>

definition client_safe :: "'e zoho_env_scheme \<Rightarrow> zoho_client \<Rightarrow> string \<times> string option \<Rightarrow> bool" where
  "client_safe E c r \<longleftrightarrow> (case r of (u, token) \<Rightarrow> token \<noteq> None \<longrightarrow>
     (\<exists>f offset from. u = list_url c f offset from) \<or>
     (\<exists>s v. za_parse_url E s = Inr v \<and> url_str v = u \<and>
        ((\<exists>i. s = zl_api_base c @ ''/files/'' @ i @ ''/download'') \<or>
         is_trusted_zoho_host (unwrap_or [] (url_host v)))))"

abbreviation client_sends :: "'e zoho_env_scheme \<Rightarrow> zoho_client \<Rightarrow> zoho_world \<Rightarrow> zoho_world \<Rightarrow> bool" where
  "client_sends E c \<equiv> sends (own_post (zl_tokens c)) (client_safe E c) (client_chain E c)"

lemma sends_mono: "sends Q P C w w' \<Longrightarrow> (\<And>r. P r \<Longrightarrow> P' r) \<Longrightarrow> sends Q P' C w w'"
  unfolding sends_def using adds_mono by blast

lemma page_sends:
  assumes "list_folder_page E c f offset from w = Some (Returns (r, w'))"
    and P: "\<And>t. P (list_url c f offset from, Some t)"
  shows "sends (own_post (zl_tokens c)) P (client_chain E c) w w'"
proof -
  let ?S = "sends (own_post (zl_tokens c)) P (client_chain E c)"
  let ?send = "\<lambda>token w. let url = list_url c f offset from in
     Some (Returns (page_of_answer (za_list E (zw_tick w) url), send E (tk_http (zl_tokens c)) url (Some token) w))"
  have "client_chain E c (list_url c f offset from,
      hops_by (tk_http (zl_tokens c)) (ze_hops E) t (list_url c f offset from) None token)" for t token
    unfolding client_chain_def by blast
  then have s: "keeps ?S (?send t)" for t
    using P by (auto simp: keeps_def Let_def send_def sends_def)
  have "keeps ?S (list_folder_page E c f offset from)"
    unfolding list_folder_page_def by (intro keeps_bind transp_sends refresh_sends [OF own_is_client] s)
  with assms(1) show ?thesis unfolding keeps_def by blast
qed

lemma pages_sends:
  "zoho_pages E c f from offset st chs w = Some y \<Longrightarrow> (\<forall>offset t. P (list_url c f offset from, Some t)) \<longrightarrow>
     (\<forall>r w'. y = Returns (r, w') \<longrightarrow> sends (own_post (zl_tokens c)) P (client_chain E c) w w')"
proof (induction rule: zoho_pages.raw_induct [rotated, consumes 1])
  case (1 zp E c f "from" offset st chs w y)
  show ?case
  proof (intro allI impI)
    fix r w' assume P: "\<forall>offset t. P (list_url c f offset from, Some t)" and y: "y = Returns (r, w')"
    obtain r1 w1 where l: "list_folder_page E c f offset from w = Some (Returns (r1, w1))"
      using 1(2) y by (auto split: outcome_splits)
    note s1 = page_sends [OF l, of P, OF P [rule_format]]
    show "sends (own_post (zl_tokens c)) P (client_chain E c) w w'"
    proof (cases "w' = w1")
      case False
      then obtain off1 st1 chs1 where "zp E c f from off1 st1 chs1 w1 = Some y"
        using 1(2) y l by (auto split: sum.splits prod.splits if_splits run.splits)
      from 1(1) [OF this] P y s1 show ?thesis using sends_trans by blast
    qed (use s1 in simp)
  qed
qed

lemma listing_sends: "keeps (client_sends E c) (zoho_list_changes E c cursor)"
proof -
  let ?K = "\<lambda>m. keeps (client_sends E c) m"
  have now: "?K (now_ms E)" by (auto simp: keeps_def now_ms_def sends_def)
  have js: "?K (to_json E st)" "?K (from_json E s)" for st s
    by (simp_all add: to_json_def from_json_def keeps_lift reflp_sends)
  have "client_safe E c (list_url c f offset from, t)" for f offset "from" t by (auto simp: client_safe_def)
  then have pages: "?K (zoho_pages E c f from offset st chs)" for f "from" offset st chs
    unfolding keeps_def using pages_sends [of E c f "from" offset st chs _ _ "client_safe E c"] by blast
  have load: "?K (load_state E c cursor)"
    by (auto simp: load_state_def intro!: js keeps_bind transp_sends now keeps_ret reflp_sends split: option.split)
  have rest: "?K (restart E st)" for st
    unfolding restart_def by (intro keeps_bind transp_sends now js keeps_ret reflp_sends)
  have visits: "?K (visit E c from fc st)" for "from" fc st
    unfolding visit_def Let_def
    by (intro keeps_bind transp_sends pages) (auto intro!: keeps_bind transp_sends js keeps_ret reflp_sends)
  show ?thesis unfolding zoho_list_changes_def
    by (intro keeps_bind transp_sends load keeps_run reflp_sends)
      (auto intro: rest visits split: list.split)
qed

lemma download_sends: "keeps (client_sends E c) (zoho_download E c item)"
proof (cases "za_parse_url E (zl_api_base c @ ''/files/'' @ ci_remote_id item @ ''/download'')")
  case (Inl e)
  then show ?thesis by (simp add: zoho_download_def keeps_err reflp_sends)
next
  case (Inr start)
  have "keeps (sends (own_post (zl_tokens c)) (token_safe E start) (client_chain E c)) (zoho_download E c item)"
    unfolding zoho_download_def Inr sum.case download_with_trusted_auth_def
    by (rule dl_loop_sends) (simp add: token_safe_def)
  moreover have "client_safe E c r" if "token_safe E start r" for r
    using that Inr unfolding token_safe_def client_safe_def by (cases r) (simp only: prod.case, blast)
  ultimately show ?thesis unfolding keeps_def using sends_mono by blast
qed

lemma calls_send: "(zoho_call E c)\<^sup>*\<^sup>* w w' \<Longrightarrow> client_sends E c w w'"
proof (induction rule: rtranclp_induct)
  case (step w1 w2)
  from step(2) have "client_sends E c w1 w2"
    by cases (use listing_sends download_sends in \<open>unfold keeps_def, blast\<close>)+
  with step(3) show ?case by (rule sends_trans)
qed simp

section \<open>The watermarks of successive crawls\<close>

text \<open>
  The calls of one connector, each with the cursor of the one before; between two calls the world may
  change (downloads), its tick does not go back. The list has the start times of the crawls, the last
  one first: the clock at the call that began the crawl, which is the first call or one on a drained
  queue.
\<close>

inductive crawl_history :: "'e zoho_env_scheme \<Rightarrow> zoho_client \<Rightarrow> int list \<Rightarrow> string \<Rightarrow> zoho_world \<Rightarrow> bool" for E c where
  first_call: "zoho_list_changes E c None w = Some (Returns (Inr d, w')) \<Longrightarrow> dr_next_cursor d = Some s \<Longrightarrow>
     crawl_history E c [za_now_ms E (zw_tick w)] s w'"
| next_call: "crawl_history E c ts s w \<Longrightarrow> zw_tick w \<le> zw_tick w\<^sub>1 \<Longrightarrow> za_from_json E s = Some st \<Longrightarrow>
     zoho_list_changes E c (Some s) w\<^sub>1 = Some (Returns (Inr d, w')) \<Longrightarrow> dr_next_cursor d = Some s' \<Longrightarrow>
     crawl_history E c (if zu_queue st = [] then za_now_ms E (zw_tick w\<^sub>1) # ts else ts) s' w'"

text \<open>The start of the crawl before the current one, 0 when there is none.\<close>

fun previous_start :: "int list \<Rightarrow> int" where
  "previous_start (t\<^sub>1 # t\<^sub>2 # ts) = t\<^sub>2"
| "previous_start ts = 0"

lemma pages_times:
  "zoho_pages E c f from offset st chs w = Some y \<Longrightarrow>
     (\<forall>st' r w'. y = Returns (Inr (st', r), w') \<longrightarrow>
        zu_watermark_ms st' = zu_watermark_ms st \<and> zu_run_started_ms st' = zu_run_started_ms st)"
proof (induction rule: zoho_pages.raw_induct [rotated, consumes 1])
  case (1 zp E c f "from" offset st chs w y)
  show ?case
  proof (intro allI impI)
    fix st' r w' assume y: "y = Returns (Inr (st', r), w')"
    obtain items more w1 where l: "list_folder_page E c f offset from w = Some (Returns (Inr (items, more), w1))"
      using 1(2) y by (auto split: outcome_splits sum.splits prod.splits)
    obtain new where a: "absorb_items f items (st, chs) =
       (enqueue new st, chs @ map (change_of f) (filter (\<lambda>i. \<not> zi_is_folder i) items))"
      using absorb_items_spec by blast
    consider "st' = enqueue new st" | off1 chs1 where "zp E c f from off1 (enqueue new st) chs1 w1 = Some y"
      using 1(2) y l a by (auto split: if_splits run.splits)
    then show "zu_watermark_ms st' = zu_watermark_ms st \<and> zu_run_started_ms st' = zu_run_started_ms st"
    proof cases
      case 2
      from 1(1) [OF 2] y show ?thesis by (cases r) (simp add: enqueue_def)
    qed (simp add: enqueue_def)
  qed
qed

lemma to_json_ok: "to_json E st w = Some (Returns (Inr s, w')) \<longleftrightarrow> za_to_json E st = Inr s \<and> w' = w"
  unfolding to_json_def io_ok_iff by (cases "za_to_json E st") auto

text \<open>One call, by the queue of its state.\<close>

lemma listing_times:
  assumes "zoho_list_changes E c cursor w = Some (Returns (Inr d, w'))" and "dr_next_cursor d = Some s" and "json_ok E"
    and ld: "load_state E c cursor w = Some (Returns (Inr st, w1))"
  obtains st' where "za_from_json E s = Some st'"
    "if zu_queue st = [] then zu_watermark_ms st' = zu_run_started_ms st \<and> zu_run_started_ms st' = za_now_ms E (zw_tick w1)
     else zu_watermark_ms st' = zu_watermark_ms st \<and> zu_run_started_ms st' = zu_run_started_ms st"
proof -
  have json: "za_from_json E t = Some st'" if "za_to_json E st' = Inr t" for st' t
    using assms(3) that unfolding json_ok_def by (metis sum.inject(2))
  show thesis
  proof (cases "zu_queue st")
    case Nil
    let ?st = "st\<lparr>zu_watermark_ms := zu_run_started_ms st, zu_run_started_ms := za_now_ms E (zw_tick w1),
      zu_visited := [], zu_queue := [\<lparr>fc_folder_id = zu_root_id st, fc_next_offset = 0\<rparr>]\<rparr>"
    have "za_to_json E ?st = Inr s"
      using assms(1,2) ld Nil by (auto simp: zoho_list_changes_def restart_def now_ms_def to_json_ok)
    from that [OF json [OF this]] Nil show thesis by simp
  next
    case (Cons fc q)
    then obtain "from" st' chs more off w2 where
      z: "zoho_pages E c (fc_folder_id fc) from (fc_next_offset fc) (st\<lparr>zu_queue := q\<rparr>) [] w1 =
        Some (Returns (Inr (st', chs, more, off), w2))"
      and j: "za_to_json E (if more then st'\<lparr>zu_queue := \<lparr>fc_folder_id = fc_folder_id fc, fc_next_offset = off\<rparr> # zu_queue st'\<rparr>
         else st') = Inr s"
      using assms(1,2) ld by (auto simp: zoho_list_changes_def visit_def to_json_ok Let_def split: prod.splits)
    have "zu_watermark_ms st' = zu_watermark_ms st \<and> zu_run_started_ms st' = zu_run_started_ms st"
      using pages_times [OF z] by simp
    with that [OF json [OF j]] Cons show thesis by simp
  qed
qed

lemma history_times:
  "crawl_history E c ts s w \<Longrightarrow> json_ok E \<Longrightarrow>
     \<exists>st. za_from_json E s = Some st \<and> ts \<noteq> [] \<and> zu_run_started_ms st = hd ts \<and> zu_watermark_ms st = previous_start ts"
proof (induction rule: crawl_history.induct)
  case (first_call w d w' s)
  have "load_state E c None w = Some (Returns (Inr (bootstrap (za_now_ms E (zw_tick w)) (zl_root_id c)),
      w\<lparr>zw_tick := zw_tick w + 1\<rparr>))" by (simp add: load_state_def now_ms_def io_defs)
  from listing_times [OF first_call(1,2,3) this] show ?case by (auto simp: bootstrap_def)
next
  case (next_call ts s w w1 st d w' s')
  then have old: "ts \<noteq> []" "zu_run_started_ms st = hd ts" "zu_watermark_ms st = previous_start ts" by auto
  have "load_state E c (Some s) w1 = Some (Returns (Inr st, w1))"
    using next_call(3) by (simp add: load_state_def from_json_def)
  then obtain st' where "za_from_json E s' = Some st'"
    "if zu_queue st = [] then zu_watermark_ms st' = zu_run_started_ms st \<and> zu_run_started_ms st' = za_now_ms E (zw_tick w1)
     else zu_watermark_ms st' = zu_watermark_ms st \<and> zu_run_started_ms st' = zu_run_started_ms st"
    by (rule listing_times [OF next_call(4,5) next_call.prems])
  then show ?case using old by (cases ts) (auto split: if_splits)
qed

lemma history_clock: "crawl_history E c ts s w \<Longrightarrow> x \<in> set ts \<Longrightarrow> \<exists>t. x = za_now_ms E t"
  by (induction rule: crawl_history.induct) (auto split: if_splits)

text \<open>The requests of one call ask for the changes since one time.\<close>

lemma listing_from:
  assumes "zoho_list_changes E c (Some s) w = Some (Returns (r, w'))" and "za_from_json E s = Some st"
    and "from_ms_of (za_debug E) (zu_watermark_ms st) = Returns from"
  shows "sends (own_post (zl_tokens c)) (\<lambda>(u, _). \<exists>f offset. u = list_url c f offset from) (client_chain E c) w w'"
proof -
  let ?K = "\<lambda>m. keeps (sends (own_post (zl_tokens c)) (\<lambda>(u, _). \<exists>f offset. u = list_url c f offset from) (client_chain E c)) m"
  have now: "?K (now_ms E)" by (auto simp: keeps_def now_ms_def sends_def)
  have js: "?K (to_json E st)" for st by (simp add: to_json_def keeps_lift reflp_sends)
  have pages: "?K (zoho_pages E c f from offset st chs)" for f offset st chs
    unfolding keeps_def
    using pages_sends [of E c f "from" offset st chs _ _ "\<lambda>(u, _). \<exists>f offset. u = list_url c f offset from"] by auto
  have rest: "?K (restart E st)" for st
    unfolding restart_def by (intro keeps_bind transp_sends now js keeps_ret reflp_sends)
  have visits: "?K (visit E c from fc st)" for fc st
    unfolding visit_def Let_def
    by (intro keeps_bind transp_sends pages) (auto intro!: keeps_bind transp_sends js keeps_ret reflp_sends)
  have "zoho_list_changes E c (Some s) w =
      (case zu_queue st of [] \<Rightarrow> restart E st | fc # queue \<Rightarrow> visit E c from fc (st\<lparr>zu_queue := queue\<rparr>)) w"
    using assms(2,3) by (simp add: zoho_list_changes_def load_state_def from_json_def io_defs io_run_def split: list.split)
  with assms(1) rest [of st] visits show ?thesis unfolding keeps_def by (auto split: list.splits)
qed

section \<open>Properties\<close>

text \<open>The hops of a connector that \<open>new\<close> made: those of the token endpoint and of the pages.\<close>

lemma chain_origin:
  assumes "client_chain E c (u, hops)" and "zl_download_client c = NoRedirects"
  obtains (post) t where "u = oauth_url (zl_tokens c)"
      "hops = hops_by (tk_http (zl_tokens c)) (ze_hops E) t u (Some (oauth_form (zl_tokens c))) None"
    | (page) f offset "from" t token where "u = list_url c f offset from"
      "hops = hops_by (tk_http (zl_tokens c)) (ze_hops E) t u None token"
    | (none) "hops = []"
  using assms by (auto simp: client_chain_def own_chain_def hops_by_def)

lemma chain_hop:
  assumes "client_chain E c (u, hops)" and "zl_download_client c = NoRedirects" and "redirect_laws (ze_hops E)"
    and "i < length hops"
  shows "(hp_form (hops ! i) \<noteq> None \<longrightarrow> u = oauth_url (zl_tokens c) \<and>
       hp_form (hops ! i) = Some (oauth_form (zl_tokens c)) \<and> (\<forall>j \<le> i. hp_status (hops ! j) \<in> {307, 308})) \<and>
     (hp_token (hops ! i) \<noteq> None \<longrightarrow> (\<exists>f offset from. u = list_url c f offset from) \<and> hp_same_host (hops ! i))"
  using assms(1,2)
proof (cases rule: chain_origin)
  case (post t)
  note nth = hops_by_nth [OF assms(3) assms(4) [unfolded post(2)], folded post(2)]
  have "hp_token (hops ! i) = None" using nth(2) by blast
  with nth(1) post(1) show ?thesis by blast
next
  case (page f offset "from" t token)
  note nth = hops_by_nth [OF assms(3) assms(4) [unfolded page(2)], folded page(2)]
  have "hp_form (hops ! i) = None" using nth(1) by blast
  with nth(2) page(1) show ?thesis by blast
qed (use assms(4) in simp)

text \<open>
  C15. Where the credentials and the token go, over any sequence of calls of a connector that \<open>new\<close> made.
  Every form that the code posts is the refresh form of the configured credentials and goes to
  \<open>https://accounts.zoho.eu/oauth/v2/token\<close>, and every request that it makes with a token is for a page of a
  folder under \<open>https://workdrive.zoho.eu/api/v1/\<close>, for the download URL of a file there, or for a URL whose host
  is trusted. Beside these there are the requests by which the HTTP client of the token cache follows
  redirects, at most ten for each; if it is as documented (\<open>redirect_laws\<close>), one of them has the credentials
  only after redirects of the token endpoint that all are 307 or 308, and the token only after a redirect of a page
  within the same host. The code does not look at the host to which the credentials are sent again.
\<close>

theorem secrets_confined:
  assumes "zoho_new build creds connector_id root_id = Inr c" and "(zoho_call E c)\<^sup>*\<^sup>* w w'"
    and "redirect_laws (ze_hops E)"
  shows "\<exists>posts new chains. zw_posts w' = zw_posts w @ posts \<and> zw_sent w' = zw_sent w @ new \<and>
     zw_chains w' = zw_chains w @ chains \<and>
     (\<forall>(u, form) \<in> set posts. u = ''https://accounts.zoho.eu/oauth/v2/token'' \<and>
        form = [(''grant_type'', ''refresh_token''), (''client_id'', zc_client_id creds),
          (''client_secret'', zc_client_secret creds), (''refresh_token'', zc_refresh_token creds)]) \<and>
     (\<forall>(u, token) \<in> set new. token = None \<or>
        (\<exists>rest. u = ''https://workdrive.zoho.eu/api/v1/files/'' @ rest) \<or>
        (\<exists>s v. za_parse_url E s = Inr v \<and> url_str v = u \<and>
           ((\<exists>i. s = ''https://workdrive.zoho.eu/api/v1/files/'' @ i @ ''/download'') \<or>
            is_trusted_zoho_host (unwrap_or [] (url_host v))))) \<and>
     (\<forall>(u, hops) \<in> set chains. length hops \<le> 10 \<and> (\<forall>i < length hops.
        (hp_form (hops ! i) \<noteq> None \<longrightarrow> u = ''https://accounts.zoho.eu/oauth/v2/token'' \<and>
           hp_form (hops ! i) = Some [(''grant_type'', ''refresh_token''), (''client_id'', zc_client_id creds),
             (''client_secret'', zc_client_secret creds), (''refresh_token'', zc_refresh_token creds)] \<and>
           (\<forall>j \<le> i. hp_status (hops ! j) \<in> {307, 308})) \<and>
        (hp_token (hops ! i) \<noteq> None \<longrightarrow>
           (\<exists>rest. u = ''https://workdrive.zoho.eu/api/v1/files/'' @ rest) \<and> hp_same_host (hops ! i))))"
proof -
  let ?form = "[(''grant_type'', ''refresh_token''), (''client_id'', zc_client_id creds),
    (''client_secret'', zc_client_secret creds), (''refresh_token'', zc_refresh_token creds)]"
  have T: "zl_tokens c = token_cache_new creds default_policy" and dc: "zc_dc creds = ''eu''"
    and base: "zl_api_base c = ''https://workdrive.zoho.eu/api/v1''" and dl: "zl_download_client c = NoRedirects"
    using assms(1) by (auto simp: zoho_new_def split: if_splits)
  obtain posts new chains where n: "zw_posts w' = zw_posts w @ posts" "\<forall>p \<in> set posts. own_post (zl_tokens c) p"
    "zw_sent w' = zw_sent w @ new" "\<forall>r \<in> set new. client_safe E c r"
    "zw_chains w' = zw_chains w @ chains" "\<forall>x \<in> set chains. client_chain E c x"
    using calls_send [OF assms(2)] unfolding sends_def adds_def by blast
  have http: "tk_http (zl_tokens c) = Limited 10" by (simp add: T token_cache_new_def default_policy_def)
  have own: "oauth_url (zl_tokens c) = ''https://accounts.zoho.eu/oauth/v2/token''" "oauth_form (zl_tokens c) = ?form"
    by (simp_all add: T token_cache_new_def oauth_url_def oauth_form_def dc)
  have under: "zl_api_base c @ ''/files/'' @ rest = ''https://workdrive.zoho.eu/api/v1/files/'' @ rest" for rest
    by (simp add: base)
  have page: "\<exists>rest. list_url c f offset from = ''https://workdrive.zoho.eu/api/v1/files/'' @ rest" for f offset "from"
    unfolding list_url_def under by (rule exI, rule refl)
  have get: "token = None \<or> (\<exists>rest. u = ''https://workdrive.zoho.eu/api/v1/files/'' @ rest) \<or>
        (\<exists>s v. za_parse_url E s = Inr v \<and> url_str v = u \<and>
           ((\<exists>i. s = ''https://workdrive.zoho.eu/api/v1/files/'' @ i @ ''/download'') \<or>
            is_trusted_zoho_host (unwrap_or [] (url_host v))))" if "r \<in> set new" "r = (u, token)" for r u token
  proof -
    have "client_safe E c (u, token)" using n(4) that by blast
    then show ?thesis unfolding client_safe_def prod.case under using page by blast
  qed
  have few: "length hops \<le> 10" if "client_chain E c (u, hops)" for u hops
    using that dl by (cases rule: chain_origin) (simp_all add: http)
  have hop: "length hops \<le> 10 \<and> (\<forall>i < length hops.
      (hp_form (hops ! i) \<noteq> None \<longrightarrow> u = ''https://accounts.zoho.eu/oauth/v2/token'' \<and>
         hp_form (hops ! i) = Some ?form \<and> (\<forall>j \<le> i. hp_status (hops ! j) \<in> {307, 308})) \<and>
      (hp_token (hops ! i) \<noteq> None \<longrightarrow>
         (\<exists>rest. u = ''https://workdrive.zoho.eu/api/v1/files/'' @ rest) \<and> hp_same_host (hops ! i)))"
    if "x \<in> set chains" "x = (u, hops)" for x u hops
  proof -
    have c: "client_chain E c (u, hops)" using n(6) that by blast
    note one = chain_hop [OF c dl assms(3), unfolded own]
    have "(\<exists>rest. u = ''https://workdrive.zoho.eu/api/v1/files/'' @ rest) \<and> hp_same_host (hops ! i)"
      if i: "i < length hops" "hp_token (hops ! i) \<noteq> None" for i
    proof -
      obtain f offset "from" where "u = list_url c f offset from" "hp_same_host (hops ! i)"
        using mp [OF conjunct2 [OF one [OF i(1)]] i(2)] by (elim exE conjE) (rule that)
      then show ?thesis using page by blast
    qed
    then show ?thesis using few [OF c] conjunct1 [OF one] by blast
  qed
  show ?thesis
  proof (intro exI conjI)
    show "zw_posts w' = zw_posts w @ posts" "zw_sent w' = zw_sent w @ new" "zw_chains w' = zw_chains w @ chains"
      by (rule n)+
    show "\<forall>(u, form) \<in> set posts. u = ''https://accounts.zoho.eu/oauth/v2/token'' \<and> form = ?form"
      using n(2) unfolding own_post_def own by fast
  qed (intro ballI case_prodI2 get hop, assumption+)+
qed

text \<open>
  C16. No gap between crawls: however many calls a connector has made, each page that the next one
  requests asks for the changes since the start of the crawl before the current one, less the overlap
  of one minute (since 0 in the first crawl and when that is negative), so that a change made after a
  crawl began is in the range of every request of the crawl after it.
\<close>

theorem no_gap_between_crawls:
  assumes "crawl_history E c ts s w" and "json_ok E" and "\<forall>t. 0 \<le> za_now_ms E t"
    and "zoho_list_changes E c (Some s) w\<^sub>1 = Some (Returns (r, w'))"
  shows "\<exists>new. zw_sent w' = zw_sent w\<^sub>1 @ new \<and>
     (\<forall>(u, token) \<in> set new. \<exists>f offset. u = list_url c f offset (max 0 (previous_start ts - WATERMARK_OVERLAP_MS)))"
proof -
  obtain st where st: "za_from_json E s = Some st" "zu_watermark_ms st = previous_start ts"
    using history_times [OF assms(1,2)] by blast
  have "0 \<le> x" if "x \<in> set ts" for x using history_clock [OF assms(1) that] assms(3) by auto
  then have "0 \<le> previous_start ts" by (cases ts rule: previous_start.cases) auto
  then have "from_ms_of (za_debug E) (zu_watermark_ms st) = Returns (max 0 (previous_start ts - WATERMARK_OVERLAP_MS))"
    by (simp add: st(2) from_ms_of_def WATERMARK_OVERLAP_MS_def Let_def max.commute)
  from listing_from [OF assms(4) st(1) this] show ?thesis unfolding sends_def adds_def by blast
qed

section \<open>Concrete runs\<close>

text \<open>
  A token endpoint that redirects with 307 to another host: the credentials are posted there. The client is the one
  that \<open>new\<close> makes, and the redirects are as documented.
\<close>

definition toy_moved :: zoho_env where
  "toy_moved = toy_zoho\<lparr>ze_hops := \<lambda>t u form token. if form = None then []
     else [\<lparr>hp_status = 307, hp_url = ''https://evil.com'', hp_same_host = False, hp_form = form, hp_token = None\<rparr>]\<rparr>"

definition toy_made :: zoho_client where
  "toy_made = toy_client\<lparr>zl_api_base := ''https://workdrive.zoho.eu/api/v1''\<rparr>"

lemma toy_made: "zoho_new (Inr (), Inr ()) toy_creds ''z'' ''R'' = Inr toy_made"
  by (simp add: zoho_new_def toy_made_def toy_client_def toy_creds_def)

lemma moved_laws: "redirect_laws (ze_hops toy_moved)"
  by (simp add: redirect_laws_def toy_moved_def)

lemma moved_refresh: "refresh_if_needed toy_moved (zl_tokens toy_made) toy_world = Some (Returns (Inr ''tok'',
    \<lparr>zw_tick = 4, zw_cache = Some \<lparr>ct_access_token = ''tok'', ct_expires_at = nanos 3300\<rparr>,
     zw_posts = [toy_post], zw_sent = [], zw_chains = [(fst toy_post,
       [\<lparr>hp_status = 307, hp_url = ''https://evil.com'', hp_same_host = False, hp_form = Some (snd toy_post), hp_token = None\<rparr>])]\<rparr>))"
proof -
  have "token_of_answer toy_moved = token_of_answer toy_zoho"
    by (intro ext) (simp add: token_of_answer_def instant_add_def toy_moved_def split: oauth_answer.split option.split)
  moreover have "ze_now toy_moved = ze_now toy_zoho" "ze_oauth toy_moved = ze_oauth toy_zoho" by (simp_all add: toy_moved_def)
  ultimately show ?thesis
    by (simp add: refresh_if_needed_def check_cache_def call_oauth_refresh_def store_token_def io_defs cached_fresh_def
        toy_world_def toy_post_def toy_made_def toy_moved_def hops_by_def default_policy_def toy_client_def token_cache_new_def)
qed

lemma redirected_credentials:
  "\<exists>w'. (zoho_call toy_moved toy_made)\<^sup>*\<^sup>* toy_world w' \<and> (\<exists>hops h. (fst toy_post, hops) \<in> set (zw_chains w') \<and>
     h \<in> set hops \<and> hp_url h = ''https://evil.com'' \<and> \<not> hp_same_host h \<and> hp_form h = Some (oauth_form (token_cache_new toy_creds default_policy)))"
proof -
  obtain n where five: "MAX_REDIRECTS = Suc n" by (rule that [of 4]) (simp add: MAX_REDIRECTS_def)
  have parse: "za_parse_url toy_moved = za_parse_url toy_zoho" and get: "za_get toy_moved = za_get toy_zoho"
    by (simp_all add: toy_moved_def)
  have "zl_api_base toy_made = ''https://workdrive.zoho.eu/api/v1''" by (simp add: toy_made_def)
  then have "\<exists>r w' rest. zoho_download toy_moved toy_made toy_change toy_world = Some (Returns (r, w')) \<and>
     zw_chains w' = (fst toy_post, [\<lparr>hp_status = 307, hp_url = ''https://evil.com'', hp_same_host = False,
       hp_form = Some (snd toy_post), hp_token = None\<rparr>]) # rest"
    by (simp add: zoho_download_def download_with_trusted_auth_def five moved_refresh io_defs send_def Let_def
        toy_change_def parse toy_parse_url get toy_get is_redirection_def is_success_def)
  then obtain r w' rest where w': "zoho_download toy_moved toy_made toy_change toy_world = Some (Returns (r, w'))"
    "zw_chains w' = (fst toy_post, [\<lparr>hp_status = 307, hp_url = ''https://evil.com'', hp_same_host = False,
       hp_form = Some (snd toy_post), hp_token = None\<rparr>]) # rest" by blast
  then have "(zoho_call toy_moved toy_made)\<^sup>*\<^sup>* toy_world w'" by (blast intro: zoho_call.downloading)
  with w'(2) show ?thesis by (intro exI [of _ w'] conjI exI) (auto simp: toy_post_def toy_client_def)
qed

theorem secrets_confined_witness:
  "\<exists>w' hops h. (zoho_call toy_moved toy_made)\<^sup>*\<^sup>* toy_world w' \<and> (fst toy_post, hops) \<in> set (zw_chains w') \<and>
     h \<in> set hops \<and> hp_form h \<noteq> None \<and> hp_status h \<in> {307, 308} \<and> fst toy_post = ''https://accounts.zoho.eu/oauth/v2/token''"
proof -
  obtain w' hops h where run: "(zoho_call toy_moved toy_made)\<^sup>*\<^sup>* toy_world w'"
    and h: "(fst toy_post, hops) \<in> set (zw_chains w')" "h \<in> set hops" "hp_form h \<noteq> None"
    using redirected_credentials by blast
  obtain i where i: "i < length hops" "hops ! i = h" using h(2) by (auto simp: in_set_conv_nth)
  obtain posts new chains where c: "zw_chains w' = zw_chains toy_world @ chains"
    and hops: "\<forall>(u, hops) \<in> set chains. length hops \<le> 10 \<and> (\<forall>i < length hops.
        (hp_form (hops ! i) \<noteq> None \<longrightarrow> u = ''https://accounts.zoho.eu/oauth/v2/token'' \<and>
           hp_form (hops ! i) = Some [(''grant_type'', ''refresh_token''), (''client_id'', zc_client_id toy_creds),
             (''client_secret'', zc_client_secret toy_creds), (''refresh_token'', zc_refresh_token toy_creds)] \<and>
           (\<forall>j \<le> i. hp_status (hops ! j) \<in> {307, 308})) \<and>
        (hp_token (hops ! i) \<noteq> None \<longrightarrow>
           (\<exists>rest. u = ''https://workdrive.zoho.eu/api/v1/files/'' @ rest) \<and> hp_same_host (hops ! i)))"
    using secrets_confined [OF toy_made run moved_laws] by (elim exE conjE) (rule that)
  have "(fst toy_post, hops) \<in> set chains" using c h(1) by (simp add: toy_world_def)
  from bspec [OF hops this] i h(3) have "fst toy_post = ''https://accounts.zoho.eu/oauth/v2/token''" "hp_status h \<in> {307, 308}"
    unfolding prod.case by (metis, metis order_refl)
  with run h show ?thesis by blast
qed

text \<open>A team folder without files; the clock starts at 100 s and moves with the ticks.\<close>

definition toy_empty :: zoho_env where
  "toy_empty = toy_zoho\<lparr>za_list := \<lambda>_ _. page_answer (\<lambda>_. []) 1 ''R'' 0, za_now_ms := \<lambda>t. 100000 + int t\<rparr>"

lemma empty_reach: "f \<in> reach (\<lambda>_. []) root \<Longrightarrow> f = root"
  by (induction rule: reach.induct) simp_all

lemma empty_laws: "serves toy_empty toy_client (\<lambda>_. []) 1" "token_ok toy_empty T" "json_ok toy_empty"
proof -
  show "serves toy_empty toy_client (\<lambda>_. []) 1"
    by (auto simp: serves_def toy_empty_def page_answer_def dest: empty_reach)
  have "refresh_if_needed toy_empty T = refresh_if_needed toy_zoho T"
    by (rule refresh_cong) (simp_all add: toy_empty_def)
  then show "token_ok toy_empty T" using toy_token by (simp add: token_ok_def)
  show "json_ok toy_empty" using toy_json by (simp add: json_ok_def toy_empty_def)
qed

lemma empty_next: "bfs_next (\<lambda>_. []) f q st = st\<lparr>zu_queue := q\<rparr>"
  by (simp add: bfs_next_def absorb_items_def)

theorem no_gap_between_crawls_witness:
  "\<exists>t s w r w'. crawl_history toy_empty toy_client [t, 100000] s w \<and>
     zoho_list_changes toy_empty toy_client (Some s) w = Some (Returns (r, w')) \<and>
     (\<forall>(u, token) \<in> set (drop (length (zw_sent w)) (zw_sent w')). \<exists>f offset. u = list_url toy_client f offset 40000)"
proof -
  have R: "''R'' \<in> reach (\<lambda>_. []) (zl_root_id toy_client)"
    using reach.root [of "zl_root_id toy_client" "\<lambda>_. []"] by (simp add: toy_client_def)
  let ?st0 = "bootstrap 100000 ''R''"
  have ld: "load_state toy_empty toy_client None toy_world = Some (Returns (Inr ?st0, toy_world\<lparr>zw_tick := 1\<rparr>))"
    by (simp add: load_state_def now_ms_def io_defs toy_empty_def toy_world_def toy_client_def)
  obtain s1 w1 where one: "zoho_list_changes toy_empty toy_client None toy_world = Some (Returns (Inr
      \<lparr>dr_next_cursor = Some s1, dr_changes = files_of (\<lambda>_. []) ''R'', dr_more = False\<rparr>, w1))"
    "za_from_json toy_empty s1 = Some (?st0\<lparr>zu_queue := []\<rparr>)"
    using list_changes_step [OF empty_laws R ld, of "[]"] by (auto simp: bootstrap_def empty_next)
  let ?st2 = "\<lparr>zu_watermark_ms = 100000, zu_queue = [\<lparr>fc_folder_id = ''R'', fc_next_offset = 0\<rparr>], zu_visited = [],
      zu_root_id = ''R'', zu_run_started_ms = 100000 + int (zw_tick w1)\<rparr>"
  obtain s2 where s2: "za_to_json toy_empty ?st2 = Inr s2" "za_from_json toy_empty s2 = Some ?st2"
    using empty_laws(3) unfolding json_ok_def by blast
  have now: "za_now_ms toy_empty t = 100000 + int t" for t by (simp add: toy_empty_def)
  have two: "zoho_list_changes toy_empty toy_client (Some s1) w1 = Some (Returns (Inr
      \<lparr>dr_next_cursor = Some s2, dr_changes = [], dr_more = False\<rparr>, w1\<lparr>zw_tick := zw_tick w1 + 1\<rparr>))"
    using one(2) s2(1) by (simp add: zoho_list_changes_def load_state_def from_json_def restart_def now_ms_def to_json_def
        io_defs io_run_def from_ms_of_def WATERMARK_OVERLAP_MS_def bootstrap_def now Let_def)
  let ?w2 = "w1\<lparr>zw_tick := zw_tick w1 + 1\<rparr>"
  have h1: "crawl_history toy_empty toy_client [100000] s1 w1"
    using crawl_history.first_call [OF one(1)] by (simp add: now toy_world_def)
  have h2: "crawl_history toy_empty toy_client [100000 + int (zw_tick w1), 100000] s2 ?w2"
    using crawl_history.next_call [OF h1 _ one(2) two] by (simp add: now)
  have ld2: "load_state toy_empty toy_client (Some s2) ?w2 = Some (Returns (Inr ?st2, ?w2))"
    using s2(2) by (simp add: load_state_def from_json_def)
  obtain r w3 where three: "zoho_list_changes toy_empty toy_client (Some s2) ?w2 = Some (Returns (r, w3))"
    using list_changes_step [OF empty_laws R ld2, of "[]"] by auto
  have "\<forall>t. 0 \<le> za_now_ms toy_empty t" by (simp add: now)
  from no_gap_between_crawls [OF h2 empty_laws(3) this three] obtain new where
    "zw_sent w3 = zw_sent ?w2 @ new" "\<forall>(u, token) \<in> set new. \<exists>f offset. u = list_url toy_client f offset 40000"
    by (auto simp: WATERMARK_OVERLAP_MS_def)
  with h2 three show ?thesis
    by (intro exI [of _ "100000 + int (zw_tick w1)"] exI [of _ s2] exI [of _ ?w2] exI [of _ r] exI [of _ w3]) auto
qed

end
