(* ===== verification/Upsert_Race.thy ===== *)
theory Upsert_Race
  imports Chunk_Db
begin

text \<open>
  Concurrent upserts: \<open>upsert_chunks\<close> of \<open>ingestion/src/db.rs\<close> statement by statement, as clients of one
  table under \<open>READ COMMITTED\<close> (two daemons, as during a rolling update of the deployment).

  A call begins a transaction; its \<open>DELETE\<close> takes a snapshot of the identifiers of the item's committed rows,
  waits until no other transaction has one of them locked, and then deletes those that are still there; the
  inserts follow one by one; the commit removes the deleted rows and adds the inserted ones; a failure
  before it drops the transaction. No constraint of the schema relates the rows of one item
  (\<open>V10__ingestion_state.sql\<close> has a plain index). A call alone does what \<open>upsert_chunks\<close> does (\<open>alone\<close>).
\<close>

section \<open>Calls and steps\<close>

record upsert_call =
  uc_item :: string
  uc_rows :: table

text \<open>The rows the insert loop makes, from the tick of its first statement and the number of its first chunk.\<close>

fun chunk_rows :: "'f pg \<Rightarrow> string \<Rightarrow> string \<Rightarrow> string \<Rightarrow> nat \<Rightarrow> nat \<Rightarrow> (bytes \<times> 'f list) list \<Rightarrow> table" where
  "chunk_rows E item name cls t i [] = []"
| "chunk_rows E item name cls t i ((enc, emb) # ps) =
     \<lparr>dc_id = pg_fresh E t, dc_doc_name = name, dc_classification = cls, dc_chunk_index = of_nat i,
      dc_encrypted_content = Some enc, dc_embedding = Some (format_vector (pg_show E) emb),
      dc_source_item_id = Some item, dc_workspace_id = default_workspace\<rparr> # chunk_rows E item name cls (Suc t) (Suc i) ps"

datatype uphase = Waiting | Begun | Scanned "uuid set" | Inserting "uuid set" nat | Stored | Dropped

text \<open>\<open>us_log\<close> records the calls that committed, in order.\<close>

record usys =
  us_rows :: table
  us_phase :: "nat \<Rightarrow> uphase"
  us_log :: "nat list"

definition ustart :: "table \<Rightarrow> usys" where
  "ustart rows = \<lparr>us_rows = rows, us_phase = (\<lambda>_. Waiting), us_log = []\<rparr>"

definition set_uphase :: "nat \<Rightarrow> uphase \<Rightarrow> usys \<Rightarrow> usys" where
  "set_uphase i p s = s\<lparr>us_phase := (us_phase s)(i := p)\<rparr>"

abbreviation ids_of :: "table \<Rightarrow> uuid set" where
  "ids_of rows \<equiv> dc_id ` set rows"

fun holds_locks :: "uphase \<Rightarrow> uuid set" where
  "holds_locks (Inserting D n) = D"
| "holds_locks _ = {}"

text \<open>The commit of call \<open>i\<close>, which deleted the rows \<open>D\<close>.\<close>

definition committed :: "(nat \<Rightarrow> upsert_call) \<Rightarrow> nat \<Rightarrow> uuid set \<Rightarrow> usys \<Rightarrow> usys" where
  "committed call i D s = set_uphase i Stored
     (s\<lparr>us_rows := filter (\<lambda>r. dc_id r \<notin> D) (us_rows s) @ uc_rows (call i), us_log := us_log s @ [i]\<rparr>)"

inductive ustep :: "(nat \<Rightarrow> upsert_call) \<Rightarrow> usys \<Rightarrow> usys \<Rightarrow> bool" for call where
  begin_tx: "us_phase s i = Waiting \<Longrightarrow> ustep call s (set_uphase i Begun s)"
| scan: "us_phase s i = Begun \<Longrightarrow>
     ustep call s (set_uphase i (Scanned (ids_of (item_rows (uc_item (call i)) (us_rows s)))) s)"
| delete: "us_phase s i = Scanned S \<Longrightarrow> \<forall>j. j \<noteq> i \<longrightarrow> holds_locks (us_phase s j) \<inter> S = {} \<Longrightarrow>
     ustep call s (set_uphase i (Inserting (S \<inter> ids_of (us_rows s)) 0) s)"
| insert: "us_phase s i = Inserting D n \<Longrightarrow> n < length (uc_rows (call i)) \<Longrightarrow>
     ustep call s (set_uphase i (Inserting D (Suc n)) s)"
| commit: "us_phase s i = Inserting D (length (uc_rows (call i))) \<Longrightarrow>
     ustep call s (committed call i D s)"
| abort: "us_phase s i \<noteq> Stored \<Longrightarrow> us_phase s i \<noteq> Waiting \<Longrightarrow> ustep call s (set_uphase i Dropped s)"

lemma set_uphase_simps [simp]:
  "us_rows (set_uphase i p s) = us_rows s" "us_log (set_uphase i p s) = us_log s"
  "us_phase (set_uphase i p s) = (us_phase s)(i := p)" "set_uphase i q (set_uphase i p s) = set_uphase i q s"
  by (simp_all add: set_uphase_def)

section \<open>One call\<close>

lemma inserts_run:
  assumes "n \<le> length (uc_rows (call i))"
  shows "(ustep call)\<^sup>*\<^sup>* (set_uphase i (Inserting D 0) s) (set_uphase i (Inserting D n) s)"
  using assms
proof (induction n)
  case (Suc n)
  have "ustep call (set_uphase i (Inserting D n) s) (set_uphase i (Inserting D (Suc n)) (set_uphase i (Inserting D n) s))"
    by (rule ustep.insert) (use Suc.prems in simp_all)
  with Suc show ?case by simp
qed simp

lemma scan_run:
  assumes "us_phase s i = Waiting"
  shows "(ustep call)\<^sup>*\<^sup>* s (set_uphase i (Scanned (ids_of (item_rows (uc_item (call i)) (us_rows s)))) s)"
proof -
  have "ustep call s (set_uphase i Begun s)" by (rule ustep.begin_tx [OF assms])
  moreover have "ustep call (set_uphase i Begun s)
      (set_uphase i (Scanned (ids_of (item_rows (uc_item (call i)) (us_rows s)))) s)"
    using ustep.scan [of "set_uphase i Begun s" i call] by simp
  ultimately show ?thesis by (meson rtranclp.rtrancl_into_rtrancl rtranclp.rtrancl_refl)
qed

text \<open>From the snapshot on, a call that finds no lock in its way can commit.\<close>

lemma commit_run:
  assumes "us_phase s i = Scanned S" and "\<forall>j. j \<noteq> i \<longrightarrow> holds_locks (us_phase s j) \<inter> S = {}"
  shows "(ustep call)\<^sup>*\<^sup>* s (committed call i S s)"
proof -
  let ?D = "S \<inter> ids_of (us_rows s)" and ?n = "length (uc_rows (call i))"
  let ?t = "set_uphase i (Inserting ?D ?n) s"
  have "(ustep call)\<^sup>*\<^sup>* s (set_uphase i (Inserting ?D 0) s)"
    by (rule r_into_rtranclp) (rule ustep.delete [OF assms])
  also have "(ustep call)\<^sup>*\<^sup>* (set_uphase i (Inserting ?D 0) s) ?t" by (rule inserts_run) simp
  also have "(ustep call)\<^sup>*\<^sup>* ?t (committed call i ?D ?t)"
    by (rule r_into_rtranclp) (rule ustep.commit, simp)
  also have "committed call i ?D ?t = committed call i S s"
  proof -
    have "filter (\<lambda>r. dc_id r \<notin> ?D) (us_rows s) = filter (\<lambda>r. dc_id r \<notin> S) (us_rows s)"
      by (auto intro: filter_cong)
    then show ?thesis by (simp add: committed_def set_uphase_def)
  qed
  finally show ?thesis .
qed

lemma scan_deletes:
  assumes "distinct (map dc_id rows)"
  shows "filter (\<lambda>r. dc_id r \<notin> ids_of (item_rows item rows)) rows = delete_rows item rows"
  unfolding delete_rows_def
proof (rule filter_cong [OF refl])
  fix r assume r: "r \<in> set rows"
  have "r = q" if "q \<in> set rows" "dc_id r = dc_id q" for q
    using that r assms by (metis distinct_map inj_onD)
  with r show "dc_id r \<notin> ids_of (item_rows item rows) \<longleftrightarrow> dc_source_item_id r \<noteq> Some item"
    by (auto simp: item_rows_def)
qed

lemma insert_all_chunk_rows:
  "insert_all E item name cls i ps d = (Inr u, d') \<Longrightarrow>
     db_rows d' = db_rows d @ chunk_rows E item name cls (db_tick d) i ps"
proof (induction ps arbitrary: i d)
  case (Cons p ps)
  obtain enc emb where p: "p = (enc, emb)" by (cases p)
  from Cons.prems obtain rows where
    "insert_row (pg_cast_ok E) \<lparr>dc_id = pg_fresh E (db_tick d), dc_doc_name = name, dc_classification = cls,
       dc_chunk_index = of_nat i, dc_encrypted_content = Some enc,
       dc_embedding = Some (format_vector (pg_show E) emb), dc_source_item_id = Some item, dc_workspace_id = default_workspace\<rparr> (db_rows d) = Inr rows"
    and "insert_all E item name cls (Suc i) ps \<lparr>db_rows = rows, db_tick = Suc (db_tick d)\<rparr> = (Inr u, d')"
    by (auto simp: p Let_def split: if_splits sum.splits)
  from insert_row_Inr [OF this(1)] Cons.IH [OF this(2)] show ?case by (simp add: p)
qed simp

lemma alone:
  assumes "upsert_chunks E item name cls encs embs d = Returns (Inr u, d')" and "distinct (map dc_id (db_rows d))"
    and "call i = \<lparr>uc_item = item, uc_rows = chunk_rows E item name cls (Suc (Suc (db_tick d))) 0 (zip encs embs)\<rparr>"
  shows "\<exists>s. (ustep call)\<^sup>*\<^sup>* (ustart (db_rows d)) s \<and> us_phase s i = Stored \<and> us_rows s = db_rows d'"
proof -
  let ?S = "ids_of (item_rows item (db_rows d))"
  from assms(1) obtain tx where "insert_all E item name cls 0 (zip encs embs)
      \<lparr>db_rows = delete_rows item (db_rows d), db_tick = Suc (Suc (db_tick d))\<rparr> = (Inr (), tx)"
    and tx: "db_rows tx = db_rows d'"
    by (auto simp: upsert_chunks_def rolled_back_def Let_def split: if_splits prod.splits sum.splits)
  from insert_all_chunk_rows [OF this(1)] have rows: "db_rows d' = delete_rows item (db_rows d) @ uc_rows (call i)"
    by (simp add: assms(3) flip: tx)
  have "(ustep call)\<^sup>*\<^sup>* (ustart (db_rows d)) (set_uphase i (Scanned ?S) (ustart (db_rows d)))"
    using scan_run [of "ustart (db_rows d)" i call] by (simp add: ustart_def assms(3))
  also have "(ustep call)\<^sup>*\<^sup>* \<dots> (committed call i ?S (set_uphase i (Scanned ?S) (ustart (db_rows d))))"
    by (rule commit_run) (simp_all add: ustart_def)
  finally show ?thesis
    by (intro exI conjI) (assumption, simp_all add: committed_def ustart_def rows scan_deletes [OF assms(2)])
qed

section \<open>Whole batches\<close>

text \<open>
  The calls' rows carry the item and fresh identifiers. \<open>covers\<close> says of the identifiers a call deletes that
  they belong to rows of its item, take each batch whole or not at all, and include the item's original rows.
\<close>

definition fresh_calls :: "table \<Rightarrow> (nat \<Rightarrow> upsert_call) \<Rightarrow> bool" where
  "fresh_calls rows0 call \<longleftrightarrow> distinct (map dc_id rows0) \<and>
     (\<forall>j. (\<forall>r \<in> set (uc_rows (call j)). dc_source_item_id r = Some (uc_item (call j))) \<and>
        ids_of (uc_rows (call j)) \<inter> ids_of rows0 = {} \<and>
        (\<forall>i. i \<noteq> j \<longrightarrow> ids_of (uc_rows (call i)) \<inter> ids_of (uc_rows (call j)) = {}))"

definition untouched :: "(nat \<Rightarrow> upsert_call) \<Rightarrow> nat list \<Rightarrow> table \<Rightarrow> table" where
  "untouched call log rows0 = filter (\<lambda>r. dc_source_item_id r \<notin> (\<lambda>j. Some (uc_item (call j))) ` set log) rows0"

definition batches :: "(nat \<Rightarrow> upsert_call) \<Rightarrow> nat list \<Rightarrow> table" where
  "batches call js = concat (map (\<lambda>j. uc_rows (call j)) js)"

definition on_item :: "(nat \<Rightarrow> upsert_call) \<Rightarrow> string \<Rightarrow> nat list \<Rightarrow> nat list" where
  "on_item call item js = filter (\<lambda>j. uc_item (call j) = item) js"

definition covers :: "(nat \<Rightarrow> upsert_call) \<Rightarrow> table \<Rightarrow> usys \<Rightarrow> string \<Rightarrow> uuid set \<Rightarrow> bool" where
  "covers call rows0 s item S \<longleftrightarrow>
     ids_of (item_rows item rows0) \<inter> ids_of (us_rows s) \<subseteq> S \<and>
     S \<subseteq> ids_of (item_rows item rows0) \<union> (\<Union>j \<in> {j. uc_item (call j) = item}. ids_of (uc_rows (call j))) \<and>
     (\<forall>j. ids_of (uc_rows (call j)) \<subseteq> S \<or> ids_of (uc_rows (call j)) \<inter> S = {})"

definition deleting :: "uphase \<Rightarrow> uuid set \<Rightarrow> bool" where
  "deleting p S \<longleftrightarrow> p = Scanned S \<or> (\<exists>n. p = Inserting S n)"

definition upsert_inv :: "(nat \<Rightarrow> upsert_call) \<Rightarrow> table \<Rightarrow> usys \<Rightarrow> bool" where
  "upsert_inv call rows0 s \<longleftrightarrow>
     (\<forall>j. us_phase s j = Stored \<longleftrightarrow> j \<in> set (us_log s)) \<and> distinct (us_log s) \<and>
     (\<forall>j S. deleting (us_phase s j) S \<longrightarrow> covers call rows0 s (uc_item (call j)) S) \<and>
     (\<exists>L. us_rows s = untouched call (us_log s) rows0 @ batches call (filter (\<lambda>j. j \<in> L) (us_log s)) \<and>
        (\<forall>item. on_item call item (us_log s) \<noteq> [] \<longrightarrow> last (on_item call item (us_log s)) \<in> L))"

lemma batches_mem: "r \<in> set (batches call js) \<longleftrightarrow> (\<exists>j \<in> set js. r \<in> set (uc_rows (call j)))"
  by (simp add: batches_def)

lemma batches_append: "batches call (js @ [i]) = batches call js @ uc_rows (call i)"
  by (simp add: batches_def)

text \<open>A set that takes batches whole leaves the batches it does not take.\<close>

lemma batches_filter:
  assumes "\<forall>j. ids_of (uc_rows (call j)) \<subseteq> S \<or> ids_of (uc_rows (call j)) \<inter> S = {}"
  shows "filter (\<lambda>r. dc_id r \<notin> S) (batches call js)
    = batches call (filter (\<lambda>j. ids_of (uc_rows (call j)) \<inter> S = {}) js)"
proof (induction js)
  case (Cons j js)
  show ?case
  proof (cases "ids_of (uc_rows (call j)) \<inter> S = {}")
    case True
    then have "filter (\<lambda>r. dc_id r \<notin> S) (uc_rows (call j)) = uc_rows (call j)" by (auto intro: filter_True)
    with True Cons show ?thesis by (simp add: batches_def)
  next
    case False
    then have "filter (\<lambda>r. dc_id r \<notin> S) (uc_rows (call j)) = []" using assms by (auto simp: filter_empty_conv)
    with False Cons show ?thesis by (simp add: batches_def)
  qed
qed (simp add: batches_def)

lemma fresh_same_row:
  assumes "fresh_calls rows0 call" and "q \<in> set rows0" "r \<in> set rows0" "dc_id q = dc_id r"
  shows "q = r"
  using assms by (auto simp: fresh_calls_def distinct_map dest: inj_onD)

lemma fresh_orig: "fresh_calls rows0 call \<Longrightarrow> r \<in> set rows0 \<Longrightarrow> q \<in> set (uc_rows (call j)) \<Longrightarrow> dc_id q \<noteq> dc_id r"
  by (auto simp: fresh_calls_def dest: bspec)

lemma fresh_same_call:
  "fresh_calls rows0 call \<Longrightarrow> q \<in> set (uc_rows (call i)) \<Longrightarrow> r \<in> set (uc_rows (call j)) \<Longrightarrow> dc_id q = dc_id r \<Longrightarrow> i = j"
  by (simp add: fresh_calls_def) (metis IntI empty_iff imageI)

lemma fresh_item: "fresh_calls rows0 call \<Longrightarrow> r \<in> set (uc_rows (call j)) \<Longrightarrow> dc_source_item_id r = Some (uc_item (call j))"
  by (simp add: fresh_calls_def)

text \<open>Committing takes the item's original rows out and leaves the others.\<close>

lemma untouched_commit:
  assumes f: "fresh_calls rows0 call" and c: "covers call rows0 s (uc_item (call i)) S"
    and rows: "us_rows s = untouched call log rows0 @ B"
  shows "filter (\<lambda>r. dc_id r \<notin> S) (untouched call log rows0) = untouched call (log @ [i]) rows0"
proof -
  have "dc_id r \<notin> S \<longleftrightarrow> dc_source_item_id r \<noteq> Some (uc_item (call i))"
    if r: "r \<in> set rows0" "r \<in> set (untouched call log rows0)" for r
  proof
    assume n: "dc_id r \<notin> S"
    have "dc_id r \<in> ids_of (us_rows s)" using r(2) rows by simp
    with n c have "dc_id r \<notin> ids_of (item_rows (uc_item (call i)) rows0)" by (auto simp: covers_def)
    with r(1) show "dc_source_item_id r \<noteq> Some (uc_item (call i))" by (auto simp: item_rows_def)
  next
    assume n: "dc_source_item_id r \<noteq> Some (uc_item (call i))"
    have "dc_id r \<noteq> dc_id q" if "q \<in> set (item_rows (uc_item (call i)) rows0)" for q
      using that fresh_same_row [OF f] r(1) n by (auto simp: item_rows_def)
    moreover have "dc_id q \<noteq> dc_id r" if "q \<in> set (uc_rows (call j))" for q j
      using fresh_orig [OF f r(1) that] .
    ultimately have "dc_id r \<notin> ids_of (item_rows (uc_item (call i)) rows0) \<union>
        (\<Union>j \<in> {j. uc_item (call j) = uc_item (call i)}. ids_of (uc_rows (call j)))" by (auto dest: sym)
    with c show "dc_id r \<notin> S" unfolding covers_def by blast
  qed
  then have "filter (\<lambda>r. dc_id r \<notin> S) (untouched call log rows0)
      = filter (\<lambda>r. dc_source_item_id r \<noteq> Some (uc_item (call i))) (untouched call log rows0)"
    by (intro filter_cong) (auto simp: untouched_def)
  then show ?thesis by (auto simp: untouched_def intro: filter_cong)
qed

lemma covers_shrink:
  assumes "covers call rows0 s item S" and "ids_of (item_rows item rows0) \<inter> ids_of (us_rows t) \<subseteq> ids_of (us_rows s)"
  shows "covers call rows0 t item S"
  using assms by (auto simp: covers_def)

text \<open>A snapshot covers its item.\<close>

lemma covers_scan:
  assumes f: "fresh_calls rows0 call" and rows: "us_rows s = untouched call log rows0 @ batches call js"
  shows "covers call rows0 s item (ids_of (item_rows item (us_rows s)))"
  unfolding covers_def
proof (intro conjI allI)
  let ?S = "ids_of (item_rows item (us_rows s))"
  show "ids_of (item_rows item rows0) \<inter> ids_of (us_rows s) \<subseteq> ?S"
  proof
    fix x assume "x \<in> ids_of (item_rows item rows0) \<inter> ids_of (us_rows s)"
    then obtain q r where q: "q \<in> set rows0" "dc_source_item_id q = Some item" "x = dc_id q"
      and r: "r \<in> set (us_rows s)" "x = dc_id r" by (auto simp: item_rows_def)
    have "r \<notin> set (batches call js)" using fresh_orig [OF f q(1)] q(3) r(2) by (auto simp: batches_mem)
    with r(1) rows have "r \<in> set rows0" by (auto simp: untouched_def)
    with fresh_same_row [OF f q(1)] q(3) r(2) have "q = r" by simp
    with q r show "x \<in> ?S" by (auto simp: item_rows_def)
  qed
  show "?S \<subseteq> ids_of (item_rows item rows0) \<union> (\<Union>j \<in> {j. uc_item (call j) = item}. ids_of (uc_rows (call j)))"
  proof
    fix x assume "x \<in> ?S"
    then obtain r where r: "r \<in> set (us_rows s)" "dc_source_item_id r = Some item" "x = dc_id r"
      by (auto simp: item_rows_def)
    from r(1) rows consider "r \<in> set rows0" | j where "r \<in> set (uc_rows (call j))"
      by (auto simp: untouched_def batches_mem)
    then show "x \<in> ids_of (item_rows item rows0) \<union> (\<Union>j \<in> {j. uc_item (call j) = item}. ids_of (uc_rows (call j)))"
      using r fresh_item [OF f] by cases (auto simp: item_rows_def)
  qed
  fix j
  show "ids_of (uc_rows (call j)) \<subseteq> ?S \<or> ids_of (uc_rows (call j)) \<inter> ?S = {}"
  proof (rule disjCI)
    assume "ids_of (uc_rows (call j)) \<inter> ?S \<noteq> {}"
    then obtain q r where q: "q \<in> set (uc_rows (call j))" and r: "r \<in> set (us_rows s)" "dc_source_item_id r = Some item"
      and x: "dc_id q = dc_id r" by (auto simp: item_rows_def)
    have "r \<notin> set rows0" using fresh_orig [OF f _ q] x by auto
    with r(1) rows obtain i where i: "i \<in> set js" "r \<in> set (uc_rows (call i))" by (auto simp: untouched_def batches_mem)
    with fresh_same_call [OF f q i(2) x] have "j \<in> set js" "uc_item (call j) = item"
      using fresh_item [OF f i(2)] r(2) by auto
    then show "ids_of (uc_rows (call j)) \<subseteq> ?S" using rows fresh_item [OF f] by (auto simp: item_rows_def batches_mem)
  qed
qed

text \<open>A batch is in the table whole or not at all, so what is left of a covering set covers.\<close>

lemma batch_present:
  assumes f: "fresh_calls rows0 call" and rows: "us_rows s = untouched call log rows0 @ batches call js"
    and "q \<in> set (uc_rows (call j))" "dc_id q \<in> ids_of (us_rows s)"
  shows "j \<in> set js"
proof -
  obtain r where r: "r \<in> set (us_rows s)" "dc_id q = dc_id r" using assms(4) by auto
  have "r \<notin> set rows0" using fresh_orig [OF f _ assms(3)] r(2) by auto
  with r(1) rows obtain i where "i \<in> set js" "r \<in> set (uc_rows (call i))" by (auto simp: untouched_def batches_mem)
  with fresh_same_call [OF f assms(3) _ r(2)] show ?thesis by blast
qed

lemma covers_delete:
  assumes f: "fresh_calls rows0 call" and rows: "us_rows s = untouched call log rows0 @ batches call js"
    and c: "covers call rows0 s item S"
  shows "covers call rows0 s item (S \<inter> ids_of (us_rows s))"
proof -
  have "ids_of (uc_rows (call j)) \<subseteq> S \<inter> ids_of (us_rows s) \<or> ids_of (uc_rows (call j)) \<inter> (S \<inter> ids_of (us_rows s)) = {}" for j
  proof (cases "j \<in> set js \<and> ids_of (uc_rows (call j)) \<subseteq> S")
    case True
    then show ?thesis using rows by (auto simp: batches_mem)
  next
    case False
    have "ids_of (uc_rows (call j)) \<inter> ids_of (us_rows s) = {}" if "j \<notin> set js"
      using batch_present [OF f rows] that by blast
    moreover have "ids_of (uc_rows (call j)) \<subseteq> S \<or> ids_of (uc_rows (call j)) \<inter> S = {}"
      using c unfolding covers_def by blast
    ultimately show ?thesis using False by blast
  qed
  with c show ?thesis by (auto simp: covers_def)
qed

lemma covers_step:
  assumes f: "fresh_calls rows0 call" and s: "ustep call s t" and c: "covers call rows0 s item S"
  shows "covers call rows0 t item S"
proof (rule covers_shrink [OF c])
  show "ids_of (item_rows item rows0) \<inter> ids_of (us_rows t) \<subseteq> ids_of (us_rows s)"
    using s f by (cases rule: ustep.cases) (auto simp: committed_def item_rows_def dest: fresh_orig)
qed

lemma on_item_append: "on_item call item (js @ [i]) = on_item call item js @ (if uc_item (call i) = item then [i] else [])"
  by (simp add: on_item_def)

lemma on_item_last: "on_item call item js \<noteq> [] \<Longrightarrow> last (on_item call item js) \<in> set js \<and> uc_item (call (last (on_item call item js))) = item"
  using last_in_set [of "on_item call item js"] by (auto simp: on_item_def)

text \<open>A call's own item is the only one it deletes from.\<close>

lemma covers_other:
  assumes f: "fresh_calls rows0 call" and c: "covers call rows0 s item S" and "uc_item (call j) \<noteq> item"
  shows "ids_of (uc_rows (call j)) \<inter> S = {}"
proof -
  have "dc_id q \<notin> ids_of (item_rows item rows0)" if "q \<in> set (uc_rows (call j))" for q
    using fresh_orig [OF f _ that] by (auto simp: item_rows_def)
  moreover have "dc_id q \<notin> ids_of (uc_rows (call i))" if "q \<in> set (uc_rows (call j))" "uc_item (call i) = item" for q i
    using fresh_same_call [OF f that(1)] that(2) assms(3) by fastforce
  ultimately show ?thesis using c unfolding covers_def by blast
qed

lemma upsert_inv_commit:
  assumes f: "fresh_calls rows0 call" and inv: "upsert_inv call rows0 s"
    and ph: "us_phase s i = Inserting D n"
  shows "\<exists>L. us_rows (committed call i D s) = untouched call (us_log s @ [i]) rows0 @ batches call (filter (\<lambda>j. j \<in> L) (us_log s @ [i])) \<and>
     (\<forall>item. on_item call item (us_log s @ [i]) \<noteq> [] \<longrightarrow> last (on_item call item (us_log s @ [i])) \<in> L)"
proof -
  obtain L where rows: "us_rows s = untouched call (us_log s) rows0 @ batches call (filter (\<lambda>j. j \<in> L) (us_log s))"
    and last: "\<And>item. on_item call item (us_log s) \<noteq> [] \<Longrightarrow> last (on_item call item (us_log s)) \<in> L"
    using inv unfolding upsert_inv_def by blast
  have c: "covers call rows0 s (uc_item (call i)) D" using inv ph by (auto simp: upsert_inv_def deleting_def)
  have "i \<in> set (us_log s) \<longleftrightarrow> us_phase s i = Stored" using inv unfolding upsert_inv_def by blast
  with ph have new: "i \<notin> set (us_log s)" by simp
  define M where "M = insert i {j \<in> L. ids_of (uc_rows (call j)) \<inter> D = {}}"
  have "filter (\<lambda>r. dc_id r \<notin> D) (batches call (filter (\<lambda>j. j \<in> L) (us_log s)))
      = batches call (filter (\<lambda>j. j \<in> M) (us_log s))"
  proof -
    have "filter (\<lambda>j. ids_of (uc_rows (call j)) \<inter> D = {}) (filter (\<lambda>j. j \<in> L) (us_log s)) = filter (\<lambda>j. j \<in> M) (us_log s)"
      unfolding filter_filter by (rule filter_cong [OF refl]) (use new in \<open>auto simp: M_def\<close>)
    moreover have "\<forall>j. ids_of (uc_rows (call j)) \<subseteq> D \<or> ids_of (uc_rows (call j)) \<inter> D = {}"
      using c unfolding covers_def by blast
    ultimately show ?thesis by (subst batches_filter) simp_all
  qed
  then have "us_rows (committed call i D s) = untouched call (us_log s @ [i]) rows0 @ batches call (filter (\<lambda>j. j \<in> M) (us_log s @ [i]))"
    using untouched_commit [OF f c rows] rows by (simp add: committed_def batches_append M_def)
  moreover have "last (on_item call item (us_log s @ [i])) \<in> M" if "on_item call item (us_log s @ [i]) \<noteq> []" for item
  proof (cases "uc_item (call i) = item")
    case False
    with that have ne: "on_item call item (us_log s) \<noteq> []" by (simp add: on_item_append)
    from on_item_last [OF ne] False covers_other [OF f c] last [OF ne] show ?thesis
      by (auto simp: on_item_append M_def)
  qed (simp add: on_item_append M_def)
  ultimately show ?thesis by blast
qed

text \<open>The other steps leave the rows and the log.\<close>

lemma upsert_inv_start: "upsert_inv call rows0 (ustart rows0)"
  by (auto simp: upsert_inv_def ustart_def deleting_def untouched_def batches_def on_item_def)

lemma upsert_inv_step:
  assumes f: "fresh_calls rows0 call" and inv: "upsert_inv call rows0 s" and st: "ustep call s t"
  shows "upsert_inv call rows0 t"
proof -
  obtain L where rows: "us_rows s = untouched call (us_log s) rows0 @ batches call (filter (\<lambda>j. j \<in> L) (us_log s))"
    using inv unfolding upsert_inv_def by blast
  have ph: "us_phase s j = Stored \<longleftrightarrow> j \<in> set (us_log s)" for j using inv unfolding upsert_inv_def by blast
  have keep: "covers call rows0 t (uc_item (call j)) S" if "deleting (us_phase s j) S" for j S
    using covers_step [OF f st] inv that unfolding upsert_inv_def by blast
  have same: "covers call rows0 t = covers call rows0 s" if "us_rows t = us_rows s"
    using that by (intro ext) (simp add: covers_def)
  have "\<exists>i p. us_phase t = (us_phase s)(i := p) \<and> us_phase s i \<noteq> Stored \<and>
      (\<forall>S. deleting p S \<longrightarrow> covers call rows0 t (uc_item (call i)) S) \<and>
      (if p = Stored then \<exists>D n. us_phase s i = Inserting D n \<and> t = committed call i D s
       else us_rows t = us_rows s \<and> us_log t = us_log s)"
    using st
  proof cases
    case (scan i)
    then show ?thesis using covers_scan [OF f rows] same by (intro exI [of _ i] exI) (auto simp: deleting_def)
  next
    case (delete i S)
    have "covers call rows0 s (uc_item (call i)) S" using inv delete unfolding upsert_inv_def deleting_def by blast
    with covers_delete [OF f rows] delete same show ?thesis by (intro exI [of _ i] exI) (auto simp: deleting_def)
  next
    case (insert i D n)
    have "covers call rows0 s (uc_item (call i)) D" using inv insert unfolding upsert_inv_def deleting_def by blast
    with insert same show ?thesis by (intro exI [of _ i] exI) (auto simp: deleting_def)
  next
    case (commit i D)
    then show ?thesis by (intro exI [of _ i] exI [of _ Stored]) (auto simp: deleting_def committed_def)
  next
    case (begin_tx i)
    then show ?thesis by (intro exI [of _ i] exI [of _ Begun]) (auto simp: deleting_def)
  next
    case (abort i)
    then show ?thesis by (intro exI [of _ i] exI [of _ Dropped]) (auto simp: deleting_def)
  qed
  then obtain i p where t: "us_phase t = (us_phase s)(i := p)" "us_phase s i \<noteq> Stored"
    "\<And>S. deleting p S \<Longrightarrow> covers call rows0 t (uc_item (call i)) S"
    "if p = Stored then \<exists>D n. us_phase s i = Inserting D n \<and> t = committed call i D s
       else us_rows t = us_rows s \<and> us_log t = us_log s" by blast
  have cov: "covers call rows0 t (uc_item (call j)) S" if "deleting (us_phase t j) S" for j S
    using that keep t(1,3) by (cases "j = i") auto
  show ?thesis
  proof (cases "p = Stored")
    case True
    with t(4) obtain D n where D: "us_phase s i = Inserting D n" "t = committed call i D s" by auto
    then have "us_log t = us_log s @ [i]" by (simp add: committed_def)
    with upsert_inv_commit [OF f inv D(1)] D(2) inv t(1,2) True cov ph show ?thesis
      unfolding upsert_inv_def by auto
  next
    case False
    with inv t(1,2,4) cov ph show ?thesis unfolding upsert_inv_def by auto
  qed
qed

lemma upsert_inv_reach:
  assumes "fresh_calls rows0 call" "(ustep call)\<^sup>*\<^sup>* (ustart rows0) s"
  shows "upsert_inv call rows0 s"
  using assms(2)
  by (induction rule: rtranclp_induct) (auto intro: upsert_inv_start upsert_inv_step [OF assms(1)])

section \<open>Properties\<close>

text \<open>
  C22. Concurrent upserts keep batches whole. Whatever the interleaving, and whichever calls fail: the table is the original rows of the items no call
  committed on, followed by whole batches of committed calls in the order of their commits, and the last call
  to commit on an item is among them. So no partial batch is ever visible, no batch is interleaved with
  another, and the newest one is never lost.
\<close>

theorem upserts_whole_batches:
  assumes "fresh_calls rows0 call" and "(ustep call)\<^sup>*\<^sup>* (ustart rows0) s"
  shows "\<exists>L. us_rows s = untouched call (us_log s) rows0 @ batches call (filter (\<lambda>j. j \<in> L) (us_log s)) \<and>
     (\<forall>item. on_item call item (us_log s) \<noteq> [] \<longrightarrow> last (on_item call item (us_log s)) \<in> L)"
  using upsert_inv_reach [OF assms] unfolding upsert_inv_def by blast

text \<open>
  But the upsert does not replace all chunks when another one is under way: two calls on one item whose
  \<open>DELETE\<close>s took their snapshots before either committed both commit, and the item then has the rows of both.
\<close>

theorem racing_upserts_double:
  assumes f: "fresh_calls rows0 call" and ij: "i \<noteq> j" "uc_item (call i) = item" "uc_item (call j) = item"
  shows "\<exists>s. (ustep call)\<^sup>*\<^sup>* (ustart rows0) s \<and> us_phase s i = Stored \<and> us_phase s j = Stored \<and>
     us_rows s = delete_rows item rows0 @ uc_rows (call i) @ uc_rows (call j) \<and>
     item_rows item (us_rows s) = uc_rows (call i) @ uc_rows (call j)"
proof -
  let ?S = "ids_of (item_rows item rows0)"
  let ?a = "set_uphase i (Scanned ?S) (ustart rows0)"
  let ?b = "set_uphase j (Scanned ?S) ?a"
  let ?c = "committed call i ?S ?b"
  let ?d = "committed call j ?S ?c"
  have rows: "distinct (map dc_id rows0)" using f by (simp add: fresh_calls_def)
  have "(ustep call)\<^sup>*\<^sup>* (ustart rows0) ?a" using scan_run [of "ustart rows0" i call] ij by (simp add: ustart_def)
  also have "(ustep call)\<^sup>*\<^sup>* ?a ?b" using scan_run [of ?a j call] ij by (simp add: ustart_def)
  also have "(ustep call)\<^sup>*\<^sup>* ?b ?c" using ij by (intro commit_run) (auto simp: ustart_def)
  also have "(ustep call)\<^sup>*\<^sup>* ?c ?d" using ij by (intro commit_run) (auto simp: ustart_def committed_def)
  finally have run: "(ustep call)\<^sup>*\<^sup>* (ustart rows0) ?d" .
  have "filter (\<lambda>r. dc_id r \<notin> ?S) (uc_rows (call i)) = uc_rows (call i)"
    by (rule filter_True) (use fresh_orig [OF f] in \<open>auto simp: item_rows_def\<close>)
  moreover have "filter (\<lambda>r. dc_id r \<notin> ?S) (delete_rows item rows0) = delete_rows item rows0"
    unfolding scan_deletes [OF rows, symmetric] by simp
  ultimately have "us_rows ?d = delete_rows item rows0 @ uc_rows (call i) @ uc_rows (call j)"
    by (simp add: committed_def ustart_def scan_deletes [OF rows])
  moreover have "item_rows item (delete_rows item rows0) = []" by (simp add: item_rows_def delete_rows_def)
  moreover have "item_rows item (uc_rows (call k)) = uc_rows (call k)" if "uc_item (call k) = item" for k
    unfolding item_rows_def by (rule filter_True) (use fresh_item [OF f] that in auto)
  ultimately have "item_rows item (us_rows ?d) = uc_rows (call i) @ uc_rows (call j)"
    using ij by (simp add: item_rows_def)
  moreover have "us_phase ?d i = Stored" "us_phase ?d j = Stored" using ij by (simp_all add: committed_def)
  ultimately show ?thesis using run \<open>us_rows ?d = _\<close> by blast
qed

section \<open>Witness\<close>

definition race_row :: "uuid \<Rightarrow> doc_chunk" where
  "race_row k = \<lparr>dc_id = k, dc_doc_name = ''a.md'', dc_classification = ''INTERNAL'', dc_chunk_index = 0,
     dc_encrypted_content = Some [], dc_embedding = None, dc_source_item_id = Some ''doc'', dc_workspace_id = default_workspace\<rparr>"

definition toy_upsert :: "nat \<Rightarrow> upsert_call" where
  "toy_upsert i = \<lparr>uc_item = ''doc'', uc_rows = (if i = 0 then [race_row 1] else if i = 1 then [race_row 2] else [])\<rparr>"

lemma toy_fresh: "fresh_calls [race_row 0] toy_upsert"
proof -
  have "ids_of (uc_rows (toy_upsert j)) = (if j = 0 then {1} else if j = 1 then {2} else {})" for j
    by (simp add: toy_upsert_def race_row_def)
  moreover have "\<forall>r \<in> set (uc_rows (toy_upsert j)). dc_source_item_id r = Some (uc_item (toy_upsert j))" for j
    by (simp add: toy_upsert_def race_row_def)
  ultimately show ?thesis unfolding fresh_calls_def by (simp add: race_row_def)
qed

theorem upserts_whole_batches_witness:
  "\<exists>s L. (ustep toy_upsert)\<^sup>*\<^sup>* (ustart [race_row 0]) s \<and> us_rows s = [race_row 1, race_row 2] \<and>
     us_rows s = untouched toy_upsert (us_log s) [race_row 0] @ batches toy_upsert (filter (\<lambda>j. j \<in> L) (us_log s))"
proof -
  obtain s where s: "(ustep toy_upsert)\<^sup>*\<^sup>* (ustart [race_row 0]) s" "us_rows s = [race_row 1, race_row 2]"
    using racing_upserts_double [OF toy_fresh, of 0 1 "''doc''"]
    by (auto simp: toy_upsert_def delete_rows_def) (simp add: race_row_def)
  from upserts_whole_batches [OF toy_fresh s(1)] s show ?thesis by blast
qed

end
