(* ===== verification/Row_Security.thy ===== *)
theory Row_Security
  imports Chunk_Db
begin

text \<open>
  The row-level security of \<open>document_chunks\<close>, as the migrations leave it (V5 forces it on every role that is
  neither a superuser nor has BYPASSRLS; V10, V12 and V14 have the policies in force), and the statements of
  the daemon under it.

  A session is what the policies look at: whether its role bypasses them, the settings \<open>app.mcp_role\<close> and
  \<open>app.mcp_client_id\<close> (none when never set), and the rows of \<open>api_key_workspaces\<close>. The Java gateway sets the two
  for each transaction; neither of the Rust programs ever does. The four commands come to one condition,
  \<open>sees\<close>: the restrictive policy holds for all of them, the classification gate is in the policies for SELECT,
  INSERT and UPDATE, and a DELETE whose WHERE clause reads the row must pass the SELECT policy too.
\<close>

section \<open>Sessions and policies\<close>

record db_session =
  ss_bypass :: bool
  ss_mcp_role :: "string option"
  ss_mcp_client_id :: "uuid option"
  ss_api_key_workspaces :: "(uuid \<times> uuid) list"

definition nil_uuid :: uuid where
  "nil_uuid = 0"

text \<open>\<open>app_setting\<close>: an empty setting counts as none.\<close>

definition app_setting :: "string option \<Rightarrow> string option" where
  "app_setting v = (if v = Some [] then None else v)"

definition is_admin :: "db_session \<Rightarrow> bool" where
  "is_admin S \<longleftrightarrow> unwrap_or ''READ_ONLY'' (app_setting (ss_mcp_role S)) = ''ADMIN''"

text \<open>\<open>doc_chunks_workspace_isolation\<close>, the restrictive policy.\<close>

definition in_workspace :: "db_session \<Rightarrow> doc_chunk \<Rightarrow> bool" where
  "in_workspace S r \<longleftrightarrow> (unwrap_or nil_uuid (ss_mcp_client_id S), dc_workspace_id r) \<in> set (ss_api_key_workspaces S)"

definition sees :: "db_session \<Rightarrow> doc_chunk \<Rightarrow> bool" where
  "sees S r \<longleftrightarrow> ss_bypass S \<or>
     in_workspace S r \<and> (is_admin S \<or> dc_classification r \<noteq> ''CONFIDENTIAL'')"

definition visible :: "db_session \<Rightarrow> table \<Rightarrow> table" where
  "visible S rows = filter (sees S) rows"

text \<open>
  A session in which no client was set, of a role that is restricted. No API key has the nil UUID, so that it
  has no workspaces.
\<close>

definition no_client :: "db_session \<Rightarrow> bool" where
  "no_client S \<longleftrightarrow> \<not> ss_bypass S \<and> ss_mcp_client_id S = None \<and>
     (\<forall>(key, ws) \<in> set (ss_api_key_workspaces S). key \<noteq> nil_uuid)"

lemma sees_bypass: "ss_bypass S \<Longrightarrow> sees S r"
  by (simp add: sees_def)

lemma visible_bypass: "ss_bypass S \<Longrightarrow> visible S rows = rows"
  by (simp add: visible_def sees_bypass)

lemma sees_no_client: "no_client S \<Longrightarrow> \<not> sees S r"
  by (auto simp: no_client_def sees_def in_workspace_def)

lemma visible_no_client: "no_client S \<Longrightarrow> visible S rows = []"
  by (simp add: visible_def sees_no_client)

section \<open>The daemon's statements in a session\<close>

text \<open>A DELETE passes over the rows that the session does not see; an INSERT of such a row is refused.\<close>

definition delete_rows_in :: "db_session \<Rightarrow> string \<Rightarrow> table \<Rightarrow> table" where
  "delete_rows_in S item rows = filter (\<lambda>r. \<not> (sees S r \<and> dc_source_item_id r = Some item)) rows"

definition insert_row_in :: "db_session \<Rightarrow> (string \<Rightarrow> bool) \<Rightarrow> doc_chunk \<Rightarrow> table \<Rightarrow> anyhow + table" where
  "insert_row_in S cast_ok r rows =
     (if sees S r then insert_row cast_ok r rows else Inl ''new row violates row-level security policy'')"

text \<open>Under a role that is not restricted they are the statements of theory \<open>Chunk_Db\<close>.\<close>

lemma statements_bypass:
  assumes "ss_bypass S"
  shows "delete_rows_in S = delete_rows" "insert_row_in S = insert_row"
  using assms by (auto simp: fun_eq_iff delete_rows_in_def delete_rows_def insert_row_in_def sees_bypass)

text \<open>
  Without a client, every insert of the daemon is refused, and its deletions report success and leave every
  row where it is.
\<close>

lemma statements_no_client:
  assumes "no_client S"
  shows "delete_rows_in S item rows = rows" "\<exists>e. insert_row_in S cast_ok r rows = Inl e"
  using assms by (simp_all add: delete_rows_in_def insert_row_in_def sees_no_client)

end
