(* ===== verification/Key_Rotation.thy ===== *)
theory Key_Rotation
  imports Crypto Row_Security Connector
begin

text \<open>
  The key-rotation tool, \<open>tools/key-rotation/src/{main,db,embed}.rs\<close>: every non-null
  \<open>encrypted_content\<close> is decrypted with the old key and encrypted with the new one, in transactions
  of \<open>--batch-size\<close> rows, rows already under the new key being skipped.

  \<open>kr_env\<close> is the environment: the AEAD and hex parameters of theory \<open>Crypto\<close>, and for the tick
  of each external action whether the database fails it (\<open>ke_fails\<close>), the IV the random source
  fills (\<open>ke_iv\<close>) and what the embedding service answers to a request (\<open>ke_tei\<close>); and the session of the
  connection (\<open>ke_session\<close>), since every statement works on the rows that the row-level security of the table
  lets it see (theory \<open>Row_Security\<close>; the tool connects with \<open>--database-url\<close> and sets no \<open>app.\<close> variable). The loop
  \<open>rotate_loop\<close> carries the committed table and the counters (\<open>rot\<close>); a transaction is the same
  record worked on by \<open>rotate_rows\<close> and kept only by a commit. \<open>rotate_loop\<close> terminates for every
  environment: no statement of it changes which rows are pending. Here the tool has the table to itself;
  theory \<open>Rotation_Live\<close> has it share the table.
\<close>

record kr_embed_request =
  kq_model :: string
  kq_input :: string

record 'f kr_embed_data =
  kd_embedding :: "'f list"

record 'f kr_embed_response =
  kp_data :: "'f kr_embed_data list"

text \<open>The POST fails, or a status, the text \<open>error_for_status\<close> makes of it, and the decoded body or its error.\<close>

datatype 'f kr_embed_answer = KrEmbedFails string | KrEmbedAnswer nat string "string + 'f kr_embed_response"

record 'f kr_env =
  ke_aead :: aead
  ke_hex :: "string \<Rightarrow> anyhow + bytes"
  ke_fails :: "nat \<Rightarrow> bool"
  ke_iv :: "nat \<Rightarrow> bytes option"
  ke_tei :: "nat \<Rightarrow> string \<Rightarrow> kr_embed_request \<Rightarrow> 'f kr_embed_answer"
  ke_cast_ok :: "string \<Rightarrow> bool"
  ke_show :: "'f \<Rightarrow> string"
  ke_session :: db_session

section \<open>db.rs\<close>

record kr_chunk =
  ck_id :: uuid
  ck_encrypted_content :: bytes

definition count_pending :: "db_session \<Rightarrow> table \<Rightarrow> nat" where
  "count_pending S rows = length (filter (\<lambda>r. dc_encrypted_content r \<noteq> None) (visible S rows))"

definition pending :: "db_session \<Rightarrow> table \<Rightarrow> doc_chunk list" where
  "pending S rows = sort_key dc_id (filter (\<lambda>r. dc_encrypted_content r \<noteq> None) (visible S rows))"

definition to_chunk :: "doc_chunk \<Rightarrow> kr_chunk" where
  "to_chunk r = \<lparr>ck_id = dc_id r, ck_encrypted_content = the (dc_encrypted_content r)\<rparr>"

definition fetch_batch :: "db_session \<Rightarrow> table \<Rightarrow> nat \<Rightarrow> int \<Rightarrow> anyhow + kr_chunk list" where
  "fetch_batch S rows offset limit =
     (if limit < 0 then Inl ''LIMIT must not be negative''
      else Inr (map to_chunk (take (nat limit) (drop offset (pending S rows)))))"

definition update_content :: "db_session \<Rightarrow> uuid \<Rightarrow> bytes \<Rightarrow> table \<Rightarrow> table" where
  "update_content S i w rows =
     map (\<lambda>r. if dc_id r = i \<and> sees S r then r\<lparr>dc_encrypted_content := Some w\<rparr> else r) rows"

definition kr_format_vector :: "('f \<Rightarrow> string) \<Rightarrow> 'f list \<Rightarrow> string" where
  "kr_format_vector shw v = ''['' @ join_comma (map shw v) @ '']''"

definition update_content_and_embedding :: "'f kr_env \<Rightarrow> uuid \<Rightarrow> bytes \<Rightarrow> 'f list \<Rightarrow> table \<Rightarrow>
    anyhow + table" where
  "update_content_and_embedding E i w emb rows =
     (let lit = kr_format_vector (ke_show E) emb in
      if \<not> ke_cast_ok E lit then Inl ''invalid vector''
      else Inr (map (\<lambda>r. if dc_id r = i \<and> sees (ke_session E) r
                         then r\<lparr>dc_encrypted_content := Some w, dc_embedding := Some lit\<rparr> else r) rows))"

section \<open>embed.rs\<close>

record embed_client =
  ec_base_url :: string

definition kr_embed_new :: "string \<Rightarrow> embed_client" where
  "kr_embed_new base_url = \<lparr>ec_base_url = trim_end_char (CHR ''/'') base_url\<rparr>"

definition kr_embed :: "'f kr_env \<Rightarrow> embed_client \<Rightarrow> nat \<Rightarrow> string \<Rightarrow> anyhow + 'f list" where
  "kr_embed E client t txt =
     (case ke_tei E t (ec_base_url client @ ''/v1/embeddings'')
             \<lparr>kq_model = ''nomic-embed-text-v1.5'', kq_input = txt\<rparr> of
        KrEmbedFails e \<Rightarrow> Inl e
      | KrEmbedAnswer status status_error body \<Rightarrow>
          if is_error_status status then Inl status_error
          else and_then body (\<lambda>resp.
            case kp_data resp of
              [] \<Rightarrow> Inl ''TEI returned empty data array''
            | d # _ \<Rightarrow> Inr (kd_embedding d)))"

section \<open>main.rs: one row, one batch\<close>

record rot =
  rt_rows :: table
  rt_tick :: nat
  rt_rotated :: nat
  rt_skipped :: nat

definition show_uuid :: "uuid \<Rightarrow> string" where
  "show_uuid u =
     (let ds = map (\<lambda>k. hex_digit (unat u div 16 ^ (31 - k) mod 16)) [0..<32] in
      take 8 ds @ ''-'' @ slice 8 12 ds @ ''-'' @ slice 12 16 ds @ ''-'' @ slice 16 20 ds @ ''-'' @
      drop 20 ds)"

text \<open>Write a re-encrypted row back, with a new embedding when \<open>--reembed\<close> gave a client.\<close>

definition write_back :: "'f kr_env \<Rightarrow> embed_client option \<Rightarrow> kr_chunk \<Rightarrow> bytes \<Rightarrow> bytes \<Rightarrow> rot \<Rightarrow> anyhow + rot" where
  "write_back E client c plain new_enc s =
     (let t = rt_tick s in
      case client of
        Some cl \<Rightarrow>
          and_then (kr_embed E cl (t + 1) (from_utf8_lossy plain)) (\<lambda>emb.
            if ke_fails E (t + 2) then Inl ''database error''
            else and_then (update_content_and_embedding E (ck_id c) new_enc emb (rt_rows s)) (\<lambda>rows.
              Inr (s\<lparr>rt_rows := rows, rt_tick := t + 3, rt_rotated := Suc (rt_rotated s)\<rparr>)))
      | None \<Rightarrow>
          if ke_fails E (t + 1) then Inl ''database error''
          else Inr (s\<lparr>rt_rows := update_content (ke_session E) (ck_id c) new_enc (rt_rows s), rt_tick := t + 2,
                      rt_rotated := Suc (rt_rotated s)\<rparr>))"

definition rotate_row :: "'f kr_env \<Rightarrow> bytes \<Rightarrow> bytes \<Rightarrow> embed_client option \<Rightarrow> kr_chunk \<Rightarrow> rot \<Rightarrow> anyhow + rot" where
  "rotate_row E old_key new_key client c s =
     (case kr_decrypt (ke_aead E) old_key (ck_encrypted_content c) of
        Inl _ \<Rightarrow>
          (case kr_decrypt (ke_aead E) new_key (ck_encrypted_content c) of
             Inr _ \<Rightarrow> Inr (s\<lparr>rt_skipped := Suc (rt_skipped s)\<rparr>)
           | Inl _ \<Rightarrow> Inl (''Row '' @ show_uuid (ck_id c) @ '' cannot be decrypted with either key '' @
               em_dash @ '' data may be corrupted or a third key is in use''))
      | Inr plain \<Rightarrow>
          and_then (kr_encrypt (ke_aead E) (ke_iv E (rt_tick s)) new_key plain)
            (\<lambda>new_enc. write_back E client c plain new_enc s))"

fun rotate_rows :: "'f kr_env \<Rightarrow> bytes \<Rightarrow> bytes \<Rightarrow> embed_client option \<Rightarrow> kr_chunk list \<Rightarrow> rot \<Rightarrow> anyhow + rot" where
  "rotate_rows E old_key new_key client [] s = Inr s"
| "rotate_rows E old_key new_key client (c # cs) s =
     and_then (rotate_row E old_key new_key client c s) (rotate_rows E old_key new_key client cs)"

section \<open>main.rs: the loop and the command\<close>

lemma rotate_row_length:
  "rotate_row E old new re c s = Inr s' \<Longrightarrow> length (rt_rows s') = length (rt_rows s)"
  by (auto simp: rotate_row_def write_back_def update_content_def update_content_and_embedding_def
      Let_def split: sum.splits if_splits option.splits)

lemma rotate_rows_length:
  "rotate_rows E old new re cs s = Inr s' \<Longrightarrow> length (rt_rows s') = length (rt_rows s)"
  by (induction cs arbitrary: s) (auto dest: rotate_row_length)

lemma length_pending: "length (pending S rows) \<le> length rows"
  by (simp add: pending_def visible_def)

text \<open>
  The loop, from an offset, over the committed state: fetch a batch, stop on an empty one, open a
  transaction, rotate the rows in it, commit, go on behind the batch. Every \<open>?\<close> of the code ends it
  with the table as last committed.
\<close>

function rotate_loop :: "'f kr_env \<Rightarrow> bytes \<Rightarrow> bytes \<Rightarrow> embed_client option \<Rightarrow> int \<Rightarrow> nat \<Rightarrow> rot \<Rightarrow>
    (anyhow + nat \<times> nat) \<times> table" where
  "rotate_loop E old_key new_key client batch_size offset s =
     (if ke_fails E (rt_tick s) then (Inl ''database error'', rt_rows s)
      else case fetch_batch (ke_session E) (rt_rows s) offset batch_size of
        Inl e \<Rightarrow> (Inl e, rt_rows s)
      | Inr batch \<Rightarrow>
          if batch = [] then (Inr (rt_rotated s, rt_skipped s), rt_rows s)
          else if ke_fails E (rt_tick s + 1) then (Inl ''database error'', rt_rows s)
          else case rotate_rows E old_key new_key client batch (s\<lparr>rt_tick := rt_tick s + 2\<rparr>) of
            Inl e \<Rightarrow> (Inl e, rt_rows s)
          | Inr tx \<Rightarrow>
              if ke_fails E (rt_tick tx) then (Inl ''database error'', rt_rows s)
              else rotate_loop E old_key new_key client batch_size (offset + length batch)
                     (tx\<lparr>rt_tick := rt_tick tx + 1\<rparr>))"
  by pat_completeness auto
termination
proof (relation "measure (\<lambda>(E, old, new, re, bs, offset, s). length (rt_rows s) - offset)", goal_cases)
  case (2 E old new re bs offset s batch tx)
  have "offset < length (rt_rows s)"
    using 2 length_pending [of "ke_session E" "rt_rows s"] by (auto simp: fetch_batch_def split: if_splits)
  moreover have "length (rt_rows tx) = length (rt_rows s)"
    using rotate_rows_length [OF 2(5)] by simp
  ultimately show ?case using 2(3) by (cases batch) simp_all
qed simp

declare rotate_loop.simps [simp del]

record kr_args =
  ka_old_key :: string
  ka_new_key :: string
  ka_dry_run :: bool
  ka_reembed :: bool
  ka_tei_base_url :: string
  ka_batch_size :: int

datatype kr_outcome = DryRun nat | Complete nat nat nat

definition kr_main :: "'f kr_env \<Rightarrow> kr_args \<Rightarrow> table \<Rightarrow> (anyhow + kr_outcome) \<times> table" where
  "kr_main E args rows =
     (case kr_parse_key (ke_hex E) (ka_old_key args) of
        Inl _ \<Rightarrow> (Inl ''--old-key / $OLD_KEY is not a valid 64-char hex string'', rows)
      | Inr old_key \<Rightarrow>
     (case kr_parse_key (ke_hex E) (ka_new_key args) of
        Inl _ \<Rightarrow> (Inl ''--new-key / $NEW_KEY is not a valid 64-char hex string'', rows)
      | Inr new_key \<Rightarrow>
          if old_key = new_key
          then (Inl (''--old-key and --new-key are identical '' @ em_dash @ '' rotation would be a no-op''), rows)
          else if ke_fails E 0 then (Inl ''failed to connect to database'', rows)
          else if ke_fails E 1 then (Inl ''database error'', rows)
          else let total = count_pending (ke_session E) rows in
            if ka_dry_run args then (Inr (DryRun total), rows)
            else (case rotate_loop E old_key new_key (if ka_reembed args then Some (kr_embed_new (ka_tei_base_url args)) else None)
                     (ka_batch_size args) 0
                     \<lparr>rt_rows = rows, rt_tick = 2, rt_rotated = 0, rt_skipped = 0\<rparr> of
                    (Inl e, rows') \<Rightarrow> (Inl e, rows')
                  | (Inr (rotated, skipped), rows') \<Rightarrow> (Inr (Complete total rotated skipped), rows'))))"

section \<open>What a run may do to the table\<close>

text \<open>The plaintext of a wire value: under the old key, else under the new one.\<close>

definition plain_of :: "aead \<Rightarrow> bytes \<Rightarrow> bytes \<Rightarrow> bytes \<Rightarrow> bytes option" where
  "plain_of A old new w =
     (case kr_decrypt A old w of
        Inr m \<Rightarrow> Some m
      | Inl _ \<Rightarrow> (case kr_decrypt A new w of Inr m \<Rightarrow> Some m | Inl _ \<Rightarrow> None))"

text \<open>
  The environment hypotheses: the AEAD laws, a 12-byte IV whenever the random source delivers, and
  authentication: what was sealed under the new key does not open under the old one.
\<close>

definition kr_env_ok :: "'f kr_env \<Rightarrow> bytes \<Rightarrow> bytes \<Rightarrow> bool" where
  "kr_env_ok E old new \<longleftrightarrow>
     aead_laws (ke_aead E) \<and>
     (\<forall>t iv. ke_iv E t = Some iv \<longrightarrow> length iv = 12) \<and>
     (\<forall>iv m c. length iv = 12 \<longrightarrow> aead_seal (ke_aead E) new iv m = Some c \<longrightarrow>
        aead_open (ke_aead E) old iv c = None)"

text \<open>A content column is untouched, or moved to the new key with its plaintext kept.\<close>

definition moved :: "aead \<Rightarrow> bytes \<Rightarrow> bytes \<Rightarrow> bytes option \<Rightarrow> bytes option \<Rightarrow> bool" where
  "moved A old new c c' \<longleftrightarrow> c' = c \<or>
     (\<exists>w w' m. c = Some w \<and> c' = Some w' \<and> plain_of A old new w = Some m \<and>
        kr_decrypt A new w' = Inr m \<and> plain_of A old new w' = Some m)"

text \<open>What no statement of the tool writes.\<close>

definition row_place :: "doc_chunk \<Rightarrow> uuid \<times> string \<times> string \<times> u32 \<times> string option \<times> uuid" where
  "row_place r = (dc_id r, dc_doc_name r, dc_classification r, dc_chunk_index r, dc_source_item_id r, dc_workspace_id r)"

lemma row_place_sees: "row_place r = row_place r' \<Longrightarrow> sees S r = sees S r'"
  by (simp add: row_place_def sees_def in_workspace_def)

lemma row_place_id: "row_place r = row_place r' \<Longrightarrow> dc_id r = dc_id r'"
  by (simp add: row_place_def)

definition evolves :: "aead \<Rightarrow> bytes \<Rightarrow> bytes \<Rightarrow> table \<Rightarrow> table \<Rightarrow> bool" where
  "evolves A old new rows rows' \<longleftrightarrow>
     list_all2 (\<lambda>r r'. row_place r' = row_place r \<and>
       moved A old new (dc_encrypted_content r) (dc_encrypted_content r')) rows rows'"

definition plain_view :: "aead \<Rightarrow> bytes \<Rightarrow> bytes \<Rightarrow> table \<Rightarrow> 
    ((uuid \<times> string \<times> string \<times> u32 \<times> string option \<times> uuid) \<times> bytes option option) list" where
  "plain_view A old new rows =
     map (\<lambda>r. (row_place r, map_option (plain_of A old new) (dc_encrypted_content r))) rows"

lemma moved_refl [simp]: "moved A old new c c"
  by (simp add: moved_def)

lemma moved_trans: "moved A old new c c' \<Longrightarrow> moved A old new c' c'' \<Longrightarrow> moved A old new c c''"
  unfolding moved_def by auto

lemma moved_None: "moved A old new c c' \<Longrightarrow> c' = None \<longleftrightarrow> c = None"
  unfolding moved_def by auto

lemma moved_view: "moved A old new c c' \<Longrightarrow> map_option (plain_of A old new) c' = map_option (plain_of A old new) c"
  unfolding moved_def by auto

lemma evolves_refl [simp]: "evolves A old new rows rows"
  by (simp add: evolves_def list_all2_same)

lemma evolves_trans: "evolves A old new r1 r2 \<Longrightarrow> evolves A old new r2 r3 \<Longrightarrow> evolves A old new r1 r3"
  unfolding evolves_def list_all2_conv_all_nth by (metis moved_trans)

lemma evolves_ids: "evolves A old new rows rows' \<Longrightarrow> map dc_id rows' = map dc_id rows"
  unfolding evolves_def by (induction rule: list_all2_induct) (auto dest: row_place_id)

lemma evolves_view:
  "evolves A old new rows rows' \<Longrightarrow> plain_view A old new rows' = plain_view A old new rows"
  unfolding evolves_def plain_view_def by (induction rule: list_all2_induct) (auto simp: moved_view)

lemma insort_key_map: "map f (insort_key f x xs) = insort (f x) (map f xs)"
  by (induction xs) auto

lemma sort_key_map_ids: "map f (sort_key f xs) = sort (map f xs)"
  by (induction xs) (simp_all add: insort_key_map)

lemma evolves_pending_ids:
  assumes "evolves A old new rows rows'"
  shows "map dc_id (pending S rows') = map dc_id (pending S rows)"
proof -
  have "map dc_id (filter (\<lambda>r. dc_encrypted_content r \<noteq> None) (visible S rows')) =
      map dc_id (filter (\<lambda>r. dc_encrypted_content r \<noteq> None) (visible S rows))"
    using assms unfolding evolves_def visible_def
    by (induction rule: list_all2_induct) (auto dest: moved_None row_place_id row_place_sees)
  then show ?thesis by (simp add: pending_def sort_key_map_ids)
qed

lemma evolves_mem:
  assumes "evolves A old new rows rows'" and "r' \<in> set rows'"
  shows "\<exists>r \<in> set rows. row_place r' = row_place r \<and>
     moved A old new (dc_encrypted_content r) (dc_encrypted_content r')"
  using assms unfolding evolves_def by (induction rule: list_all2_induct) auto

lemma plain_of_new:
  assumes "kr_env_ok E old new" and "length iv = 12" and "kr_encrypt (ke_aead E) (Some iv) new m = Inr w"
  shows "kr_decrypt (ke_aead E) new w = Inr m \<and> plain_of (ke_aead E) old new w = Some m"
proof -
  let ?A = "ke_aead E"
  have laws: "aead_laws ?A" using assms(1) by (simp add: kr_env_ok_def)
  have n: "kr_decrypt ?A new w = Inr m" by (rule rot.dec_enc [OF laws assms(2,3)])
  obtain c where c: "aead_seal ?A new iv m = Some c" "w = iv @ c"
    using assms(3) by (auto simp: kr_encrypt_eq encrypt_Inr)
  then have "aead_open ?A old iv c = None"
    using assms(1,2) unfolding kr_env_ok_def by blast
  then have "kr_decrypt ?A old w \<noteq> Inr m'" for m'
    using c assms(2) by (auto simp: kr_decrypt_Inr)
  then have "\<exists>e. kr_decrypt ?A old w = Inl e" by (cases "kr_decrypt ?A old w") auto
  with n show ?thesis by (auto simp: plain_of_def)
qed

section \<open>One row, one batch: proofs\<close>

definition new_readable :: "aead \<Rightarrow> bytes \<Rightarrow> bytes option \<Rightarrow> bool" where
  "new_readable A new c \<longleftrightarrow> (\<exists>w m. c = Some w \<and> kr_decrypt A new w = Inr m)"

definition old_readable :: "aead \<Rightarrow> bytes \<Rightarrow> bytes \<Rightarrow> bool" where
  "old_readable A old w \<longleftrightarrow> (\<exists>m. kr_decrypt A old w = Inr m)"

text \<open>What a rewrite of one row changes: the row with that id, its content and embedding.\<close>

definition sets_row :: "db_session \<Rightarrow> uuid \<Rightarrow> bytes \<Rightarrow> table \<Rightarrow> table \<Rightarrow> bool" where
  "sets_row S i w rows rows' \<longleftrightarrow>
     list_all2 (\<lambda>r r'. row_place r' = row_place r \<and>
       (if dc_id r = i \<and> sees S r then dc_encrypted_content r' = Some w else r' = r)) rows rows'"

lemma sets_row_map:
  "(\<And>r. row_place (f r) = row_place r) \<Longrightarrow> (\<And>r. dc_encrypted_content (f r) = Some w) \<Longrightarrow>
     sets_row S i w rows (map (\<lambda>r. if dc_id r = i \<and> sees S r then f r else r) rows)"
  by (simp add: sets_row_def list_all2_conv_all_nth)

lemma sets_row_mem:
  "sets_row S i w rows rows' \<Longrightarrow> q \<in> set rows' \<Longrightarrow> \<exists>r \<in> set rows. row_place q = row_place r \<and>
     (if dc_id r = i \<and> sees S r then dc_encrypted_content q = Some w else q = r)"
  unfolding sets_row_def list_all2_conv_all_nth by (metis in_set_conv_nth)

lemma write_back_sets_row:
  assumes "write_back E re c plain w s = Inr s'"
  shows "sets_row (ke_session E) (ck_id c) w (rt_rows s) (rt_rows s') \<and> rt_rotated s' = Suc (rt_rotated s) \<and>
     rt_skipped s' = rt_skipped s"
proof (cases re)
  case (Some cl)
  with assms obtain emb where "update_content_and_embedding E (ck_id c) w emb (rt_rows s) = Inr (rt_rows s')"
    and "rt_rotated s' = Suc (rt_rotated s)" "rt_skipped s' = rt_skipped s"
    by (auto simp: write_back_def Let_def split: if_splits)
  moreover from this(1) have "rt_rows s' = map (\<lambda>r. if dc_id r = ck_id c \<and> sees (ke_session E) r
      then r\<lparr>dc_encrypted_content := Some w,
             dc_embedding := Some (kr_format_vector (ke_show E) emb)\<rparr> else r) (rt_rows s)"
    by (auto simp: update_content_and_embedding_def Let_def split: if_splits)
  ultimately show ?thesis by (simp add: sets_row_map row_place_def)
next
  case None
  with assms show ?thesis
    by (auto simp: write_back_def Let_def update_content_def row_place_def intro!: sets_row_map split: if_splits)
qed

lemma sets_row_evolves:
  assumes "sets_row S i w' rows rows'" and "distinct (map dc_id rows)" and "r \<in> set rows"
    and "dc_id r = i" and "moved A old new (dc_encrypted_content r) (Some w')"
  shows "evolves A old new rows rows'"
proof -
  have uniq: "q = r" if "q \<in> set rows" "dc_id q = i" for q
    using that assms(2-4) by (metis distinct_map inj_onD)
  show ?thesis
    using assms(1,5) uniq unfolding evolves_def sets_row_def list_all2_conv_all_nth
    by (metis moved_refl nth_mem)
qed

text \<open>The rows a chunk of a batch refers to.\<close>

definition refers :: "db_session \<Rightarrow> kr_chunk \<Rightarrow> table \<Rightarrow> bool" where
  "refers S c rows \<longleftrightarrow>
     (\<exists>r \<in> set rows. dc_id r = ck_id c \<and> dc_encrypted_content r = Some (ck_encrypted_content c) \<and> sees S r)"

definition advanced :: "aead \<Rightarrow> bytes \<Rightarrow> kr_chunk list \<Rightarrow> rot \<Rightarrow> rot \<Rightarrow> bool" where
  "advanced A old cs s s' \<longleftrightarrow>
     rt_rotated s' = rt_rotated s + length (filter (\<lambda>c. old_readable A old (ck_encrypted_content c)) cs) \<and>
     rt_rotated s' + rt_skipped s' = rt_rotated s + rt_skipped s + length cs"

lemma rotate_row_step:
  assumes env: "kr_env_ok E old new" and d: "distinct (map dc_id (rt_rows s))"
    and c: "refers (ke_session E) c (rt_rows s)"
    and run: "rotate_row E old new re c s = Inr s'"
  shows "evolves (ke_aead E) old new (rt_rows s) (rt_rows s') \<and>
     (\<forall>r \<in> set (rt_rows s'). dc_id r = ck_id c \<longrightarrow> new_readable (ke_aead E) new (dc_encrypted_content r)) \<and>
     (\<forall>r \<in> set (rt_rows s). dc_id r \<noteq> ck_id c \<longrightarrow> r \<in> set (rt_rows s')) \<and>
     advanced (ke_aead E) old [c] s s'"
proof -
  let ?A = "ke_aead E" and ?w = "ck_encrypted_content c"
  obtain r where r: "r \<in> set (rt_rows s)" "dc_id r = ck_id c" "dc_encrypted_content r = Some ?w"
    "sees (ke_session E) r"
    using c by (auto simp: refers_def)
  have uniq: "q = r" if "q \<in> set (rt_rows s)" "dc_id q = ck_id c" for q
    using that d r by (metis distinct_map inj_onD)
  show ?thesis
  proof (cases "kr_decrypt ?A old ?w")
    case (Inl e)
    with run obtain m where m: "kr_decrypt ?A new ?w = Inr m"
      and s': "s' = s\<lparr>rt_skipped := Suc (rt_skipped s)\<rparr>"
      by (auto simp: rotate_row_def split: sum.splits)
    have "new_readable ?A new (dc_encrypted_content q)"
      if "q \<in> set (rt_rows s')" "dc_id q = ck_id c" for q
      using that uniq r m s' by (auto simp: new_readable_def)
    moreover have "\<not> old_readable ?A old ?w" using Inl by (simp add: old_readable_def)
    ultimately show ?thesis using s' by (auto simp: advanced_def)
  next
    case (Inr m)
    with run obtain w' where w': "kr_encrypt ?A (ke_iv E (rt_tick s)) new m = Inr w'"
      and wb: "write_back E re c m w' s = Inr s'"
      by (auto simp: rotate_row_def)
    obtain iv where iv: "ke_iv E (rt_tick s) = Some iv"
      using w' by (auto simp: kr_encrypt_eq encrypt_Inr)
    then have "length iv = 12" using env by (simp add: kr_env_ok_def)
    from plain_of_new [OF env this] w' iv
    have pn: "kr_decrypt ?A new w' = Inr m" "plain_of ?A old new w' = Some m" by auto
    have mv: "moved ?A old new (dc_encrypted_content r) (Some w')"
      using Inr pn r(3) by (auto simp: moved_def plain_of_def)
    note rw = write_back_sets_row [OF wb]
    have ev: "evolves ?A old new (rt_rows s) (rt_rows s')"
      using sets_row_evolves [OF _ d r(1,2) mv] rw by blast
    have "dc_encrypted_content q = Some w'" if q: "q \<in> set (rt_rows s')" "dc_id q = ck_id c" for q
    proof -
      from sets_row_mem [OF conjunct1 [OF rw] q(1)] obtain q0 where "q0 \<in> set (rt_rows s)" "row_place q = row_place q0"
        and q0: "if dc_id q0 = ck_id c \<and> sees (ke_session E) q0 then dc_encrypted_content q = Some w' else q = q0" by blast
      moreover from this q(2) have "q0 = r" using uniq row_place_id by metis
      ultimately show ?thesis using r by simp
    qed
    then have new: "new_readable ?A new (dc_encrypted_content q)"
      if "q \<in> set (rt_rows s')" "dc_id q = ck_id c" for q
      using that pn(1) by (auto simp: new_readable_def)
    have keep: "q \<in> set (rt_rows s')" if "q \<in> set (rt_rows s)" "dc_id q \<noteq> ck_id c" for q
      using rw that unfolding sets_row_def list_all2_conv_all_nth by (metis in_set_conv_nth)
    have "old_readable ?A old ?w" using Inr by (simp add: old_readable_def)
    then have "advanced ?A old [c] s s'" using rw by (simp add: advanced_def)
    with ev new keep show ?thesis by blast
  qed
qed

lemma refers_other:
  assumes "refers S c rows" and "ck_id c \<noteq> ck_id c'"
    and "\<forall>r \<in> set rows. dc_id r \<noteq> ck_id c' \<longrightarrow> r \<in> set rows'"
  shows "refers S c rows'"
  using assms by (force simp: refers_def)

lemma new_readable_stays:
  assumes "evolves A old new rows rows'"
    and "\<forall>r \<in> set rows. dc_id r = i \<longrightarrow> new_readable A new (dc_encrypted_content r)"
  shows "\<forall>r \<in> set rows'. dc_id r = i \<longrightarrow> new_readable A new (dc_encrypted_content r)"
  using evolves_mem [OF assms(1)] assms(2) by (fastforce simp: moved_def new_readable_def dest: row_place_id)

lemma advanced_Cons:
  "advanced A old [c] s s1 \<Longrightarrow> advanced A old cs s1 s' \<Longrightarrow> advanced A old (c # cs) s s'"
  by (auto simp: advanced_def split: if_splits)

lemma rotate_rows_batch:
  assumes env: "kr_env_ok E old new" and "distinct (map dc_id (rt_rows s))"
    and "distinct (map ck_id cs)" and "\<forall>c \<in> set cs. refers (ke_session E) c (rt_rows s)"
    and "rotate_rows E old new re cs s = Inr s'"
  shows "evolves (ke_aead E) old new (rt_rows s) (rt_rows s') \<and>
     (\<forall>c \<in> set cs. \<forall>r \<in> set (rt_rows s'). dc_id r = ck_id c \<longrightarrow>
        new_readable (ke_aead E) new (dc_encrypted_content r)) \<and>
     (\<forall>r \<in> set (rt_rows s). dc_id r \<notin> ck_id ` set cs \<longrightarrow> r \<in> set (rt_rows s')) \<and>
     advanced (ke_aead E) old cs s s'"
  using assms(2-5)
proof (induction cs arbitrary: s)
  case Nil
  then show ?case by (simp add: advanced_def)
next
  case (Cons c cs)
  from Cons.prems(4) obtain s1 where s1: "rotate_row E old new re c s = Inr s1"
    and rest: "rotate_rows E old new re cs s1 = Inr s'" by auto
  have c: "refers (ke_session E) c (rt_rows s)" using Cons.prems(3) by simp
  note st = rotate_row_step [OF env Cons.prems(1) c s1]
  have d: "distinct (map dc_id (rt_rows s1))" using st evolves_ids Cons.prems(1) by metis
  have others: "\<forall>c' \<in> set cs. refers (ke_session E) c' (rt_rows s1)"
  proof
    fix c' assume mem: "c' \<in> set cs"
    with Cons.prems(2) have ne: "ck_id c' \<noteq> ck_id c" by (auto simp: image_iff)
    have "refers (ke_session E) c' (rt_rows s)" using mem Cons.prems(3) by simp
    then show "refers (ke_session E) c' (rt_rows s1)" by (rule refers_other [OF _ ne]) (use st in blast)
  qed
  have "distinct (map ck_id cs)" using Cons.prems(2) by simp
  note ih = Cons.IH [OF d this others rest]
  have "\<forall>r \<in> set (rt_rows s'). dc_id r = ck_id c \<longrightarrow> new_readable (ke_aead E) new (dc_encrypted_content r)"
    using new_readable_stays ih st by blast
  then have "\<forall>c' \<in> set (c # cs). \<forall>r \<in> set (rt_rows s'). dc_id r = ck_id c' \<longrightarrow>
      new_readable (ke_aead E) new (dc_encrypted_content r)"
    using ih by simp
  moreover have "\<forall>r \<in> set (rt_rows s). dc_id r \<notin> ck_id ` set (c # cs) \<longrightarrow> r \<in> set (rt_rows s')"
    using st ih by simp
  moreover have "evolves (ke_aead E) old new (rt_rows s) (rt_rows s')"
    using st ih evolves_trans by metis
  moreover have "advanced (ke_aead E) old (c # cs) s s'" using st ih advanced_Cons by metis
  ultimately show ?case by (intro conjI)
qed

section \<open>The loop: proofs\<close>

lemma set_pending: "set (pending S rows) = {r \<in> set rows. sees S r \<and> dc_encrypted_content r \<noteq> None}"
  by (auto simp: pending_def visible_def)

lemma distinct_pending: "distinct (map dc_id rows) \<Longrightarrow> distinct (map dc_id (pending S rows))"
  by (simp add: pending_def visible_def sort_key_map_ids distinct_map_filter)

lemma to_chunk_refers: "r \<in> set (pending S rows) \<Longrightarrow> refers S (to_chunk r) rows"
  by (force simp: set_pending refers_def to_chunk_def)

lemma ck_id_to_chunk [simp]: "map ck_id (map to_chunk rs) = map dc_id rs"
  by (simp add: to_chunk_def)

lemma batch_refers:
  assumes "distinct (map dc_id rows)"
  shows "distinct (map ck_id (map to_chunk (take n (drop k (pending S rows))))) \<and>
     (\<forall>c \<in> set (map to_chunk (take n (drop k (pending S rows)))). refers S c rows)"
proof -
  have "distinct (take n (drop k (map dc_id (pending S rows))))"
    using distinct_pending [OF assms] by simp
  then show ?thesis
    by (auto simp: take_map drop_map to_chunk_refers simp del: map_map
        dest!: in_set_takeD in_set_dropD)
qed

lemma pending_nth_same:
  assumes "evolves A old new rows rows'" and "distinct (map dc_id rows)"
    and "j < length (pending S rows)" and "dc_id (pending S rows ! j) \<notin> B"
    and "\<forall>r \<in> set rows. dc_id r \<notin> B \<longrightarrow> r \<in> set rows'"
  shows "pending S rows' ! j = pending S rows ! j"
proof -
  have ids: "map dc_id (pending S rows') = map dc_id (pending S rows)"
    by (rule evolves_pending_ids [OF assms(1)])
  then have len: "length (pending S rows') = length (pending S rows)" by (metis length_map)
  have "pending S rows ! j \<in> set rows" using assms(3) nth_mem set_pending by blast
  then have a: "pending S rows ! j \<in> set rows'" using assms(4,5) by blast
  have b: "pending S rows' ! j \<in> set rows'" using assms(3) len nth_mem set_pending by (metis (no_types, lifting) mem_Collect_eq)
  have "dc_id (pending S rows' ! j) = dc_id (pending S rows ! j)"
    using ids assms(3) len by (metis nth_map)
  moreover have "distinct (map dc_id rows')" using evolves_ids [OF assms(1)] assms(2) by simp
  ultimately show ?thesis using a b by (metis distinct_map inj_onD)
qed


definition done_upto :: "db_session \<Rightarrow> aead \<Rightarrow> bytes \<Rightarrow> nat \<Rightarrow> table \<Rightarrow> bool" where
  "done_upto S A new k rows \<longleftrightarrow>
     (\<forall>j < min k (length (pending S rows)). new_readable A new (dc_encrypted_content (pending S rows ! j)))"

definition old_count :: "aead \<Rightarrow> bytes \<Rightarrow> doc_chunk list \<Rightarrow> nat" where
  "old_count A old rs = length (filter (\<lambda>r. old_readable A old (the (dc_encrypted_content r))) rs)"

text \<open>One committed batch: the rows before and in it are under the new key, those behind it as before.\<close>

lemma batch_step:
  assumes env: "kr_env_ok E old new" and d: "distinct (map dc_id (rt_rows s))"
    and run: "rotate_rows E old new re (map to_chunk (take n (drop k (pending (ke_session E) (rt_rows s))))) s = Inr s'"
    and dn: "done_upto (ke_session E) (ke_aead E) new k (rt_rows s)"
  shows "evolves (ke_aead E) old new (rt_rows s) (rt_rows s') \<and>
     done_upto (ke_session E) (ke_aead E) new (k + n) (rt_rows s') \<and>
     drop (k + n) (pending (ke_session E) (rt_rows s')) = drop (k + n) (pending (ke_session E) (rt_rows s)) \<and>
     rt_rotated s' = rt_rotated s + old_count (ke_aead E) old (take n (drop k (pending (ke_session E) (rt_rows s)))) \<and>
     rt_rotated s' + rt_skipped s' =
       rt_rotated s + rt_skipped s + length (take n (drop k (pending (ke_session E) (rt_rows s))))"
proof -
  let ?A = "ke_aead E" and ?p = "pending (ke_session E) (rt_rows s)" and ?p' = "pending (ke_session E) (rt_rows s')"
  let ?b = "take n (drop k ?p)"
  let ?B = "dc_id ` set ?b"
  note br = batch_refers [OF d, of n k]
  note rb = rotate_rows_batch [OF env d conjunct1 [OF br] conjunct2 [OF br] run]
  have ids: "ck_id ` set (map to_chunk ?b) = ?B" by (simp add: image_image to_chunk_def)
  have ev: "evolves ?A old new (rt_rows s) (rt_rows s')" using rb by blast
  have pids: "map dc_id ?p' = map dc_id ?p" by (rule evolves_pending_ids [OF ev])
  then have len: "length ?p' = length ?p" by (metis length_map)
  have same_id: "dc_id (?p' ! j) = dc_id (?p ! j)" if "j < length ?p" for j
    using pids len that by (metis nth_map)
  have in_rows': "?p' ! j \<in> set (rt_rows s')" if "j < length ?p" for j
    using that len nth_mem set_pending by (metis (no_types, lifting) mem_Collect_eq)
  have dp: "distinct (map dc_id ?p)" by (rule distinct_pending [OF d])
  have "new_readable ?A new (dc_encrypted_content (?p' ! j))" if j: "j < k + n" "j < length ?p" for j
  proof (cases "j < k")
    case True
    have "\<forall>r \<in> set (rt_rows s). dc_id r = dc_id (?p ! j) \<longrightarrow> new_readable ?A new (dc_encrypted_content r)"
    proof (intro ballI impI)
      fix r assume r: "r \<in> set (rt_rows s)" "dc_id r = dc_id (?p ! j)"
      have "?p ! j \<in> set (rt_rows s)" using j(2) nth_mem set_pending by blast
      with r d have "r = ?p ! j" by (metis distinct_map inj_onD)
      then show "new_readable ?A new (dc_encrypted_content r)"
        using dn True j(2) by (simp add: done_upto_def)
    qed
    from new_readable_stays [OF ev this] show ?thesis using in_rows' [OF j(2)] same_id [OF j(2)] by simp
  next
    case False
    with j have lt: "j - k < length ?b" by (simp, linarith)
    with False j(2) have "?p ! j = ?b ! (j - k)" by simp
    with lt have "?p ! j \<in> set ?b" by (metis nth_mem)
    then have "to_chunk (?p ! j) \<in> set (map to_chunk ?b)" by simp
    moreover have "dc_id (?p' ! j) = ck_id (to_chunk (?p ! j))"
      using same_id [OF j(2)] by (simp add: to_chunk_def)
    ultimately show ?thesis using rb in_rows' [OF j(2)] by blast
  qed
  then have dn': "done_upto (ke_session E) ?A new (k + n) (rt_rows s')" using len by (simp add: done_upto_def)
  have "?p' ! j = ?p ! j" if j: "k + n \<le> j" "j < length ?p" for j
  proof (rule pending_nth_same [OF ev d j(2)])
    show "\<forall>r \<in> set (rt_rows s). dc_id r \<notin> ?B \<longrightarrow> r \<in> set (rt_rows s')" using rb ids by simp
    have "dc_id (?p ! j) = drop (k + n) (map dc_id ?p) ! (j - (k + n))" using j by simp
    then have "dc_id (?p ! j) \<in> set (drop (k + n) (map dc_id ?p))"
      using j by (metis (no_types, lifting) diff_less_mono length_drop length_map nth_mem)
    moreover have "?B \<subseteq> set (take (k + n) (map dc_id ?p))"
    proof -
      have "set ?b \<subseteq> set (take (k + n) ?p)" by (metis add.commute set_drop_subset take_drop)
      then show ?thesis by (auto simp: take_map)
    qed
    moreover have "set (take (k + n) (map dc_id ?p)) \<inter> set (drop (k + n) (map dc_id ?p)) = {}"
      by (rule set_take_disj_set_drop_if_distinct [OF dp]) simp
    ultimately show "dc_id (?p ! j) \<notin> ?B" by blast
  qed
  then have "drop (k + n) ?p' = drop (k + n) ?p"
    using len by (intro nth_equalityI) auto
  moreover have "filter (\<lambda>c. old_readable ?A old (ck_encrypted_content c)) (map to_chunk ?b) =
      map to_chunk (filter (\<lambda>r. old_readable ?A old (the (dc_encrypted_content r))) ?b)"
    by (simp add: filter_map o_def to_chunk_def)
  ultimately show ?thesis using ev dn' rb by (simp add: advanced_def old_count_def)
qed

text \<open>How one pass through the loop can go.\<close>

lemma rotate_loop_cases:
  obtains (stop) e where "rotate_loop E old new cl bs off s = (Inl e, rt_rows s)"
    | (finished) "fetch_batch (ke_session E) (rt_rows s) off bs = Inr []"
        "rotate_loop E old new cl bs off s = (Inr (rt_rotated s, rt_skipped s), rt_rows s)"
    | (batch) b tx where "b = map to_chunk (take (nat bs) (drop off (pending (ke_session E) (rt_rows s))))"
        "\<not> ke_fails E (rt_tick s)" "fetch_batch (ke_session E) (rt_rows s) off bs = Inr b" "b \<noteq> []"
        "\<not> ke_fails E (rt_tick s + 1)"
        "rotate_rows E old new cl b (s\<lparr>rt_tick := rt_tick s + 2\<rparr>) = Inr tx"
        "\<not> ke_fails E (rt_tick tx)"
        "rotate_loop E old new cl bs off s =
           rotate_loop E old new cl bs (off + length b) (tx\<lparr>rt_tick := rt_tick tx + 1\<rparr>)"
proof -
  note L = rotate_loop.simps [of E old new cl bs off s]
  define b where "b = map to_chunk (take (nat bs) (drop off (pending (ke_session E) (rt_rows s))))"
  show thesis
  proof (cases "ke_fails E (rt_tick s) \<or> bs < 0")
    case True
    then have "\<exists>e. rotate_loop E old new cl bs off s = (Inl e, rt_rows s)"
      by (auto simp: L fetch_batch_def)
    then show ?thesis using that(1) by blast
  next
    case False
    then have fb: "fetch_batch (ke_session E) (rt_rows s) off bs = Inr b" by (simp add: fetch_batch_def b_def)
    show ?thesis
    proof (cases "b = []")
      case True
      then show ?thesis using False fb that(2) by (simp add: L)
    next
      case ne: False
      show ?thesis
      proof (cases "rotate_rows E old new cl b (s\<lparr>rt_tick := rt_tick s + 2\<rparr>)")
        case (Inl e)
        then have "\<exists>e. rotate_loop E old new cl bs off s = (Inl e, rt_rows s)"
          using False fb ne by (simp add: L)
        then show ?thesis using that(1) by blast
      next
        case (Inr tx)
        show ?thesis
        proof (cases "ke_fails E (rt_tick s + 1) \<or> ke_fails E (rt_tick tx)")
          case True
          then have "\<exists>e. rotate_loop E old new cl bs off s = (Inl e, rt_rows s)"
            using False fb ne Inr by (auto simp: L)
          then show ?thesis using that(1) by blast
        next
          case nf: False
          have "rotate_loop E old new cl bs off s =
              rotate_loop E old new cl bs (off + length b) (tx\<lparr>rt_tick := rt_tick tx + 1\<rparr>)"
            using False nf fb ne Inr by (simp add: L)
          then show ?thesis using that(3) [OF b_def _ fb ne _ Inr] False nf by blast
        qed
      qed
    qed
  qed
qed

lemma rotate_loop_result:
  assumes "kr_env_ok E old new" and "distinct (map dc_id (rt_rows s))"
    and "done_upto (ke_session E) (ke_aead E) new off (rt_rows s)"
  shows "evolves (ke_aead E) old new (rt_rows s) (snd (rotate_loop E old new re bs off s)) \<and>
     (\<forall>r k. fst (rotate_loop E old new re bs off s) = Inr (r, k) \<longrightarrow> 0 < bs \<longrightarrow>
        done_upto (ke_session E) (ke_aead E) new (length (rt_rows s)) (snd (rotate_loop E old new re bs off s)) \<and>
        r = rt_rotated s + old_count (ke_aead E) old (drop off (pending (ke_session E) (rt_rows s))) \<and>
        r + k = rt_rotated s + rt_skipped s + (length (pending (ke_session E) (rt_rows s)) - off))"
  using assms
proof (induction E old new re bs off s rule: rotate_loop.induct)
  case (1 E old new re bs off s)
  let ?L = "rotate_loop E old new re bs off s" and ?p = "pending (ke_session E) (rt_rows s)" and ?A = "ke_aead E"
  let ?s0 = "s\<lparr>rt_tick := rt_tick s + 2\<rparr>"
  show ?case
  proof (cases rule: rotate_loop_cases [of E old new re bs off s])
    case stop
    then show ?thesis by simp
  next
    case finished
    have "length ?p \<le> off" if "0 < bs"
      using finished(1) that by (simp add: fetch_batch_def split: if_splits)
    then show ?thesis using finished(2) 1(4) length_pending [of "ke_session E" "rt_rows s"]
      by (auto simp: done_upto_def old_count_def)
  next
    case (batch b tx)
    note b_def = batch(1) and batch = batch(2-8)
    have run: "rotate_rows E old new re (map to_chunk (take (nat bs) (drop off (pending (ke_session E) (rt_rows ?s0))))) ?s0
        = Inr tx"
      using batch(5) by (simp add: b_def)
    have "distinct (map dc_id (rt_rows ?s0))" "done_upto (ke_session E) ?A new off (rt_rows ?s0)" using 1(3,4) by simp_all
    note st = batch_step [OF 1(2) this(1) run this(2)]
    have lb: "length b = length (take (nat bs) (drop off ?p))" by (simp add: b_def)
    have ev: "evolves ?A old new (rt_rows s) (rt_rows tx)" using st by simp
    have lr: "length (rt_rows tx) = length (rt_rows s)"
      using rotate_rows_length [OF batch(5)] by simp
    have lp: "length (pending (ke_session E) (rt_rows tx)) = length ?p"
      using evolves_pending_ids [OF ev] by (metis length_map)
    have d: "distinct (map dc_id (rt_rows (tx\<lparr>rt_tick := rt_tick tx + 1\<rparr>)))"
      using evolves_ids [OF ev] 1(3) by simp
    have dn: "done_upto (ke_session E) ?A new (off + length b) (rt_rows (tx\<lparr>rt_tick := rt_tick tx + 1\<rparr>))"
    proof -
      have "done_upto (ke_session E) ?A new (off + nat bs) (rt_rows tx)" using st by simp
      moreover have "length b \<le> nat bs" using lb by simp
      ultimately show ?thesis by (simp add: done_upto_def)
    qed
    have dropeq: "drop (off + length b) (pending (ke_session E) (rt_rows tx)) = drop (off + length b) ?p"
    proof (cases "nat bs \<le> length ?p - off")
      case True
      then show ?thesis using st lb by simp
    next
      case False
      then show ?thesis using lb lp by simp
    qed
    have split: "drop off ?p = take (nat bs) (drop off ?p) @ drop (off + length b) ?p"
    proof -
      have "take (nat bs) (drop off ?p) = take (length b) (drop off ?p)" using lb by (simp add: min_def)
      moreover have "drop (off + length b) ?p = drop (length b) (drop off ?p)" by (simp add: add.commute)
      ultimately show ?thesis by (metis append_take_drop_id)
    qed
    have cnt: "old_count ?A old (drop off ?p) =
        old_count ?A old (take (nat bs) (drop off ?p)) + old_count ?A old (drop (off + length b) ?p)"
      by (subst split) (simp add: old_count_def)
    have le: "length b \<le> length ?p - off" using lb by simp
    note ih = 1(1) [OF batch(1,2,3,4,5,6) 1(2) d dn]
    let ?s1 = "tx\<lparr>rt_tick := rt_tick tx + 1\<rparr>"
    let ?M = "rotate_loop E old new re bs (off + length b) ?s1"
    have rot: "rt_rotated tx = rt_rotated s + old_count ?A old (take (nat bs) (drop off ?p))"
      and skp: "rt_rotated tx + rt_skipped tx = rt_rotated s + rt_skipped s + length b"
      using st lb by simp_all
    have ev2: "evolves ?A old new (rt_rows s) (snd ?M)" 
      using evolves_trans [OF ev] conjunct1 [OF ih] by simp
    have "done_upto (ke_session E) ?A new (length (rt_rows s)) (snd ?M) \<and>
        r = rt_rotated s + old_count ?A old (drop off ?p) \<and>
        r + k = rt_rotated s + rt_skipped s + (length ?p - off)"
      if "fst ?M = Inr (r, k)" "0 < bs" for r k
    proof -
      note c = conjunct2 [OF ih, rule_format, OF that]
      have "r + k = rt_rotated tx + rt_skipped tx + (length ?p - (off + length b))"
        using conjunct2 [OF conjunct2 [OF c]] lp by simp
      then have "r + k = rt_rotated s + rt_skipped s + (length ?p - off)"
        unfolding skp using le by linarith
      moreover have "r = rt_rotated s + old_count ?A old (drop off ?p)"
        using conjunct1 [OF conjunct2 [OF c]] dropeq cnt rot by simp
      ultimately show ?thesis using conjunct1 [OF c] lr by simp
    qed
    with ev2 show ?thesis unfolding batch(7) by blast
  qed
qed

section \<open>A run without failures\<close>

text \<open>Nothing the run asks of its environment fails, and its role is not restricted by row-level security.\<close>

definition kr_smooth :: "'f kr_env \<Rightarrow> bytes \<Rightarrow> bool" where
  "kr_smooth E new \<longleftrightarrow> length new = 32 \<and> ss_bypass (ke_session E) \<and> (\<forall>t. \<not> ke_fails E t) \<and> (\<forall>t. ke_iv E t \<noteq> None) \<and>
     (\<forall>iv m. length iv = 12 \<longrightarrow> aead_seal (ke_aead E) new iv m \<noteq> None) \<and>
     (\<forall>t url q. \<exists>err d ds. ke_tei E t url q = KrEmbedAnswer 200 err (Inr \<lparr>kp_data = d # ds\<rparr>)) \<and> (\<forall>l. ke_cast_ok E l)"

definition readable :: "aead \<Rightarrow> bytes \<Rightarrow> bytes \<Rightarrow> table \<Rightarrow> bool" where
  "readable A old new rows \<longleftrightarrow>
     (\<forall>r \<in> set rows. \<forall>w. dc_encrypted_content r = Some w \<longrightarrow> plain_of A old new w \<noteq> None)"

lemma readable_evolves:
  assumes "evolves A old new rows rows'" and "readable A old new rows"
  shows "readable A old new rows'"
  unfolding readable_def
proof (intro ballI allI impI)
  fix r' w assume r': "r' \<in> set rows'" "dc_encrypted_content r' = Some w"
  from evolves_mem [OF assms(1) r'(1)] obtain r where r: "r \<in> set rows"
    and "moved A old new (dc_encrypted_content r) (Some w)" using r'(2) by auto
  then consider "dc_encrypted_content r = Some w" | m where "plain_of A old new w = Some m"
    unfolding moved_def by auto
  then show "plain_of A old new w \<noteq> None"
    using r assms(2) unfolding readable_def by cases auto
qed

lemma rotate_row_smooth:
  assumes env: "kr_env_ok E old new" and sm: "kr_smooth E new"
    and pl: "plain_of (ke_aead E) old new (ck_encrypted_content c) \<noteq> None"
  shows "\<exists>s'. rotate_row E old new client c s = Inr s'"
proof (cases "kr_decrypt (ke_aead E) old (ck_encrypted_content c)")
  case (Inl e)
  with pl show ?thesis by (auto simp: rotate_row_def plain_of_def split: sum.splits)
next
  case (Inr m)
  obtain iv where iv: "ke_iv E (rt_tick s) = Some iv" "length iv = 12"
    using sm env unfolding kr_smooth_def kr_env_ok_def by (meson not_None_eq)
  then obtain c' where "aead_seal (ke_aead E) new iv m = Some c'"
    using sm unfolding kr_smooth_def by (meson not_None_eq)
  moreover have "aead_key_ok (ke_aead E) new"
    using sm env unfolding kr_smooth_def kr_env_ok_def aead_laws_def by blast
  ultimately have enc: "kr_encrypt (ke_aead E) (ke_iv E (rt_tick s)) new m = Inr (iv @ c')"
    using iv by (simp add: kr_encrypt_eq encrypt_Inr)
  have "\<exists>s'. write_back E client c m w s = Inr s'" for w
  proof (cases client)
    case None
    then show ?thesis using sm by (simp add: write_back_def kr_smooth_def Let_def)
  next
    case (Some cl)
    have "ke_cast_ok E l" "\<not> ke_fails E t" for l t using sm by (simp_all add: kr_smooth_def)
    moreover obtain err d ds where "ke_tei E (rt_tick s + 1) (ec_base_url cl @ ''/v1/embeddings'')
        \<lparr>kq_model = ''nomic-embed-text-v1.5'', kq_input = from_utf8_lossy m\<rparr> =
        KrEmbedAnswer 200 err (Inr \<lparr>kp_data = d # ds\<rparr>)"
      using sm unfolding kr_smooth_def by blast
    ultimately show ?thesis using Some
      by (simp add: write_back_def kr_embed_def update_content_and_embedding_def is_error_status_def Let_def)
  qed
  then show ?thesis using Inr enc by (simp add: rotate_row_def)
qed

lemma rotate_rows_smooth:
  assumes env: "kr_env_ok E old new" and sm: "kr_smooth E new"
    and "\<forall>c \<in> set cs. plain_of (ke_aead E) old new (ck_encrypted_content c) \<noteq> None"
  shows "\<exists>s'. rotate_rows E old new client cs s = Inr s'"
  using assms(3)
proof (induction cs arbitrary: s)
  case (Cons c cs)
  obtain s1 where "rotate_row E old new client c s = Inr s1"
    using rotate_row_smooth [OF env sm] Cons.prems by (meson list.set_intros(1))
  with Cons show ?case by simp
qed simp

lemma rotate_loop_smooth:
  assumes "kr_env_ok E old new" and "kr_smooth E new" and "distinct (map dc_id (rt_rows s))"
    and "readable (ke_aead E) old new (rt_rows s)" and "0 \<le> bs"
  shows "\<exists>r. fst (rotate_loop E old new client bs off s) = Inr r"
  using assms
proof (induction E old new client bs off s rule: rotate_loop.induct)
  case (1 E old new client bs off s)
  let ?s0 = "s\<lparr>rt_tick := rt_tick s + 2\<rparr>"
  define b where "b = map to_chunk (take (nat bs) (drop off (pending (ke_session E) (rt_rows s))))"
  have nf: "\<not> ke_fails E t" for t using 1(3) by (simp add: kr_smooth_def)
  have fb: "fetch_batch (ke_session E) (rt_rows s) off bs = Inr b" using 1(6) by (simp add: fetch_batch_def b_def)
  show ?case
  proof (cases "b = []")
    case True
    then show ?thesis using nf fb by (simp add: rotate_loop.simps [of E old new client bs off s])
  next
    case False
    have br: "distinct (map ck_id b) \<and> (\<forall>c \<in> set b. refers (ke_session E) c (rt_rows s))"
      unfolding b_def by (rule batch_refers [OF 1(4)])
    then have "\<forall>c \<in> set b. plain_of (ke_aead E) old new (ck_encrypted_content c) \<noteq> None"
      using 1(5) unfolding readable_def refers_def by blast
    from rotate_rows_smooth [OF 1(2,3) this] obtain tx where
      tx: "rotate_rows E old new client b ?s0 = Inr tx" by blast
    have "evolves (ke_aead E) old new (rt_rows ?s0) (rt_rows tx)"
      using rotate_rows_batch [OF 1(2) _ _ _ tx] br 1(4) by simp
    then have ev: "evolves (ke_aead E) old new (rt_rows s) (rt_rows tx)" by simp
    have "\<exists>r. fst (rotate_loop E old new client bs (off + length b) (tx\<lparr>rt_tick := rt_tick tx + 1\<rparr>)) = Inr r"
      by (rule 1(1) [OF nf fb False nf tx nf 1(2,3) _ _ 1(6)])
        (use ev evolves_ids readable_evolves 1(4,5) in auto)
    then show ?thesis
      using nf fb False tx by (simp add: rotate_loop.simps [of E old new client bs off s])
  qed
qed

section \<open>The command: proofs\<close>

definition all_new :: "aead \<Rightarrow> bytes \<Rightarrow> table \<Rightarrow> bool" where
  "all_new A new rows \<longleftrightarrow>
     (\<forall>r \<in> set rows. dc_encrypted_content r \<noteq> None \<longrightarrow> new_readable A new (dc_encrypted_content r))"

lemma done_upto_all:
  assumes "length rows = length rows'" and "done_upto S A new (length rows') rows"
  shows "all_new A new (visible S rows)"
proof -
  have "set (pending S rows) = {r \<in> set (visible S rows). dc_encrypted_content r \<noteq> None}"
    by (auto simp: set_pending visible_def)
  moreover have "new_readable A new (dc_encrypted_content r)" if "r \<in> set (pending S rows)" for r
    using that assms length_pending [of S rows] unfolding done_upto_def in_set_conv_nth by auto
  ultimately show ?thesis unfolding all_new_def by blast
qed

abbreviation (input) kr_keys :: "'f kr_env \<Rightarrow> kr_args \<Rightarrow> bytes \<Rightarrow> bytes \<Rightarrow> bool" where
  "kr_keys E args old new \<equiv> kr_parse_key (ke_hex E) (ka_old_key args) = Inr old \<and>
     kr_parse_key (ke_hex E) (ka_new_key args) = Inr new"

lemma kr_main_evolves:
  assumes "kr_keys E args old new" and "kr_env_ok E old new" and "distinct (map dc_id rows)"
  shows "evolves (ke_aead E) old new rows (snd (kr_main E args rows))"
proof -
  define cl where "cl = (if ka_reembed args then Some (kr_embed_new (ka_tei_base_url args)) else None)"
  let ?s = "\<lparr>rt_rows = rows, rt_tick = 2, rt_rotated = 0, rt_skipped = 0\<rparr>"
  obtain res rows' where L: "rotate_loop E old new cl (ka_batch_size args) 0 ?s = (res, rows')"
    by (metis surj_pair)
  have "done_upto (ke_session E) (ke_aead E) new 0 rows" by (simp add: done_upto_def)
  with assms L rotate_loop_result [of E old new ?s 0 cl "ka_batch_size args"]
  have "evolves (ke_aead E) old new rows rows'" by simp
  with L assms(1) show ?thesis
    by (cases res) (auto simp: kr_main_def Let_def simp flip: cl_def)
qed

lemma kr_main_complete:
  assumes "kr_keys E args old new" and "kr_env_ok E old new" and "distinct (map dc_id rows)"
    and "0 < ka_batch_size args" and run: "kr_main E args rows = (Inr (Complete tot r k), rows')"
  shows "all_new (ke_aead E) new (visible (ke_session E) rows') \<and> plain_view (ke_aead E) old new rows' = plain_view (ke_aead E) old new rows \<and>
     tot = count_pending (ke_session E) rows \<and> r = old_count (ke_aead E) old (pending (ke_session E) rows) \<and> r + k = tot"
proof -
  let ?cl = "if ka_reembed args then Some (kr_embed_new (ka_tei_base_url args)) else None"
  let ?s = "\<lparr>rt_rows = rows, rt_tick = 2, rt_rotated = 0, rt_skipped = 0\<rparr>"
  have "done_upto (ke_session E) (ke_aead E) new 0 rows" by (simp add: done_upto_def)
  with assms rotate_loop_result [of E old new ?s 0 ?cl "ka_batch_size args"]
  have L: "evolves (ke_aead E) old new rows rows'"
    "done_upto (ke_session E) (ke_aead E) new (length rows) rows'" "r = old_count (ke_aead E) old (pending (ke_session E) rows)"
    "r + k = length (pending (ke_session E) rows)" "tot = count_pending (ke_session E) rows"
    by (auto simp: kr_main_def Let_def split: sum.splits prod.splits if_splits)
  have "length rows' = length rows" using evolves_ids [OF L(1)] by (metis length_map)
  moreover have "length (pending (ke_session E) rows) = count_pending (ke_session E) rows"
    by (simp add: pending_def count_pending_def)
  ultimately show ?thesis using L evolves_view [OF L(1)] done_upto_all [of rows' rows "ke_session E"] by simp
qed

lemma kr_main_smooth:
  assumes "kr_keys E args old new" and "kr_env_ok E old new" and "distinct (map dc_id rows)"
    and "old \<noteq> new" and "\<not> ka_dry_run args" and "0 \<le> ka_batch_size args"
    and "kr_smooth E new" and "readable (ke_aead E) old new rows"
  shows "\<exists>tot r k. fst (kr_main E args rows) = Inr (Complete tot r k)"
proof -
  let ?cl = "if ka_reembed args then Some (kr_embed_new (ka_tei_base_url args)) else None"
  let ?s = "\<lparr>rt_rows = rows, rt_tick = 2, rt_rotated = 0, rt_skipped = 0\<rparr>"
  obtain r k rows' where "rotate_loop E old new ?cl (ka_batch_size args) 0 ?s = (Inr (r, k), rows')"
    using rotate_loop_smooth [OF assms(2,7), of ?s "ka_batch_size args" ?cl 0] assms(3,6,8)
    by (metis fst_conv rot.select_convs(1) surj_pair)
  then show ?thesis using assms(1,4,5,7) by (auto simp: kr_main_def Let_def kr_smooth_def)
qed

section \<open>Properties\<close>

text \<open>
  C1. Whatever fails and wherever the run stops, key rotation loses no data: after \<open>main\<close>, the
  table has the same rows, and every content column still yields the same plaintext under one of the
  two keys (or is still unreadable, or still null).
\<close>

theorem rotation_never_loses:
  assumes "kr_parse_key (ke_hex E) (ka_old_key args) = Inr old"
    and "kr_parse_key (ke_hex E) (ka_new_key args) = Inr new"
    and "kr_env_ok E old new" and "distinct (map dc_id rows)"
  shows "plain_view (ke_aead E) old new (snd (kr_main E args rows)) = plain_view (ke_aead E) old new rows"
  using kr_main_evolves [of E args old new rows] assms by (simp add: evolves_view)

text \<open>
  C2. When the command reports \<open>Complete\<close> and the batch size is positive, no row that its session sees is left
  under the old key: every non-null content column of such a row opens under the new key, and no row's
  plaintext has changed; the rotated count is the number of visible rows the old key opened, and rotated
  plus skipped is the number of visible rows with content. Only a role that row-level security does not
  restrict sees them all, and then the whole table is under the new key.
\<close>

theorem rotation_complete:
  assumes "kr_parse_key (ke_hex E) (ka_old_key args) = Inr old"
    and "kr_parse_key (ke_hex E) (ka_new_key args) = Inr new"
    and "kr_env_ok E old new" and "distinct (map dc_id rows)" and "0 < ka_batch_size args"
    and "kr_main E args rows = (Inr (Complete tot r k), rows')"
  shows "all_new (ke_aead E) new (visible (ke_session E) rows') \<and>
     plain_view (ke_aead E) old new rows' = plain_view (ke_aead E) old new rows \<and>
     tot = count_pending (ke_session E) rows \<and>
     r = old_count (ke_aead E) old (pending (ke_session E) rows) \<and> r + k = tot \<and>
     (ss_bypass (ke_session E) \<longrightarrow> all_new (ke_aead E) new rows')"
  using kr_main_complete [of E args old new rows tot r k rows'] assms visible_bypass by metis

text \<open>
  C3. Under row-level security the tool is blind: it sets no client, so that a role the policies restrict sees
  no row of \<open>document_chunks\<close>. Whatever the table holds, the command then counts 0 rows, rotates none and
  reports \<open>Complete\<close>, with every row still under the old key.
\<close>

theorem rotation_blind:
  assumes "kr_parse_key (ke_hex E) (ka_old_key args) = Inr old"
    and "kr_parse_key (ke_hex E) (ka_new_key args) = Inr new" and "old \<noteq> new"
    and "\<not> ka_dry_run args" and "0 \<le> ka_batch_size args"
    and "\<not> ke_fails E 0" and "\<not> ke_fails E 1" and "\<not> ke_fails E 2" and "no_client (ke_session E)"
  shows "kr_main E args rows = (Inr (Complete 0 0 0), rows)"
  using assms
  by (simp add: kr_main_def Let_def rotate_loop.simps fetch_batch_def pending_def count_pending_def visible_no_client)

text \<open>
  C31. The tool is restart-safe: from a table whose every content opens under one of the two keys, after any
  first run, however it failed, a second run that is not a dry run, has a positive batch size and an
  environment that does not fail (\<open>kr_smooth\<close>; its role sees all rows) completes; then every row is under
  the new key with the plaintext it had before the first run, and the second run rotates exactly the rows
  the first had left under the old key.
\<close>

theorem rotation_restarts:
  assumes "kr_parse_key (ke_hex E) (ka_old_key args) = Inr old"
    and "kr_parse_key (ke_hex E) (ka_new_key args) = Inr new" and "old \<noteq> new"
    and "kr_env_ok E old new" and "kr_env_ok E\<^sub>0 old new" and "kr_smooth E new"
    and "ke_aead E\<^sub>0 = ke_aead E" and "ke_hex E\<^sub>0 = ke_hex E"
    and "distinct (map dc_id rows)" and "readable (ke_aead E) old new rows"
    and "\<not> ka_dry_run args" and "0 < ka_batch_size args"
  shows "\<exists>tot r k rows'. let rows\<^sub>1 = snd (kr_main E\<^sub>0 args rows) in
     kr_main E args rows\<^sub>1 = (Inr (Complete tot r k), rows') \<and> all_new (ke_aead E) new rows' \<and>
     plain_view (ke_aead E) old new rows' = plain_view (ke_aead E) old new rows \<and>
     r = old_count (ke_aead E) old (pending (ke_session E) rows\<^sub>1)"
proof -
  let ?r1 = "snd (kr_main E\<^sub>0 args rows)"
  have ev: "evolves (ke_aead E) old new rows ?r1"
    using kr_main_evolves [of E\<^sub>0 args old new rows] assms by simp
  have d: "distinct (map dc_id ?r1)" using evolves_ids [OF ev] assms(9) by simp
  have k: "kr_keys E args old new" using assms(1,2) by simp
  obtain tot r c rows' where run: "kr_main E args ?r1 = (Inr (Complete tot r c), rows')"
    using kr_main_smooth [OF k assms(4) d assms(3,11) _ assms(6) readable_evolves [OF ev assms(10)]]
      assms(12) by (metis less_imp_le fst_conv surj_pair)
  have "visible (ke_session E) rows' = rows'" using assms(6) by (simp add: kr_smooth_def visible_bypass)
  with kr_main_complete [OF k assms(4) d assms(12) run] evolves_view [OF ev] run
  show ?thesis by (metis (no_types, lifting))
qed

text \<open>
  A row neither key opens stops the tool with an error: it never reports completion, and what it
  committed before keeps every plaintext.
\<close>

theorem rotation_stops_on_foreign_row:
  assumes "kr_parse_key (ke_hex E) (ka_old_key args) = Inr old"
    and "kr_parse_key (ke_hex E) (ka_new_key args) = Inr new"
    and "kr_env_ok E old new" and "distinct (map dc_id rows)" and "0 < ka_batch_size args"
    and "\<not> readable (ke_aead E) old new rows" and "\<not> ka_dry_run args" and "ss_bypass (ke_session E)"
  shows "\<exists>e. fst (kr_main E args rows) = Inl e"
proof (cases "kr_main E args rows")
  case (Pair res rows')
  have "res \<noteq> Inr (Complete t r k)" for t r k
  proof
    assume "res = Inr (Complete t r k)"
    with kr_main_complete [of E args old new rows t r k rows'] assms Pair visible_bypass [OF assms(8)]
    have an: "all_new (ke_aead E) new rows'"
      and pv: "plain_view (ke_aead E) old new rows' = plain_view (ke_aead E) old new rows" by auto
    have "p \<noteq> Some None" if ip: "(i, p) \<in> set (plain_view (ke_aead E) old new rows')" for i p
    proof -
      from ip obtain q where q: "q \<in> set rows'" "p = map_option (plain_of (ke_aead E) old new) (dc_encrypted_content q)"
        by (auto simp: plain_view_def)
      show ?thesis
      proof (cases "dc_encrypted_content q")
        case (Some w)
        with an q obtain m where "kr_decrypt (ke_aead E) new w = Inr m"
          by (auto simp: all_new_def new_readable_def)
        then show ?thesis using Some q by (auto simp: plain_of_def split: sum.split)
      qed (use q in simp)
    qed
    moreover obtain x w where x: "x \<in> set rows" "dc_encrypted_content x = Some w"
        "plain_of (ke_aead E) old new w = None"
      using assms(6) by (auto simp: readable_def)
    then have "(row_place x, Some None) \<in> set (plain_view (ke_aead E) old new rows)"
      by (force simp: plain_view_def)
    ultimately show False using pv by metis
  qed
  moreover have "res \<noteq> Inr (DryRun t)" for t
    using Pair assms(7) by (auto simp: kr_main_def Let_def split: sum.splits if_splits prod.splits)
  ultimately show ?thesis using Pair by (metis fst_conv kr_outcome.exhaust sum.exhaust)
qed

text \<open>
  Nothing is written by a dry run, nor when the two keys are the same or one does not parse.
\<close>

theorem dry_run_writes_nothing:
  assumes "ka_dry_run args \<or> kr_parse_key (ke_hex E) (ka_old_key args) = kr_parse_key (ke_hex E) (ka_new_key args)"
  shows "snd (kr_main E args rows) = rows"
  using assms by (auto simp: kr_main_def Let_def split: sum.split)

text \<open>
  With \<open>--batch-size 0\<close> the first batch is empty: the command reports completion with nothing
  rotated, whatever the table holds.
\<close>

theorem batch_size_zero_reports_complete:
  assumes "kr_parse_key (ke_hex E) (ka_old_key args) = Inr old"
    and "kr_parse_key (ke_hex E) (ka_new_key args) = Inr new" and "old \<noteq> new"
    and "\<not> ka_dry_run args" and "ka_batch_size args = 0"
    and "\<not> ke_fails E 0" and "\<not> ke_fails E 1" and "\<not> ke_fails E 2"
  shows "kr_main E args rows = (Inr (Complete (count_pending (ke_session E) rows) 0 0), rows)"
  using assms by (simp add: kr_main_def Let_def rotate_loop.simps fetch_batch_def)

section \<open>Concrete runs\<close>

definition owner_session :: db_session where
  "owner_session = \<lparr>ss_bypass = True, ss_mcp_role = None, ss_mcp_client_id = None, ss_api_key_workspaces = []\<rparr>"

lemma owner_session [simp]: "ss_bypass owner_session" "sees owner_session r" "visible owner_session rows = rows"
  by (simp_all add: owner_session_def sees_bypass visible_bypass)

definition kr_toy :: "nat kr_env" where
  "kr_toy = \<lparr>ke_aead = toy_aead, ke_hex = toy_hex, ke_fails = (\<lambda>_. False),
     ke_iv = (\<lambda>_. Some (replicate 12 5)), ke_tei = (\<lambda>_ _ _. KrEmbedAnswer 200 [] (Inr \<lparr>kp_data = [\<lparr>kd_embedding = [1]\<rparr>]\<rparr>)), ke_cast_ok = (\<lambda>_. True),
     ke_show = show_nat, ke_session = owner_session\<rparr>"

definition kr_toy_args :: kr_args where
  "kr_toy_args = \<lparr>ka_old_key = hex_encode (replicate 32 7), ka_new_key = hex_encode (replicate 32 9),
     ka_dry_run = False, ka_reembed = False, ka_tei_base_url = [], ka_batch_size = 1000\<rparr>"

definition kr_toy_row :: "uuid \<Rightarrow> u8 \<Rightarrow> doc_chunk" where
  "kr_toy_row i k = \<lparr>dc_id = i, dc_doc_name = ''d'', dc_classification = ''PUBLIC'', dc_chunk_index = 0,
     dc_encrypted_content = Some (replicate 12 1 @ [104, 105] @ replicate 16 k), dc_embedding = None,
     dc_source_item_id = None, dc_workspace_id = default_workspace\<rparr>"

lemma kr_toy_ok: "kr_env_ok kr_toy (replicate 32 7) (replicate 32 9)"
proof -
  have "\<not> (16 \<le> length (m @ take 16 (replicate 32 9)) \<and>
      drop (length (m @ take 16 (replicate 32 9)) - 16) (m @ take 16 (replicate 32 9)) = take 16 (replicate 32 (7::u8)))"
    for m by simp
  then show ?thesis using toy_aead_laws by (auto simp: kr_env_ok_def kr_toy_def toy_aead_def)
qed

lemma kr_toy_smooth: "kr_smooth kr_toy (replicate 32 9)"
  by (simp add: kr_smooth_def kr_toy_def toy_aead_def)

lemma kr_toy_keys: "kr_keys kr_toy kr_toy_args (replicate 32 7) (replicate 32 9)"
proof -
  have "kr_parse_key toy_hex (hex_encode (replicate 32 k)) = Inr (replicate 32 k)" for k
    using toy_hex_laws trim_hex [of "[]" "[]" "replicate 32 k"]
    by (simp add: kr_parse_key_def hex_laws_def trim_eq_Nil ascii_is_str)
  then show ?thesis by (simp add: kr_toy_def kr_toy_args_def)
qed

theorem rotation_never_loses_witness:
  "map (\<lambda>(p, c). (fst p, c)) (plain_view toy_aead (replicate 32 7) (replicate 32 9)
     (snd (kr_main kr_toy kr_toy_args [kr_toy_row 1 7, kr_toy_row 2 9]))) =
   [(1, Some (Some [104, 105])), (2, Some (Some [104, 105]))]"
proof -
  have "map (\<lambda>(p, c). (fst p, c)) (plain_view toy_aead (replicate 32 7) (replicate 32 9)
        [kr_toy_row 1 7, kr_toy_row 2 9]) =
      [(1, Some (Some [104, 105])), (2, Some (Some [104, 105]))]"
    by (simp add: plain_view_def row_place_def kr_toy_row_def plain_of_def kr_decrypt_def MIN_LEN_def IV_LEN_def
        toy_aead_def)
  then show ?thesis
    using rotation_never_loses [of kr_toy kr_toy_args "replicate 32 7" "replicate 32 9"
        "[kr_toy_row 1 7, kr_toy_row 2 9]"] kr_toy_keys kr_toy_ok
    by (simp add: kr_toy_row_def kr_toy_def)
qed

lemma kr_toy_args_simps:
  "\<not> ka_dry_run kr_toy_args" "ka_batch_size kr_toy_args = 1000" "replicate 32 (7::u8) \<noteq> replicate 32 9"
  by (simp_all add: kr_toy_args_def)

lemma kr_toy_readable: "readable toy_aead (replicate 32 7) (replicate 32 9) [kr_toy_row 1 7, kr_toy_row 2 9]"
  by (simp add: readable_def kr_toy_row_def plain_of_def kr_decrypt_def MIN_LEN_def IV_LEN_def toy_aead_def)

lemma kr_toy_run:
  "\<exists>tot r k rows'. kr_main kr_toy kr_toy_args [kr_toy_row 1 7, kr_toy_row 2 9] =
     (Inr (Complete tot r k), rows')"
  using kr_main_smooth [OF kr_toy_keys kr_toy_ok _ kr_toy_args_simps(3,1) _ kr_toy_smooth,
      of "[kr_toy_row 1 7, kr_toy_row 2 9]"] kr_toy_readable kr_toy_args_simps(2)
  by (simp add: kr_toy_row_def kr_toy_def) (metis fst_conv surj_pair)

theorem rotation_complete_witness:
  "\<exists>rows'. kr_main kr_toy kr_toy_args [kr_toy_row 1 7, kr_toy_row 2 9] = (Inr (Complete 2 1 1), rows') \<and>
     all_new toy_aead (replicate 32 9) rows'"
proof -
  obtain tot r k rows' where run: "kr_main kr_toy kr_toy_args [kr_toy_row 1 7, kr_toy_row 2 9] =
     (Inr (Complete tot r k), rows')" using kr_toy_run by blast
  have "count_pending owner_session [kr_toy_row 1 7, kr_toy_row 2 9] = 2"
    by (simp add: count_pending_def kr_toy_row_def)
  moreover have "old_count toy_aead (replicate 32 7) (pending owner_session [kr_toy_row 1 7, kr_toy_row 2 9]) = 1"
    by (simp add: pending_def old_count_def old_readable_def kr_toy_row_def kr_decrypt_def MIN_LEN_def
        IV_LEN_def toy_aead_def)
  ultimately show ?thesis
    using rotation_complete [of kr_toy kr_toy_args, OF _ _ kr_toy_ok _ _ run] kr_toy_keys run
      kr_toy_args_simps(2)
    by (simp add: kr_toy_row_def kr_toy_def)
qed

theorem rotation_restarts_witness:
  "\<exists>tot r k rows'. let rows\<^sub>1 = snd (kr_main (kr_toy\<lparr>ke_fails := (\<lambda>t. t = 5)\<rparr>) kr_toy_args
        [kr_toy_row 1 7, kr_toy_row 2 9]) in
     kr_main kr_toy kr_toy_args rows\<^sub>1 = (Inr (Complete tot r k), rows') \<and>
     all_new toy_aead (replicate 32 9) rows'"
proof -
  let ?E = "kr_toy\<lparr>ke_fails := (\<lambda>t. t = 5)\<rparr>"
  have "kr_env_ok ?E (replicate 32 7) (replicate 32 9)" using kr_toy_ok by (simp add: kr_env_ok_def)
  from rotation_restarts [OF _ _ kr_toy_args_simps(3) kr_toy_ok this kr_toy_smooth, of kr_toy_args
      "[kr_toy_row 1 7, kr_toy_row 2 9]"] kr_toy_keys kr_toy_readable kr_toy_args_simps
  show ?thesis by (simp add: kr_toy_row_def kr_toy_def Let_def) blast
qed

definition kr_toy_client :: "nat kr_env" where
  "kr_toy_client = kr_toy\<lparr>ke_session := \<lparr>ss_bypass = False, ss_mcp_role = None, ss_mcp_client_id = None,
     ss_api_key_workspaces = [(5, default_workspace)]\<rparr>\<rparr>"

theorem rotation_blind_witness:
  "kr_main kr_toy_client kr_toy_args [kr_toy_row 1 7] = (Inr (Complete 0 0 0), [kr_toy_row 1 7]) \<and>
     old_readable toy_aead (replicate 32 7) (the (dc_encrypted_content (kr_toy_row 1 7)))"
proof
  have "no_client (ke_session kr_toy_client)" by (simp add: kr_toy_client_def no_client_def nil_uuid_def)
  with rotation_blind [of kr_toy_client kr_toy_args "replicate 32 7" "replicate 32 9" "[kr_toy_row 1 7]"] kr_toy_keys
    kr_toy_args_simps
  show "kr_main kr_toy_client kr_toy_args [kr_toy_row 1 7] = (Inr (Complete 0 0 0), [kr_toy_row 1 7])"
    by (simp add: kr_toy_client_def kr_toy_def)
  show "old_readable toy_aead (replicate 32 7) (the (dc_encrypted_content (kr_toy_row 1 7)))"
    by (simp add: old_readable_def kr_toy_row_def kr_decrypt_def MIN_LEN_def IV_LEN_def toy_aead_def)
qed

theorem rotation_stops_on_foreign_row_witness:
  "\<exists>e. fst (kr_main kr_toy kr_toy_args [kr_toy_row 1 7, kr_toy_row 2 8]) = Inl e"
proof -
  have "\<not> readable toy_aead (replicate 32 7) (replicate 32 9) [kr_toy_row 1 7, kr_toy_row 2 8]"
    by (simp add: readable_def kr_toy_row_def plain_of_def kr_decrypt_def MIN_LEN_def IV_LEN_def toy_aead_def)
  then show ?thesis
    using rotation_stops_on_foreign_row [OF _ _ kr_toy_ok, of kr_toy_args
        "[kr_toy_row 1 7, kr_toy_row 2 8]"] kr_toy_keys kr_toy_args_simps
    by (simp add: kr_toy_row_def kr_toy_def)
qed

theorem dry_run_writes_nothing_witness:
  "snd (kr_main kr_toy (kr_toy_args\<lparr>ka_dry_run := True\<rparr>) [kr_toy_row 1 7]) = [kr_toy_row 1 7]"
  by (rule dry_run_writes_nothing) simp

theorem batch_size_zero_reports_complete_witness:
  "kr_main kr_toy (kr_toy_args\<lparr>ka_batch_size := 0\<rparr>) [kr_toy_row 1 7] =
     (Inr (Complete 1 0 0), [kr_toy_row 1 7])"
proof -
  have "count_pending owner_session [kr_toy_row 1 7] = 1" by (simp add: count_pending_def kr_toy_row_def)
  then show ?thesis
    using batch_size_zero_reports_complete [of kr_toy "kr_toy_args\<lparr>ka_batch_size := 0\<rparr>"
        "replicate 32 7" "replicate 32 9" "[kr_toy_row 1 7]"] kr_toy_keys kr_toy_args_simps
    by (simp add: kr_toy_def)
qed

end
