(* ===== verification/Rotation_Live.thy ===== *)
theory Rotation_Live
  imports Key_Rotation Upsert_Race "HOL-Library.Multiset"
begin

text \<open>
  The key-rotation tool beside a running daemon: the loop of \<open>tools/key-rotation/src/main.rs\<close> taken
  one statement at a time (\<open>lstep\<close>), with the committed statements of other clients of the table
  between any two of its own.

  Statements run at \<open>READ COMMITTED\<close>. A fetch reads what is committed. Inside a transaction the tool
  sees the committed rows with its own writes on them (\<open>Writing\<close> carries this view as a \<open>rot\<close>, so that the
  rows are rewritten by the same \<open>rotate_row\<close> as in \<open>rotate_loop\<close>), and the rows it has written are locked: a
  statement that would delete one of them waits for the commit. A row deleted after the fetch is
  found by no \<open>UPDATE\<close>, which succeeds all the same.

  What others commit is an \<open>edit\<close>: rows are deleted, rows get another embedding, and rows with identifiers
  never drawn before are inserted. The statements that the other programs of the repository make on the
  table are edits: the daemon's two (\<open>delete_is_edit\<close>, \<open>upsert_is_edit\<close>), its upserts when they race
  (\<open>committed_is_edit\<close>), and the \<open>UPDATE\<close> of the embedding by the gateway's \<open>EmbeddingInitializer\<close>. No program
  but the tool updates \<open>encrypted_content\<close>; such an update between a fetch and the tool's own would be
  lost, and a second rotation at the same time is not covered. \<open>P\<close> is the condition on the edits that a theorem
  relies on. Without edits the steps compute \<open>rotate_loop\<close> (\<open>undisturbed\<close>).
\<close>

section \<open>Statements of others\<close>

record edit =
  ed_deleted :: "uuid set"
  ed_embeddings :: "uuid \<Rightarrow> string option"
  ed_inserted :: table

definition reembed :: "(uuid \<Rightarrow> string option) \<Rightarrow> doc_chunk \<Rightarrow> doc_chunk" where
  "reembed emb r = (case emb (dc_id r) of None \<Rightarrow> r | Some v \<Rightarrow> r\<lparr>dc_embedding := Some v\<rparr>)"

definition apply_edit :: "edit \<Rightarrow> table \<Rightarrow> table" where
  "apply_edit e rows =
     map (reembed (ed_embeddings e)) (filter (\<lambda>r. dc_id r \<notin> ed_deleted e) rows) @ ed_inserted e"

text \<open>Replacing the rows of an item.\<close>

definition replace_item :: "string \<Rightarrow> table \<Rightarrow> table \<Rightarrow> edit" where
  "replace_item item new_rows rows =
     \<lparr>ed_deleted = ids_of (item_rows item rows), ed_embeddings = (\<lambda>_. None), ed_inserted = new_rows\<rparr>"

lemma reembed_simps [simp]:
  "dc_id (reembed emb r) = dc_id r" "dc_encrypted_content (reembed emb r) = dc_encrypted_content r"
  "row_place (reembed emb r) = row_place r" "sees S (reembed emb r) = sees S r"
  by (simp_all add: reembed_def row_place_def sees_def in_workspace_def split: option.split)

lemma reembed_none [simp]: "reembed (\<lambda>_. None) = (\<lambda>r. r)"
  by (simp add: fun_eq_iff reembed_def)

lemma apply_replace:
  "distinct (map dc_id rows) \<Longrightarrow> apply_edit (replace_item item new_rows rows) rows = delete_rows item rows @ new_rows"
  by (simp add: apply_edit_def replace_item_def scan_deletes)

lemma delete_is_edit:
  assumes "delete_chunks E item d = (Inr u, d')" and "distinct (map dc_id (db_rows d))"
  shows "db_rows d' = apply_edit (replace_item item [] (db_rows d)) (db_rows d)"
  using assms by (auto simp: delete_chunks_def apply_replace split: if_splits)

text \<open>A commit of one of several upserts (theory \<open>Upsert_Race\<close>).\<close>

lemma committed_is_edit:
  "us_rows (committed call i D s) =
     apply_edit \<lparr>ed_deleted = D, ed_embeddings = (\<lambda>_. None), ed_inserted = uc_rows (call i)\<rparr> (us_rows s)"
  by (simp add: committed_def apply_edit_def)

lemma insert_all_appends:
  assumes "insert_all E item name cls i ps d = (Inr u, d')"
  shows "\<exists>new_rows. db_rows d' = db_rows d @ new_rows \<and> (\<forall>r \<in> set new_rows. dc_source_item_id r = Some item) \<and>
     map dc_encrypted_content new_rows = map (\<lambda>(enc, emb). Some enc) ps"
  using assms
proof (induction ps arbitrary: i d)
  case (Cons p ps)
  obtain enc emb where p: "p = (enc, emb)" by (cases p)
  let ?r = "\<lparr>dc_id = pg_fresh E (db_tick d), dc_doc_name = name, dc_classification = cls,
     dc_chunk_index = of_nat i, dc_encrypted_content = Some enc,
     dc_embedding = Some (format_vector (pg_show E) emb), dc_source_item_id = Some item, dc_workspace_id = default_workspace\<rparr>"
  from Cons.prems obtain rows where r: "insert_row (pg_cast_ok E) ?r (db_rows d) = Inr rows"
    and rest: "insert_all E item name cls (Suc i) ps \<lparr>db_rows = rows, db_tick = Suc (db_tick d)\<rparr> = (Inr u, d')"
    by (auto simp: p Let_def split: if_splits sum.splits)
  from Cons.IH [OF rest] obtain new_rows where "db_rows d' = rows @ new_rows"
    "\<forall>r \<in> set new_rows. dc_source_item_id r = Some item"
    "map dc_encrypted_content new_rows = map (\<lambda>(enc, emb). Some enc) ps" by auto
  with insert_row_Inr [OF r] show ?case by (intro exI [of _ "?r # new_rows"]) (simp add: p)
qed (intro exI [of _ "[]"], simp)

lemma upsert_is_edit:
  assumes "upsert_chunks E item name cls encs embs d = Returns (Inr u, d')" and "distinct (map dc_id (db_rows d))"
  shows "\<exists>new_rows. db_rows d' = apply_edit (replace_item item new_rows (db_rows d)) (db_rows d) \<and>
     (\<forall>r \<in> set new_rows. dc_source_item_id r = Some item) \<and>
     map dc_encrypted_content new_rows = map (\<lambda>(enc, emb). Some enc) (zip encs embs)"
proof -
  obtain tx where "insert_all E item name cls 0 (zip encs embs)
      \<lparr>db_rows = delete_rows item (db_rows d), db_tick = Suc (Suc (db_tick d))\<rparr> = (Inr (), tx)"
    and "d' = tx\<lparr>db_tick := Suc (db_tick tx)\<rparr>" using upsert_chunks_Inr [OF assms(1)] .
  from insert_all_appends [OF this(1)] this(2) show ?thesis by (simp add: apply_replace [OF assms(2)])
qed

section \<open>The loop, one statement at a time\<close>

text \<open>
  Before a fetch; with a batch fetched; in the transaction, with the chunks to go, the size of the batch,
  the view and the locked rows; ended, with the error or the two counts.
\<close>

datatype rphase =
    Fetching
  | Fetched "kr_chunk list"
  | Writing "kr_chunk list" nat rot "uuid set"
  | Over "anyhow + nat \<times> nat"

text \<open>
  \<open>lv_run\<close> has the committed rows and the counters; \<open>lv_edits\<close> and \<open>lv_ids\<close> record the edits made and
  every identifier ever drawn.
\<close>

record live =
  lv_run :: rot
  lv_offset :: nat
  lv_phase :: rphase
  lv_edits :: "edit list"
  lv_ids :: "uuid set"

abbreviation lv_rows :: "live \<Rightarrow> table" where
  "lv_rows s \<equiv> rt_rows (lv_run s)"

definition live_start :: "nat \<Rightarrow> table \<Rightarrow> live" where
  "live_start t rows = \<lparr>lv_run = \<lparr>rt_rows = rows, rt_tick = t, rt_rotated = 0, rt_skipped = 0\<rparr>, lv_offset = 0,
     lv_phase = Fetching, lv_edits = [], lv_ids = dc_id ` set rows\<rparr>"

fun locked :: "rphase \<Rightarrow> uuid set" where
  "locked (Writing cs n tx L) = L"
| "locked _ = {}"

fun edit_phase :: "edit \<Rightarrow> rphase \<Rightarrow> rphase" where
  "edit_phase e (Writing cs n tx L) = Writing cs n (tx\<lparr>rt_rows := apply_edit e (rt_rows tx)\<rparr>) L"
| "edit_phase e p = p"

definition edit_ok :: "edit \<Rightarrow> live \<Rightarrow> bool" where
  "edit_ok e s \<longleftrightarrow>
     distinct (map dc_id (ed_inserted e)) \<and> dc_id ` set (ed_inserted e) \<inter> lv_ids s = {} \<and>
     (ed_deleted e \<union> dom (ed_embeddings e)) \<inter> locked (lv_phase s) = {}"

definition edited :: "edit \<Rightarrow> live \<Rightarrow> live" where
  "edited e s = s\<lparr>lv_run := (lv_run s)\<lparr>rt_rows := apply_edit e (lv_rows s)\<rparr>,
     lv_phase := edit_phase e (lv_phase s), lv_edits := lv_edits s @ [e],
     lv_ids := lv_ids s \<union> dc_id ` set (ed_inserted e)\<rparr>"

inductive lstep :: "'f kr_env \<Rightarrow> bytes \<Rightarrow> bytes \<Rightarrow> embed_client option \<Rightarrow> int \<Rightarrow> (edit \<Rightarrow> table \<Rightarrow> bool) \<Rightarrow>
    live \<Rightarrow> live \<Rightarrow> bool" for E old_key new_key client batch_size P where
  fetch_fails: "lv_phase s = Fetching \<Longrightarrow> ke_fails E (rt_tick (lv_run s)) \<Longrightarrow>
     lstep E old_key new_key client batch_size P s (s\<lparr>lv_phase := Over (Inl ''database error'')\<rparr>)"
| fetch_refused: "lv_phase s = Fetching \<Longrightarrow> \<not> ke_fails E (rt_tick (lv_run s)) \<Longrightarrow>
     fetch_batch (ke_session E) (lv_rows s) (lv_offset s) batch_size = Inl e \<Longrightarrow>
     lstep E old_key new_key client batch_size P s (s\<lparr>lv_phase := Over (Inl e)\<rparr>)"
| fetch_empty: "lv_phase s = Fetching \<Longrightarrow> \<not> ke_fails E (rt_tick (lv_run s)) \<Longrightarrow>
     fetch_batch (ke_session E) (lv_rows s) (lv_offset s) batch_size = Inr [] \<Longrightarrow>
     lstep E old_key new_key client batch_size P s
       (s\<lparr>lv_phase := Over (Inr (rt_rotated (lv_run s), rt_skipped (lv_run s)))\<rparr>)"
| fetch_some: "lv_phase s = Fetching \<Longrightarrow> \<not> ke_fails E (rt_tick (lv_run s)) \<Longrightarrow>
     fetch_batch (ke_session E) (lv_rows s) (lv_offset s) batch_size = Inr batch \<Longrightarrow> batch \<noteq> [] \<Longrightarrow>
     lstep E old_key new_key client batch_size P s (s\<lparr>lv_phase := Fetched batch\<rparr>)"
| begin_fails: "lv_phase s = Fetched batch \<Longrightarrow> ke_fails E (rt_tick (lv_run s) + 1) \<Longrightarrow>
     lstep E old_key new_key client batch_size P s (s\<lparr>lv_phase := Over (Inl ''database error'')\<rparr>)"
| begin_tx: "lv_phase s = Fetched batch \<Longrightarrow> \<not> ke_fails E (rt_tick (lv_run s) + 1) \<Longrightarrow>
     lstep E old_key new_key client batch_size P s
       (s\<lparr>lv_phase := Writing batch (length batch) ((lv_run s)\<lparr>rt_tick := rt_tick (lv_run s) + 2\<rparr>) {}\<rparr>)"
| row_fails: "lv_phase s = Writing (c # cs) n tx L \<Longrightarrow> rotate_row E old_key new_key client c tx = Inl e \<Longrightarrow>
     lstep E old_key new_key client batch_size P s (s\<lparr>lv_phase := Over (Inl e)\<rparr>)"
| row_done: "lv_phase s = Writing (c # cs) n tx L \<Longrightarrow> rotate_row E old_key new_key client c tx = Inr tx' \<Longrightarrow>
     lstep E old_key new_key client batch_size P s (s\<lparr>lv_phase := Writing cs n tx'
       (if rt_rotated tx' = rt_rotated tx then L else insert (ck_id c) L)\<rparr>)"
| commit_fails: "lv_phase s = Writing [] n tx L \<Longrightarrow> ke_fails E (rt_tick tx) \<Longrightarrow>
     lstep E old_key new_key client batch_size P s (s\<lparr>lv_phase := Over (Inl ''database error'')\<rparr>)"
| commit_tx: "lv_phase s = Writing [] n tx L \<Longrightarrow> \<not> ke_fails E (rt_tick tx) \<Longrightarrow>
     lstep E old_key new_key client batch_size P s
       (s\<lparr>lv_run := tx\<lparr>rt_tick := rt_tick tx + 1\<rparr>, lv_offset := lv_offset s + n, lv_phase := Fetching\<rparr>)"
| edit: "P e (lv_rows s) \<Longrightarrow> edit_ok e s \<Longrightarrow> lstep E old_key new_key client batch_size P s (edited e s)"

section \<open>Without edits: the loop itself\<close>

lemma rows_run:
  assumes "rotate_rows E old new client cs tx = r"
  shows "\<exists>s'. (lstep E old new client bs P)\<^sup>*\<^sup>* (s\<lparr>lv_phase := Writing cs n tx L\<rparr>) s' \<and>
     (case r of Inl e \<Rightarrow> s' = s\<lparr>lv_phase := Over (Inl e)\<rparr>
      | Inr tx' \<Rightarrow> \<exists>L'. s' = s\<lparr>lv_phase := Writing [] n tx' L'\<rparr>)"
  using assms
proof (induction cs arbitrary: tx L)
  case Nil
  then show ?case by (intro exI [of _ "s\<lparr>lv_phase := Writing [] n tx L\<rparr>"]) auto
next
  case (Cons c cs)
  let ?s = "s\<lparr>lv_phase := Writing (c # cs) n tx L\<rparr>"
  show ?case
  proof (cases "rotate_row E old new client c tx")
    case (Inl e)
    have "lstep E old new client bs P ?s (?s\<lparr>lv_phase := Over (Inl e)\<rparr>)"
      by (rule lstep.row_fails [OF _ Inl]) simp
    then show ?thesis using Cons.prems Inl by (intro exI [of _ "s\<lparr>lv_phase := Over (Inl e)\<rparr>"]) auto
  next
    case (Inr tx1)
    let ?L = "if rt_rotated tx1 = rt_rotated tx then L else insert (ck_id c) L"
    have "lstep E old new client bs P ?s (?s\<lparr>lv_phase := Writing cs n tx1 ?L\<rparr>)"
      by (rule lstep.row_done [OF _ Inr]) simp
    moreover have "?s\<lparr>lv_phase := Writing cs n tx1 ?L\<rparr> = s\<lparr>lv_phase := Writing cs n tx1 ?L\<rparr>" by simp
    ultimately have st: "lstep E old new client bs P ?s (s\<lparr>lv_phase := Writing cs n tx1 ?L\<rparr>)" by metis
    have "rotate_rows E old new client cs tx1 = r" using Cons.prems Inr by simp
    from Cons.IH [OF this, of ?L] st show ?thesis by (meson converse_rtranclp_into_rtranclp)
  qed
qed

text \<open>A run that ends, with its result, its table and no further edit.\<close>

definition ends :: "'f kr_env \<Rightarrow> bytes \<Rightarrow> bytes \<Rightarrow> embed_client option \<Rightarrow> int \<Rightarrow> (edit \<Rightarrow> table \<Rightarrow> bool) \<Rightarrow>
    live \<Rightarrow> anyhow + nat \<times> nat \<Rightarrow> table \<Rightarrow> bool" where
  "ends E old new client bs P s r rows' \<longleftrightarrow> (\<exists>s'. (lstep E old new client bs P)\<^sup>*\<^sup>* s s' \<and>
     lv_phase s' = Over r \<and> lv_rows s' = rows' \<and> lv_edits s' = lv_edits s)"

lemma ends_now: "lstep E old new client bs P s (s\<lparr>lv_phase := Over r\<rparr>) \<Longrightarrow> ends E old new client bs P s r (lv_rows s)"
  unfolding ends_def by (intro exI [of _ "s\<lparr>lv_phase := Over r\<rparr>"]) auto

lemma ends_after:
  "(lstep E old new client bs P)\<^sup>*\<^sup>* s t \<Longrightarrow> lv_edits t = lv_edits s \<Longrightarrow> ends E old new client bs P t r rows' \<Longrightarrow>
     ends E old new client bs P s r rows'"
  unfolding ends_def by (metis rtranclp_trans)

lemma undisturbed:
  assumes "rotate_loop E old new client bs offset u = (r, rows')" and "lv_run s = u" and "lv_offset s = offset"
    and "lv_phase s = Fetching"
  shows "ends E old new client bs P s r rows'"
  using assms
proof (induction E old new client bs offset u arbitrary: s rule: rotate_loop.induct)
  case (1 E old new client bs offset u)
  let ?step = "lstep E old new client bs P" and ?ends = "ends E old new client bs P"
  note s = "1.prems"(2-4)
  show ?case
  proof (cases "ke_fails E (rt_tick u)")
    case True
    with lstep.fetch_fails [of s E old new client bs P] s
    have "?ends s (Inl ''database error'') (lv_rows s)" by (intro ends_now) simp
    then show ?thesis using "1.prems" True by (simp add: rotate_loop.simps)
  next
    case nf: False
    show ?thesis
    proof (cases "fetch_batch (ke_session E) (rt_rows u) offset bs")
      case (Inl e)
      with lstep.fetch_refused [of s E bs e old new client P] s nf
      have "?ends s (Inl e) (lv_rows s)" by (intro ends_now) simp
      then show ?thesis using "1.prems" nf Inl by (simp add: rotate_loop.simps)
    next
      case b: (Inr batch)
      show ?thesis
      proof (cases "batch = []")
        case True
        with lstep.fetch_empty [of s E bs old new client P] s nf b
        have "?ends s (Inr (rt_rotated u, rt_skipped u)) (lv_rows s)" by (intro ends_now) simp
        then show ?thesis using "1.prems" nf b True by (simp add: rotate_loop.simps)
      next
        case nb: False
        let ?f = "s\<lparr>lv_phase := Fetched batch\<rparr>"
        let ?w = "s\<lparr>lv_phase := Writing batch (length batch) (u\<lparr>rt_tick := rt_tick u + 2\<rparr>) {}\<rparr>"
        have f: "?step s ?f" using s nf b nb by (intro lstep.fetch_some) simp_all
        show ?thesis
        proof (cases "ke_fails E (rt_tick u + 1)")
          case True
          with lstep.begin_fails [of ?f batch E old new client bs P] s
          have "?ends ?f (Inl ''database error'') (lv_rows ?f)" by (intro ends_now) simp
          from ends_after [OF r_into_rtranclp, OF f _ this] show ?thesis
            using "1.prems" nf b nb True by (simp add: rotate_loop.simps)
        next
          case nf1: False
          from lstep.begin_tx [of ?f batch E old new client bs P] nf1 s have "?step ?f ?w" by simp
          with f have w: "?step\<^sup>*\<^sup>* s ?w" by (rule converse_rtranclp_into_rtranclp [OF _ r_into_rtranclp])
          show ?thesis
          proof (cases "rotate_rows E old new client batch (u\<lparr>rt_tick := rt_tick u + 2\<rparr>)")
            case (Inl e)
            from rows_run [OF this, of bs P "length batch" "{}" s]
            have "?step\<^sup>*\<^sup>* ?w (s\<lparr>lv_phase := Over (Inl e)\<rparr>)" by simp
            with w have "?step\<^sup>*\<^sup>* s (s\<lparr>lv_phase := Over (Inl e)\<rparr>)" by (rule rtranclp_trans)
            then have "?ends s (Inl e) (lv_rows s)" unfolding ends_def
              by (intro exI [of _ "s\<lparr>lv_phase := Over (Inl e)\<rparr>"]) simp
            then show ?thesis using "1.prems" nf b nb nf1 Inl by (simp add: rotate_loop.simps)
          next
            case tx: (Inr tx)
            from rows_run [OF this, of bs P "length batch" "{}" s] obtain L where
              "?step\<^sup>*\<^sup>* ?w (s\<lparr>lv_phase := Writing [] (length batch) tx L\<rparr>)" by auto
            with w have c: "?step\<^sup>*\<^sup>* s (s\<lparr>lv_phase := Writing [] (length batch) tx L\<rparr>)" by (rule rtranclp_trans)
            let ?c = "s\<lparr>lv_phase := Writing [] (length batch) tx L\<rparr>"
            show ?thesis
            proof (cases "ke_fails E (rt_tick tx)")
              case True
              with lstep.commit_fails [of ?c "length batch" tx L E old new client bs P]
              have "?ends ?c (Inl ''database error'') (lv_rows ?c)" by (intro ends_now) simp
              from ends_after [OF c _ this] show ?thesis
                using "1.prems" nf b nb nf1 tx True by (simp add: rotate_loop.simps)
            next
              case nf2: False
              let ?n = "s\<lparr>lv_run := tx\<lparr>rt_tick := rt_tick tx + 1\<rparr>, lv_offset := lv_offset s + length batch, lv_phase := Fetching\<rparr>"
              from lstep.commit_tx [of ?c "length batch" tx L E old new client bs P] nf2 have "?step ?c ?n" by simp
              with c have n: "?step\<^sup>*\<^sup>* s ?n" by simp
              have "rotate_loop E old new client bs (offset + length batch) (tx\<lparr>rt_tick := rt_tick tx + 1\<rparr>) = (r, rows')"
                using "1.prems"(1) nf b nb nf1 tx nf2 by (simp add: rotate_loop.simps [of E old new client bs offset])
              from "1.IH" [OF nf b nb nf1 tx nf2 this, of ?n] s have "?ends ?n r rows'" by simp
              from ends_after [OF n _ this] show ?thesis by simp
            qed
          qed
        qed
      qed
    qed
  qed
qed

section \<open>One row in a disturbed transaction\<close>

text \<open>The row of a chunk may be gone; while it is there, its content is the one fetched.\<close>

definition coherent :: "db_session \<Rightarrow> kr_chunk \<Rightarrow> table \<Rightarrow> bool" where
  "coherent S c rows \<longleftrightarrow>
     (\<forall>r \<in> set rows. dc_id r = ck_id c \<longrightarrow> dc_encrypted_content r = Some (ck_encrypted_content c) \<and> sees S r)"

lemma rotate_row_frame:
  assumes "rotate_row E old new client c u = Inr u'"
  shows "rt_rows u' = rt_rows u \<or> (\<exists>w. sets_row (ke_session E) (ck_id c) w (rt_rows u) (rt_rows u'))"
  using assms write_back_sets_row by (fastforce simp: rotate_row_def split: sum.splits)

lemma sets_row_other:
  assumes "sets_row S i w rows rows'" and "r' \<in> set rows'" and "dc_id r' \<noteq> i"
  shows "r' \<in> set rows"
  using assms unfolding sets_row_def list_all2_conv_all_nth
  by (metis in_set_conv_nth row_place_id)

lemma sets_row_absent: "sets_row S i w rows rows' \<Longrightarrow> i \<notin> dc_id ` set rows \<Longrightarrow> rows' = rows"
  unfolding sets_row_def by (induction rule: list_all2_induct) auto

lemma rotate_row_live:
  assumes env: "kr_env_ok E old new" and d: "distinct (map dc_id (rt_rows u))" and c: "coherent (ke_session E) c (rt_rows u)"
    and run: "rotate_row E old new client c u = Inr u'"
  shows "evolves (ke_aead E) old new (rt_rows u) (rt_rows u') \<and>
     (\<forall>r \<in> set (rt_rows u'). dc_id r = ck_id c \<longrightarrow> new_readable (ke_aead E) new (dc_encrypted_content r)) \<and>
     (\<forall>r \<in> set (rt_rows u'). dc_id r \<noteq> ck_id c \<longrightarrow> r \<in> set (rt_rows u))"
proof -
  have other: "\<forall>r \<in> set (rt_rows u'). dc_id r \<noteq> ck_id c \<longrightarrow> r \<in> set (rt_rows u)"
    using rotate_row_frame [OF run] sets_row_other by metis
  show ?thesis
  proof (cases "ck_id c \<in> dc_id ` set (rt_rows u)")
    case True
    then have "refers (ke_session E) c (rt_rows u)" using c by (auto simp: refers_def coherent_def)
    with rotate_row_step [OF env d _ run] other show ?thesis by blast
  next
    case False
    then have "rt_rows u' = rt_rows u" using rotate_row_frame [OF run] sets_row_absent by metis
    with False show ?thesis by (auto simp: image_iff)
  qed
qed

lemma coherent_other:
  assumes "coherent S c rows" and "ck_id c \<noteq> i" and "\<forall>r \<in> set rows'. dc_id r \<noteq> i \<longrightarrow> r \<in> set rows"
  shows "coherent S c rows'"
  using assms by (auto simp: coherent_def)

lemma batch_coherent:
  assumes "fetch_batch S rows offset bs = Inr batch" and "distinct (map dc_id rows)"
  shows "distinct (map ck_id batch) \<and> ck_id ` set batch \<subseteq> dc_id ` set rows \<and> (\<forall>c \<in> set batch. coherent S c rows)"
proof -
  have batch: "batch = map to_chunk (take (nat bs) (drop offset (pending S rows)))"
    using assms(1) by (auto simp: fetch_batch_def split: if_splits)
  have sub: "set (take (nat bs) (drop offset (pending S rows))) \<subseteq> set (pending S rows)"
    by (meson order_trans set_drop_subset set_take_subset)
  have "distinct (map dc_id (take (nat bs) (drop offset (pending S rows))))"
    using distinct_pending [OF assms(2)] by (simp flip: take_map drop_map)
  then have "distinct (map ck_id batch)" by (simp only: batch ck_id_to_chunk)
  moreover have "coherent S (to_chunk r) rows" if "r \<in> set (pending S rows)" for r
    using that assms(2) eq_key_imp_eq_value
    by (auto simp: coherent_def to_chunk_def set_pending distinct_map inj_on_def)
  then have "\<forall>c \<in> set batch. coherent S c rows" using sub by (auto simp: batch)
  moreover have "ck_id ` set batch \<subseteq> dc_id ` set rows"
    using sub by (auto simp: batch set_pending to_chunk_def)
  ultimately show ?thesis by blast
qed

section \<open>Edits and what a rotation keeps\<close>

lemma evolves_edit:
  assumes "evolves A old new rows rows'"
  shows "evolves A old new (apply_edit e rows) (apply_edit e rows')"
proof -
  have "list_all2 (\<lambda>r r'. row_place r' = row_place r \<and> moved A old new (dc_encrypted_content r) (dc_encrypted_content r'))
      (map (reembed f) (filter (\<lambda>r. dc_id r \<notin> D) rows)) (map (reembed f) (filter (\<lambda>r. dc_id r \<notin> D) rows'))" for f D
    using assms unfolding evolves_def
    by (induction rule: list_all2_induct) (auto dest: row_place_id)
  then show ?thesis unfolding evolves_def apply_edit_def
    by (intro list_all2_appendI) (simp_all add: list_all2_same)
qed

lemma plain_view_append: "plain_view A old new (xs @ ys) = plain_view A old new xs @ plain_view A old new ys"
  by (simp add: plain_view_def)

lemma plain_view_edit:
  "plain_view A old new (apply_edit e rows) =
     filter (\<lambda>(p, c). fst p \<notin> ed_deleted e) (plain_view A old new rows) @ plain_view A old new (ed_inserted e)"
proof -
  have "plain_view A old new (map (reembed f) (filter (\<lambda>r. dc_id r \<notin> D) rows)) =
      filter (\<lambda>(p, c). fst p \<notin> D) (plain_view A old new rows)" for f D
    by (induction rows) (auto simp: plain_view_def row_place_def reembed_def split: option.splits)
  then show ?thesis by (simp add: apply_edit_def plain_view_append)
qed

section \<open>The invariant of the steps\<close>

fun view_of :: "rphase \<Rightarrow> table \<Rightarrow> table" where
  "view_of (Writing cs n tx L) rows = rt_rows tx"
| "view_of _ rows = rows"

fun to_go :: "rphase \<Rightarrow> kr_chunk list" where
  "to_go (Fetched cs) = cs"
| "to_go (Writing cs n tx L) = cs"
| "to_go _ = []"

abbreviation lv_view :: "live \<Rightarrow> table" where
  "lv_view s \<equiv> view_of (lv_phase s) (lv_rows s)"

definition live_inv :: "db_session \<Rightarrow> aead \<Rightarrow> bytes \<Rightarrow> bytes \<Rightarrow> table \<Rightarrow> live \<Rightarrow> bool" where
  "live_inv S A old new rows\<^sub>0 s \<longleftrightarrow>
     distinct (map dc_id (lv_rows s)) \<and> dc_id ` set (lv_rows s) \<subseteq> lv_ids s \<and>
     evolves A old new (lv_rows s) (lv_view s) \<and>
     distinct (map ck_id (to_go (lv_phase s))) \<and> ck_id ` set (to_go (lv_phase s)) \<subseteq> lv_ids s \<and>
     (\<forall>c \<in> set (to_go (lv_phase s)). coherent S c (lv_view s)) \<and>
     plain_view A old new (lv_rows s) = plain_view A old new (fold apply_edit (lv_edits s) rows\<^sub>0)"

lemma view_of_edit: "view_of (edit_phase e p) (apply_edit e rows) = apply_edit e (view_of p rows)"
  by (cases p) auto

lemma to_go_edit: "to_go (edit_phase e p) = to_go p"
  by (cases p) auto

lemma apply_edit_mem:
  "r \<in> set (apply_edit e rows) \<Longrightarrow> (\<exists>q \<in> set rows. r = reembed (ed_embeddings e) q) \<or> r \<in> set (ed_inserted e)"
  by (auto simp: apply_edit_def)

lemma apply_edit_ids: "dc_id ` set (apply_edit e rows) \<subseteq> dc_id ` set rows \<union> dc_id ` set (ed_inserted e)"
  by (auto simp: apply_edit_def)

lemma live_inv_edit:
  assumes "live_inv S A old new rows\<^sub>0 s" and "edit_ok e s"
  shows "live_inv S A old new rows\<^sub>0 (edited e s)"
proof -
  have fresh: "distinct (map dc_id (ed_inserted e))" "dc_id ` set (ed_inserted e) \<inter> lv_ids s = {}"
    using assms(2) by (simp_all add: edit_ok_def)
  have "distinct (map dc_id (apply_edit e (lv_rows s)))"
  proof -
    have "dc_id \<circ> reembed (ed_embeddings e) = dc_id" by (simp add: fun_eq_iff)
    moreover have "distinct (map dc_id (filter (\<lambda>r. dc_id r \<notin> ed_deleted e) (lv_rows s)))"
      and "dc_id ` set (lv_rows s) \<subseteq> lv_ids s"
      using assms(1) by (simp_all add: live_inv_def distinct_map_filter)
    ultimately show ?thesis using fresh by (auto simp: apply_edit_def)
  qed
  moreover have "coherent S c (apply_edit e (lv_view s))" if "c \<in> set (to_go (lv_phase s))" for c
  proof -
    have "ck_id c \<in> lv_ids s" and "coherent S c (lv_view s)" using that assms(1) by (auto simp: live_inv_def)
    then show ?thesis using fresh(2) apply_edit_mem [of _ e "lv_view s"] by (fastforce simp: coherent_def)
  qed
  moreover have "dc_id ` set (apply_edit e (lv_rows s)) \<subseteq> lv_ids s \<union> dc_id ` set (ed_inserted e)"
    using apply_edit_ids [of e "lv_rows s"] assms(1) by (auto simp: live_inv_def)
  moreover have "evolves A old new (apply_edit e (lv_rows s)) (apply_edit e (lv_view s))"
    using assms(1) by (intro evolves_edit) (simp add: live_inv_def)
  moreover have "plain_view A old new (apply_edit e (lv_rows s)) =
      plain_view A old new (apply_edit e (fold apply_edit (lv_edits s) rows\<^sub>0))"
    using assms(1) by (simp add: plain_view_edit live_inv_def)
  moreover have "distinct (map ck_id (to_go (lv_phase s)))"
    "ck_id ` set (to_go (lv_phase s)) \<subseteq> lv_ids s \<union> dc_id ` set (ed_inserted e)"
    using assms(1) by (auto simp: live_inv_def)
  ultimately show ?thesis by (simp add: live_inv_def edited_def view_of_edit to_go_edit)
qed

lemma live_inv_step:
  assumes "lstep E old new client bs P s s'" and "kr_env_ok E old new" and "live_inv (ke_session E) (ke_aead E) old new rows\<^sub>0 s"
  shows "live_inv (ke_session E) (ke_aead E) old new rows\<^sub>0 s'"
  using assms
proof (cases rule: lstep.cases)
  case (fetch_some batch)
  have "distinct (map dc_id (lv_rows s))" and ids: "dc_id ` set (lv_rows s) \<subseteq> lv_ids s"
    using assms(3) by (simp_all add: live_inv_def)
  with batch_coherent [OF fetch_some(4)] have "distinct (map ck_id batch)" "ck_id ` set batch \<subseteq> lv_ids s"
    "\<forall>c \<in> set batch. coherent (ke_session E) c (lv_rows s)" by blast+
  with assms(3) fetch_some show ?thesis by (simp add: live_inv_def)
next
  case (row_done c cs n tx L tx')
  let ?A = "ke_aead E"
  have ev: "evolves ?A old new (lv_rows s) (rt_rows tx)" and d: "distinct (map dc_id (lv_rows s))"
    and c: "coherent (ke_session E) c (rt_rows tx)" and "\<forall>x \<in> set cs. coherent (ke_session E) x (rt_rows tx)" "ck_id c \<notin> ck_id ` set cs"
    using assms(3) row_done(2) by (simp_all add: live_inv_def)
  then have cs: "\<forall>x \<in> set cs. coherent (ke_session E) x (rt_rows tx) \<and> ck_id x \<noteq> ck_id c" by (metis imageI)
  have "distinct (map dc_id (rt_rows tx))" using d evolves_ids [OF ev] by simp
  note row = rotate_row_live [OF assms(2) this c row_done(3)]
  have "evolves ?A old new (lv_rows s) (rt_rows tx')" using evolves_trans [OF ev] row by blast
  moreover have "\<forall>x \<in> set cs. coherent (ke_session E) x (rt_rows tx')" using cs row coherent_other by metis
  ultimately show ?thesis using assms(3) row_done(1,2) by (auto simp: live_inv_def)
next
  case (commit_tx n tx L)
  then have ev: "evolves (ke_aead E) old new (lv_rows s) (rt_rows tx)" using assms(3) by (simp add: live_inv_def)
  have "dc_id ` set (rt_rows tx) = dc_id ` set (lv_rows s)" using evolves_ids [OF ev] by (metis set_map)
  with commit_tx assms(3) evolves_ids [OF ev] evolves_view [OF ev] show ?thesis by (auto simp: live_inv_def)
next
  case (edit e)
  with assms(3) live_inv_edit show ?thesis by blast
qed (auto simp: live_inv_def)

lemma live_inv_reach:
  assumes "(lstep E old new client bs P)\<^sup>*\<^sup>* (live_start t rows) s" and "kr_env_ok E old new"
    and "distinct (map dc_id rows)"
  shows "live_inv (ke_session E) (ke_aead E) old new rows s"
  using assms(1)
proof (induction rule: rtranclp_induct)
  case base
  then show ?case using assms(3) by (simp add: live_inv_def live_start_def)
qed (use live_inv_step assms(2) in blast)

section \<open>Beside inserts: completeness\<close>

text \<open>An edit that removes nothing and whose new rows are under the new key.\<close>

definition grows :: "aead \<Rightarrow> bytes \<Rightarrow> edit \<Rightarrow> table \<Rightarrow> bool" where
  "grows A new e rows \<longleftrightarrow> ed_deleted e \<inter> dc_id ` set rows = {} \<and> all_new A new (ed_inserted e)"

definition new_ids :: "aead \<Rightarrow> bytes \<Rightarrow> table \<Rightarrow> uuid set" where
  "new_ids A new rows = dc_id ` {r \<in> set rows. new_readable A new (dc_encrypted_content r)}"

abbreviation pending_ids :: "db_session \<Rightarrow> table \<Rightarrow> uuid list" where
  "pending_ids S rows \<equiv> map dc_id (pending S rows)"

fun batch_of :: "rphase \<Rightarrow> nat" where
  "batch_of (Fetched cs) = length cs"
| "batch_of (Writing cs n tx L) = n"
| "batch_of _ = 0"

text \<open>Every pending row before the end of the current batch is under the new key or still to go.\<close>

definition behind :: "db_session \<Rightarrow> aead \<Rightarrow> bytes \<Rightarrow> live \<Rightarrow> bool" where
  "behind S A new s \<longleftrightarrow>
     (case lv_phase s of
        Over (Inr _) \<Rightarrow> all_new A new (visible S (lv_rows s))
      | Over (Inl _) \<Rightarrow> True
      | p \<Rightarrow> set (take (lv_offset s + batch_of p) (pending_ids S (lv_view s))) \<subseteq>
          new_ids A new (lv_view s) \<union> ck_id ` set (to_go p))"

lemma take_insort: "set (take m (insort y xs)) \<subseteq> insert y (set (take m xs))"
proof (induction xs arbitrary: m)
  case (Cons x xs)
  show ?case
  proof (cases m)
    case (Suc k)
    have "set (take k (x # xs)) \<subseteq> set (take (Suc k) (x # xs))" by (rule set_take_subset_set_take) simp
    then show ?thesis using Cons.IH [of k] Suc by auto
  qed simp
qed (simp add: take_Cons')

lemma take_sort_append: "set (take m (sort (ys @ xs))) \<subseteq> set ys \<union> set (take m (sort xs))"
proof (induction ys)
  case (Cons y ys)
  then show ?case using take_insort [of m y "sort (ys @ xs)"] by auto
qed simp

lemma pending_ids_sort:
  "pending_ids S rows = sort (map dc_id (filter (\<lambda>r. dc_encrypted_content r \<noteq> None) (visible S rows)))"
  by (simp add: pending_def sort_key_map_ids)

lemma pending_ids_append: "pending_ids S (xs @ ys) = sort (pending_ids S ys @ pending_ids S xs)"
  unfolding pending_ids_sort by (intro properties_for_sort) (simp_all add: visible_def)

lemma pending_ids_reembed: "pending_ids S (map (reembed f) rows) = pending_ids S rows"
proof -
  have "map dc_id (filter (\<lambda>r. dc_encrypted_content r \<noteq> None) (visible S (map (reembed f) rows))) =
      map dc_id (filter (\<lambda>r. dc_encrypted_content r \<noteq> None) (visible S rows))"
    by (induction rows) (simp_all add: visible_def)
  then show ?thesis by (simp only: pending_ids_sort)
qed

lemma new_ids_pending: "all_new A new rows \<Longrightarrow> set (pending_ids S rows) \<subseteq> new_ids A new rows"
  by (auto simp: set_pending all_new_def new_ids_def)

lemma new_ids_reembed: "new_ids A new (map (reembed f) rows) = new_ids A new rows"
proof -
  have "{r \<in> reembed f ` set rows. new_readable A new (dc_encrypted_content r)} =
      reembed f ` {r \<in> set rows. new_readable A new (dc_encrypted_content r)}" by auto
  then show ?thesis by (simp add: new_ids_def image_image)
qed

lemma new_ids_append [simp]: "new_ids A new (xs @ ys) = new_ids A new xs \<union> new_ids A new ys"
  by (auto simp: new_ids_def)

lemma new_ids_Cons: "new_ids A new (r # rows) =
    (if new_readable A new (dc_encrypted_content r) then insert (dc_id r) (new_ids A new rows) else new_ids A new rows)"
  by (auto simp: new_ids_def)

lemma new_ids_evolves: "evolves A old new rows rows' \<Longrightarrow> new_ids A new rows \<subseteq> new_ids A new rows'"
  unfolding evolves_def
proof (induction rule: list_all2_induct)
  case (Cons r rows r' rows')
  from Cons.hyps(1) have "dc_id r' = dc_id r" by (simp add: row_place_def)
  moreover have "new_readable A new (dc_encrypted_content r) \<longrightarrow> new_readable A new (dc_encrypted_content r')"
    using Cons.hyps(1) by (auto simp: moved_def new_readable_def)
  ultimately show ?case using Cons.IH by (auto simp: new_ids_Cons)
qed simp

lemma all_new_iff:
  assumes "distinct (map dc_id rows)" and "set (pending_ids S rows) \<subseteq> new_ids A new rows"
  shows "all_new A new (visible S rows)"
  unfolding all_new_def
proof (intro ballI impI)
  fix r assume "r \<in> set (visible S rows)" "dc_encrypted_content r \<noteq> None"
  then have r: "r \<in> set rows" "dc_id r \<in> new_ids A new rows" using assms(2) by (auto simp: set_pending visible_def)
  then obtain q where "q \<in> set rows" "dc_id q = dc_id r" "new_readable A new (dc_encrypted_content q)"
    by (auto simp: new_ids_def)
  with r assms(1) show "new_readable A new (dc_encrypted_content r)" by (metis distinct_map inj_onD)
qed

lemma grows_edit:
  assumes "grows A new e rows" and "evolves A old new rows rows'"
  shows "apply_edit e rows' = map (reembed (ed_embeddings e)) rows' @ ed_inserted e"
proof -
  have "dc_id ` set rows' = dc_id ` set rows" using evolves_ids [OF assms(2)] by (metis set_map)
  then have "filter (\<lambda>r. dc_id r \<notin> ed_deleted e) rows' = rows'"
    using assms(1) by (auto simp: grows_def filter_id_conv)
  then show ?thesis by (simp add: apply_edit_def)
qed

lemma behind_grows:
  assumes "all_new A new new_rows" and "set (take m (pending_ids S rows)) \<subseteq> new_ids A new rows \<union> X"
  shows "set (take m (pending_ids S (map (reembed f) rows @ new_rows))) \<subseteq> new_ids A new (map (reembed f) rows @ new_rows) \<union> X"
proof -
  have "sort (pending_ids S rows) = pending_ids S rows"
    by (simp add: pending_def sort_key_map_ids sorted_sort_id)
  then have "set (take m (pending_ids S (map (reembed f) rows @ new_rows))) \<subseteq>
      set (pending_ids S new_rows) \<union> set (take m (pending_ids S rows))"
    using take_sort_append [of m "pending_ids S new_rows" "pending_ids S rows"]
    by (simp only: pending_ids_append pending_ids_reembed)
  also have "\<dots> \<subseteq> new_ids A new new_rows \<union> (new_ids A new rows \<union> X)"
    using new_ids_pending [OF assms(1)] assms(2) by (rule Un_mono)
  finally show ?thesis by (simp add: new_ids_reembed Un_commute Un_left_commute)
qed

lemma all_new_grows:
  "all_new A new (visible S rows) \<Longrightarrow> all_new A new new_rows \<Longrightarrow> all_new A new (visible S (map (reembed f) rows @ new_rows))"
  by (auto simp: all_new_def visible_def)

lemma behind_fetch:
  assumes "fetch_batch S rows offset bs = Inr batch"
  shows "set (take (offset + length batch) (pending_ids S rows)) = set (take offset (pending_ids S rows)) \<union> ck_id ` set batch"
proof -
  have batch: "batch = map to_chunk (take (nat bs) (drop offset (pending S rows)))"
    using assms by (auto simp: fetch_batch_def split: if_splits)
  have "take (length batch) (drop offset (pending S rows)) = take (nat bs) (drop offset (pending S rows))"
    by (cases "nat bs \<le> length (pending S rows) - offset") (simp_all add: batch min_def)
  then have "map dc_id (take (length batch) (drop offset (pending S rows))) = map ck_id batch"
    by (simp only: batch ck_id_to_chunk)
  then have "take (offset + length batch) (pending_ids S rows) = take offset (pending_ids S rows) @ map ck_id batch"
    by (simp add: take_add take_map drop_map)
  then show ?thesis by simp
qed

lemma behind_step:
  assumes "lstep E old new client bs (grows (ke_aead E) new) s s'" and "kr_env_ok E old new" and "0 < bs"
    and "live_inv (ke_session E) (ke_aead E) old new rows\<^sub>0 s" and "behind (ke_session E) (ke_aead E) new s"
  shows "behind (ke_session E) (ke_aead E) new s'"
  using assms(1)
proof (cases rule: lstep.cases)
  case fetch_empty
  have "drop (lv_offset s) (pending (ke_session E) (lv_rows s)) = []" using fetch_empty(4) assms(3)
    by (auto simp: fetch_batch_def split: if_splits)
  then have "take (lv_offset s) (pending_ids (ke_session E) (lv_rows s)) = pending_ids (ke_session E) (lv_rows s)" by simp
  then have "set (pending_ids (ke_session E) (lv_rows s)) \<subseteq> new_ids (ke_aead E) new (lv_rows s)"
    using assms(5) fetch_empty(2) by (simp add: behind_def)
  with all_new_iff assms(4) have "all_new (ke_aead E) new (visible (ke_session E) (lv_rows s))" by (auto simp: live_inv_def)
  with fetch_empty show ?thesis by (simp add: behind_def)
next
  case (fetch_some batch)
  with assms(5) behind_fetch [OF fetch_some(4)] show ?thesis by (auto simp: behind_def)
next
  case (begin_tx batch)
  with assms(5) show ?thesis by (simp add: behind_def)
next
  case (row_done c cs n tx L tx')
  let ?A = "ke_aead E"
  have ev: "evolves ?A old new (lv_rows s) (rt_rows tx)" and d: "distinct (map dc_id (lv_rows s))"
    and c: "coherent (ke_session E) c (rt_rows tx)" using assms(4) row_done(2) by (simp_all add: live_inv_def)
  have "distinct (map dc_id (rt_rows tx))" using d evolves_ids [OF ev] by simp
  note row = rotate_row_live [OF assms(2) this c row_done(3)]
  then have ev': "evolves ?A old new (rt_rows tx) (rt_rows tx')" by blast
  let ?t = "set (take (lv_offset s + n) (pending_ids (ke_session E) (rt_rows tx')))"
  have t: "?t \<subseteq> new_ids ?A new (rt_rows tx') \<union> insert (ck_id c) (ck_id ` set cs)"
    using assms(5) row_done(2) new_ids_evolves [OF ev']
    unfolding behind_def evolves_pending_ids [OF ev'] by auto
  have "ck_id c \<in> new_ids ?A new (rt_rows tx')" if "ck_id c \<in> ?t"
  proof -
    have "ck_id c \<in> dc_id ` set (rt_rows tx')" using in_set_takeD [OF that] by (auto simp: set_pending)
    then show ?thesis using row by (auto simp: new_ids_def)
  qed
  with t row_done show ?thesis by (auto simp: behind_def)
next
  case (commit_tx n tx L)
  with assms(5) show ?thesis by (simp add: behind_def)
next
  case (edit e)
  have an: "all_new (ke_aead E) new (ed_inserted e)" using edit(2) by (simp add: grows_def)
  have "evolves (ke_aead E) old new (lv_rows s) (lv_view s)" using assms(4) by (simp add: live_inv_def)
  note ap = grows_edit [OF edit(2) this] grows_edit [OF edit(2) evolves_refl]
  have b: "behind (ke_session E) (ke_aead E) new s" by (rule assms(5))
  note grow = behind_grows [OF an] behind_grows [OF an, where X = "{}", unfolded Un_empty_right]
  show ?thesis
  proof (cases "lv_phase s")
    case (Over r)
    with b ap an edit(1) show ?thesis
      by (cases r) (auto simp: behind_def edited_def all_new_grows)
  qed (use b ap an edit(1) grow in \<open>simp_all add: behind_def edited_def\<close>)
qed (auto simp: behind_def)

lemma behind_reach:
  assumes "(lstep E old new client bs (grows (ke_aead E) new))\<^sup>*\<^sup>* (live_start t rows) s"
    and "kr_env_ok E old new" and "distinct (map dc_id rows)" and "0 < bs"
  shows "behind (ke_session E) (ke_aead E) new s"
  using assms(1)
proof (induction rule: rtranclp_induct)
  case base
  then show ?case by (simp add: behind_def live_start_def)
next
  case (step u v)
  show ?case
    by (rule behind_step [OF step(2) assms(2,4) live_inv_reach [OF step(1) assms(2,3)] step(3)])
qed

section \<open>Beside a deletion: a skipped row\<close>

text \<open>The first of two rows is rotated and committed, its item is deleted, and the next fetch starts behind the second.\<close>

lemma rotate_first:
  assumes "kr_env_ok E old new" and "kr_smooth E new" and "dc_encrypted_content a = Some wa"
    and "old_readable (ke_aead E) old wa" and "dc_id a \<noteq> dc_id b" and "rt_rows u = [a, b]"
  shows "\<exists>u' a'. rotate_row E old new client (to_chunk a) u = Inr u' \<and> rt_rows u' = [a', b] \<and>
     row_place a' = row_place a \<and> rt_rotated u' = Suc (rt_rotated u) \<and> rt_skipped u' = rt_skipped u"
proof -
  obtain m where m: "kr_decrypt (ke_aead E) old wa = Inr m" using assms(4) by (auto simp: old_readable_def)
  then have "plain_of (ke_aead E) old new (ck_encrypted_content (to_chunk a)) \<noteq> None"
    using assms(3) by (simp add: to_chunk_def plain_of_def)
  from rotate_row_smooth [OF assms(1,2) this] obtain u' where run: "rotate_row E old new client (to_chunk a) u = Inr u'"
    by blast
  then obtain w where w: "write_back E client (to_chunk a) m w u = Inr u'"
    using m assms(3) by (auto simp: rotate_row_def to_chunk_def)
  note wb = write_back_sets_row [OF w]
  then have "list_all2 (\<lambda>r r'. row_place r' = row_place r \<and>
      (if dc_id r = dc_id a then dc_encrypted_content r' = Some w else r' = r)) [a, b] (rt_rows u')"
    using assms(2) by (simp add: sets_row_def to_chunk_def assms(6) kr_smooth_def sees_bypass cong: if_cong)
  then obtain a' where "rt_rows u' = [a', b]" "row_place a' = row_place a"
    using assms(5) by (auto simp: list_all2_Cons1)
  with run wb show ?thesis by blast
qed

lemma skip_run:
  assumes "kr_env_ok E old new" and "kr_smooth E new" and "dc_encrypted_content a = Some wa"
    and "dc_encrypted_content b = Some wb" and "old_readable (ke_aead E) old wa"
    and "dc_id a < dc_id b" and "dc_source_item_id a = Some i" and "dc_source_item_id b \<noteq> Some i"
    and P: "\<And>rows. P (replace_item i [] rows) rows"
  shows "\<exists>s. (lstep E old new client 1 P)\<^sup>*\<^sup>* (live_start t [a, b]) s \<and> lv_phase s = Over (Inr (1, 0)) \<and>
     lv_rows s = [b] \<and> lv_edits s = [replace_item i [] [a, b]]"
proof -
  have ne: "dc_id a \<noteq> dc_id b" using assms(6) by simp
  let ?step = "lstep E old new client 1 P" and ?s0 = "live_start t [a, b]"
  have nf: "\<not> ke_fails E k" for k using assms(2) by (simp add: kr_smooth_def)
  have all: "visible (ke_session E) rows = rows" for rows using assms(2) by (simp add: kr_smooth_def visible_bypass)
  have pend: "pending (ke_session E) [x, b] = [x, b]" if "row_place x = row_place a" "dc_encrypted_content x \<noteq> None" for x
    using that assms(4,6) by (simp add: pending_def all row_place_def)
  let ?u = "\<lparr>rt_rows = [a, b], rt_tick = t + 2, rt_rotated = 0, rt_skipped = 0\<rparr>"
  have "fetch_batch (ke_session E) [a, b] 0 1 = Inr [to_chunk a]"
    using pend [of a] assms(3) by (simp add: fetch_batch_def)
  then have "?step ?s0 (?s0\<lparr>lv_phase := Fetched [to_chunk a]\<rparr>)"
    using nf by (intro lstep.fetch_some) (simp_all add: live_start_def)
  moreover let ?s1 = "?s0\<lparr>lv_phase := Fetched [to_chunk a]\<rparr>"
  have "?step ?s1 (?s0\<lparr>lv_phase := Writing [to_chunk a] 1 ?u {}\<rparr>)"
    using lstep.begin_tx [of ?s1 "[to_chunk a]" E old new client 1 P] nf by (simp add: live_start_def)
  moreover let ?s2 = "?s0\<lparr>lv_phase := Writing [to_chunk a] 1 ?u {}\<rparr>"
  obtain u' a' where u': "rotate_row E old new client (to_chunk a) ?u = Inr u'" "rt_rows u' = [a', b]"
    "row_place a' = row_place a" "rt_rotated u' = 1" "rt_skipped u' = 0"
    using rotate_first [OF assms(1,2,3,5) ne, of ?u client] by auto
  then have "?step ?s2 (?s0\<lparr>lv_phase := Writing [] 1 u' {ck_id (to_chunk a)}\<rparr>)"
    using lstep.row_done [of ?s2 "to_chunk a" "[]" 1 ?u "{}" E old new client u' 1 P] by simp
  moreover let ?s3 = "?s0\<lparr>lv_phase := Writing [] 1 u' {ck_id (to_chunk a)}\<rparr>"
  let ?s4 = "?s0\<lparr>lv_run := u'\<lparr>rt_tick := rt_tick u' + 1\<rparr>, lv_offset := 1\<rparr>"
  have "?step ?s3 ?s4"
    using lstep.commit_tx [of ?s3 1 u' "{ck_id (to_chunk a)}" E old new client 1 P] nf by (simp add: live_start_def)
  moreover let ?e = "replace_item i [] (lv_rows ?s4)"
  have "edit_ok ?e ?s4" by (simp add: live_start_def edit_ok_def replace_item_def)
  then have "?step ?s4 (edited ?e ?s4)" by (intro lstep.edit P)
  moreover let ?s5 = "edited ?e ?s4"
  have items: "item_rows i [a', b] = [a']" "item_rows i [a, b] = [a]" "dc_id a' = dc_id a"
    using u' assms(7,8) by (simp_all add: item_rows_def row_place_def)
  have rows: "lv_rows ?s5 = [b]" "lv_offset ?s5 = 1" "lv_phase ?s5 = Fetching"
    using u' assms(7,8) items ne by (simp_all add: edited_def apply_edit_def replace_item_def live_start_def)
  have "fetch_batch (ke_session E) [b] 1 1 = Inr []" by (simp add: fetch_batch_def pending_def all)
  then have "?step ?s5 (?s5\<lparr>lv_phase := Over (Inr (rt_rotated (lv_run ?s5), rt_skipped (lv_run ?s5)))\<rparr>)"
    using rows nf by (intro lstep.fetch_empty) simp_all
  ultimately have "?step\<^sup>*\<^sup>* ?s0 (?s5\<lparr>lv_phase := Over (Inr (rt_rotated (lv_run ?s5), rt_skipped (lv_run ?s5)))\<rparr>)"
    by (meson converse_rtranclp_into_rtranclp rtranclp.rtrancl_refl)
  moreover have "rt_rotated (lv_run ?s5) = 1" "rt_skipped (lv_run ?s5) = 0" "lv_edits ?s5 = [replace_item i [] [a, b]]"
    using u' items by (simp_all add: edited_def live_start_def replace_item_def)
  ultimately show ?thesis using rows
    by (intro exI [of _ "?s5\<lparr>lv_phase := Over (Inr (1, 0))\<rparr>"]) simp
qed

section \<open>Properties\<close>

text \<open>
  C4. The rotation does not disturb programs that delete rows, insert rows with new identifiers and replace
  embeddings (all that the daemon and the gateway do to the table): whatever such statements they commit
  between those of the tool, whatever fails and wherever the tool stops, the committed table is, up to the
  key of each content and the embeddings, the one their statements alone would have made: the same rows in the same
  places, and the same plaintext in each content column. Other updates of the content are not covered.
\<close>

theorem rotation_undetected:
  assumes "(lstep E old new client bs P)\<^sup>*\<^sup>* (live_start t rows) s" and "kr_env_ok E old new"
    and "distinct (map dc_id rows)"
  shows "plain_view (ke_aead E) old new (lv_rows s) =
     plain_view (ke_aead E) old new (fold apply_edit (lv_edits s) rows)"
  using live_inv_reach [OF assms] by (simp add: live_inv_def)

text \<open>
  C32. Beside programs that already write under the new key and delete nothing, the rotation is complete: with
  a positive batch size, once the loop has ended without an error, every content of a row that the tool's
  session sees, those added meanwhile included, opens under the new key; these are all rows when
  its role is not restricted by row-level security.
\<close>

theorem rotation_complete_beside_inserts:
  assumes "(lstep E old new client bs (grows (ke_aead E) new))\<^sup>*\<^sup>* (live_start t rows) s"
    and "kr_env_ok E old new" and "distinct (map dc_id rows)" and "0 < bs" and "lv_phase s = Over (Inr counts)"
  shows "all_new (ke_aead E) new (visible (ke_session E) (lv_rows s)) \<and>
     (ss_bypass (ke_session E) \<longrightarrow> all_new (ke_aead E) new (lv_rows s))"
proof -
  have "all_new (ke_aead E) new (visible (ke_session E) (lv_rows s))"
    using behind_reach [OF assms(1-4)] assms(5) by (simp add: behind_def)
  then show ?thesis using visible_bypass by metis
qed

text \<open>
  C33. Beside a deletion it is not: the batches are found by their offset among the rows that are left, so
  that an item deleted between two batches moves the rows behind it forward. With a batch size of 1 and two
  rows under the old key, the deletion of the first one's item after its batch makes the tool end without
  an error, and the other row is still under the old key.
\<close>

theorem deletion_hides_row:
  assumes "kr_env_ok E old new" and "kr_smooth E new" and "dc_encrypted_content a = Some wa"
    and "dc_encrypted_content b = Some wb" and "old_readable (ke_aead E) old wa"
    and "\<not> new_readable (ke_aead E) new (Some wb)"
    and "dc_id a < dc_id b" and "dc_source_item_id a = Some i" and "dc_source_item_id b \<noteq> Some i"
  shows "\<exists>s. (lstep E old new client 1 (\<lambda>e rows. e = replace_item i [] rows))\<^sup>*\<^sup>* (live_start t [a, b]) s \<and>
     lv_phase s = Over (Inr (1, 0)) \<and> lv_rows s = [b] \<and> \<not> all_new (ke_aead E) new (lv_rows s)"
proof -
  obtain s where "(lstep E old new client 1 (\<lambda>e rows. e = replace_item i [] rows))\<^sup>*\<^sup>* (live_start t [a, b]) s"
    "lv_phase s = Over (Inr (1, 0))" "lv_rows s = [b]"
    using skip_run [OF assms(1-5,7-9), of "\<lambda>e rows. e = replace_item i [] rows"] by auto
  moreover have "\<not> all_new (ke_aead E) new [b]" using assms(4,6) by (simp add: all_new_def)
  ultimately show ?thesis by metis
qed

section \<open>Concrete runs\<close>

definition live_toy_row :: "uuid \<Rightarrow> string \<Rightarrow> u8 \<Rightarrow> doc_chunk" where
  "live_toy_row n item k = (kr_toy_row n k)\<lparr>dc_source_item_id := Some item\<rparr>"

lemma live_toy_content:
  "dc_encrypted_content (live_toy_row n item k) = Some (replicate 12 1 @ [104, 105] @ replicate 16 k)"
  "dc_id (live_toy_row n item k) = n" "dc_source_item_id (live_toy_row n item k) = Some item"
  by (simp_all add: live_toy_row_def kr_toy_row_def)

lemma live_toy_reads:
  "old_readable (ke_aead kr_toy) (replicate 32 7) (replicate 12 1 @ [104, 105] @ replicate 16 7)"
  "\<not> new_readable (ke_aead kr_toy) (replicate 32 9) (Some (replicate 12 1 @ [104, 105] @ replicate 16 7))"
  by (simp_all add: old_readable_def new_readable_def kr_toy_def kr_decrypt_def MIN_LEN_def IV_LEN_def toy_aead_def)

theorem deletion_hides_row_witness:
  "\<exists>s. (lstep kr_toy (replicate 32 7) (replicate 32 9) None 1 (\<lambda>e rows. e = replace_item ''i'' [] rows))\<^sup>*\<^sup>*
       (live_start 2 [live_toy_row 1 ''i'' 7, live_toy_row 2 ''j'' 7]) s \<and>
     lv_phase s = Over (Inr (1, 0)) \<and> lv_rows s = [live_toy_row 2 ''j'' 7]"
  using deletion_hides_row [OF kr_toy_ok kr_toy_smooth live_toy_content(1) [of 1 "''i''" 7]
      live_toy_content(1) [of 2 "''j''" 7] live_toy_reads,
      of "''i''" None 2]
  by (simp add: live_toy_content) blast

theorem rotation_undetected_witness:
  "\<exists>s. lv_phase s = Over (Inr (1, 0)) \<and> lv_edits s = [replace_item ''i'' [] [live_toy_row 1 ''i'' 7, live_toy_row 2 ''j'' 7]] \<and>
     plain_view toy_aead (replicate 32 7) (replicate 32 9) (lv_rows s) =
     plain_view toy_aead (replicate 32 7) (replicate 32 9) [live_toy_row 2 ''j'' 7]"
proof -
  obtain s where s: "(lstep kr_toy (replicate 32 7) (replicate 32 9) None 1 (\<lambda>e rows. True))\<^sup>*\<^sup>*
       (live_start 2 [live_toy_row 1 ''i'' 7, live_toy_row 2 ''j'' 7]) s"
    "lv_phase s = Over (Inr (1, 0))" "lv_edits s = [replace_item ''i'' [] [live_toy_row 1 ''i'' 7, live_toy_row 2 ''j'' 7]]"
    using skip_run [OF kr_toy_ok kr_toy_smooth live_toy_content(1) [of 1 "''i''" 7]
      live_toy_content(1) [of 2 "''j''" 7] live_toy_reads(1),
        of "''i''" "\<lambda>e rows. True" None 2] by (simp add: live_toy_content) blast
  have "fold apply_edit [replace_item ''i'' [] [live_toy_row 1 ''i'' 7, live_toy_row 2 ''j'' 7]] [live_toy_row 1 ''i'' 7, live_toy_row 2 ''j'' 7] = [live_toy_row 2 ''j'' 7]"
    by (simp add: apply_edit_def replace_item_def item_rows_def live_toy_content)
  with rotation_undetected [OF s(1) kr_toy_ok] s show ?thesis
    by (auto simp: live_toy_content kr_toy_def)
qed

theorem rotation_complete_beside_inserts_witness:
  "\<exists>s counts. lv_phase s = Over (Inr counts) \<and> lv_edits s = [\<lparr>ed_deleted = {}, ed_embeddings = (\<lambda>_. None), ed_inserted = [live_toy_row 2 ''j'' 9]\<rparr>] \<and>
     all_new toy_aead (replicate 32 9) (lv_rows s)"
proof -
  let ?step = "lstep kr_toy (replicate 32 7) (replicate 32 9) None 1 (grows (ke_aead kr_toy) (replicate 32 9))"
  let ?e = "\<lparr>ed_deleted = {}, ed_embeddings = (\<lambda>_. None), ed_inserted = [live_toy_row 2 ''j'' 9]\<rparr>" and ?s = "live_start 2 [live_toy_row 1 ''i'' 7]"
  let ?rows = "[live_toy_row 1 ''i'' 7, live_toy_row 2 ''j'' 9]"
  let ?u = "\<lparr>rt_rows = ?rows, rt_tick = 2, rt_rotated = 0, rt_skipped = 0\<rparr>"
  have "?step ?s (edited ?e ?s)"
    by (rule lstep.edit)
      (simp_all add: grows_def edit_ok_def live_start_def live_toy_content all_new_def new_readable_def
        kr_decrypt_def MIN_LEN_def IV_LEN_def kr_toy_def toy_aead_def)
  moreover have "readable (ke_aead kr_toy) (replicate 32 7) (replicate 32 9) ?rows"
    by (simp add: readable_def live_toy_content plain_of_def kr_decrypt_def MIN_LEN_def IV_LEN_def kr_toy_def toy_aead_def)
  then obtain c rows' where run: "rotate_loop kr_toy (replicate 32 7) (replicate 32 9) None 1 0 ?u = (Inr c, rows')"
    using rotate_loop_smooth [OF kr_toy_ok kr_toy_smooth, of ?u 1 None 0]
    by (auto simp: live_toy_content) (metis prod.collapse)
  have "lv_run (edited ?e ?s) = ?u" "lv_offset (edited ?e ?s) = 0" "lv_phase (edited ?e ?s) = Fetching"
    by (simp_all add: edited_def live_start_def apply_edit_def live_toy_content)
  from undisturbed [OF run this] obtain s' where s': "?step\<^sup>*\<^sup>* (edited ?e ?s) s'" "lv_phase s' = Over (Inr c)"
    "lv_edits s' = lv_edits (edited ?e ?s)" unfolding ends_def by blast
  ultimately have "?step\<^sup>*\<^sup>* ?s s'" by (meson converse_rtranclp_into_rtranclp)
  from rotation_complete_beside_inserts [OF this kr_toy_ok _ _ s'(2)] s' show ?thesis
    by (intro exI [of _ s'] exI [of _ c]) (simp add: edited_def live_start_def kr_toy_def)
qed

end
