(* ===== verification/Sanitize.thy ===== *)
theory Sanitize
  imports Rust_Str "HOL-Library.Product_Lexorder" "HOL-Library.Multiset"
begin

text \<open>
  The core of the PII sanitizer, \<open>ingestion/src/sanitize/mod.rs\<close>: entity kinds, spans, the
  greedy-left-longest choice among overlapping spans (\<open>merge_and_dedup\<close>) and the rebuilding of the
  text with a token for each span (\<open>substitute\<close>).

  Spans are byte ranges, texts are UTF-8 byte strings (theory \<open>Rust_Str\<close>), and every slice of the
  code is a \<open>str_slice\<close>, which panics out of range or off a character boundary. The vault, when a
  context has one, is a function on a state of its own (\<open>'s\<close>: the database); theory \<open>Vault\<close>
  provides it. \<open>pieces\<close> is the specification \<open>substitute\<close> is proved against.
\<close>

section \<open>Kinds and spans\<close>

datatype entity_kind = Nir | Iban | Phone | Email | Uuid | Person | Org | Loc

fun as_label :: "entity_kind \<Rightarrow> string" where
  "as_label Nir = ''NIR''"
| "as_label Iban = ''IBAN''"
| "as_label Phone = ''PHONE''"
| "as_label Email = ''EMAIL''"
| "as_label Uuid = ''UUID''"
| "as_label Person = ''PERSON''"
| "as_label Org = ''ORG''"
| "as_label Loc = ''LOC''"

lemma as_label_inj: "inj as_label"
  by (rule injI) (case_tac x; case_tac y; simp)

lemma as_label_ascii: "\<forall>c \<in> set (as_label k). (of_char c :: nat) < 128"
  by (cases k) simp_all

record span =
  sp_start :: nat
  sp_end :: nat
  sp_kind :: entity_kind

definition sp_len :: "span \<Rightarrow> nat" where
  "sp_len s = sp_end s - sp_start s"

definition sp_is_empty :: "span \<Rightarrow> bool" where
  "sp_is_empty s \<longleftrightarrow> sp_end s \<le> sp_start s"

lemma sp_is_empty_len: "sp_is_empty s \<longleftrightarrow> sp_len s = 0"
  by (simp add: sp_is_empty_def sp_len_def)

section \<open>merge_and_dedup\<close>

text \<open>The order of the sort: start ascending, then length descending; the sort is stable.\<close>

definition span_key :: "span \<Rightarrow> nat \<times> int" where
  "span_key s = (sp_start s, - int (sp_len s))"

fun dedup_loop :: "nat \<Rightarrow> span list \<Rightarrow> span list" where
  "dedup_loop cursor [] = []"
| "dedup_loop cursor (s # ss) =
     (if sp_start s < cursor then dedup_loop cursor ss else s # dedup_loop (sp_end s) ss)"

definition merge_and_dedup :: "span list \<Rightarrow> span list" where
  "merge_and_dedup spans =
     (if spans = [] then spans else dedup_loop 0 (sort_key span_key spans))"

section \<open>render_token and substitute\<close>

type_synonym 's vault_fn = "uuid \<Rightarrow> entity_kind \<Rightarrow> string \<Rightarrow> 's \<Rightarrow> (unit + string) \<times> 's"

record 's sanitize_ctx =
  sc_workspace_id :: uuid
  sc_vault :: "'s vault_fn option"

text \<open>The manual \<open>Debug\<close>: the fields it prints; \<open>show_uuid\<close> is the \<open>uuid\<close> crate's own.\<close>

definition debug_sanitize_ctx :: "(uuid \<Rightarrow> string) \<Rightarrow> 's sanitize_ctx \<Rightarrow> (string \<times> string) list" where
  "debug_sanitize_ctx show_uuid ctx =
     [(''workspace_id'', show_uuid (sc_workspace_id ctx)), (''vault'', ''<redacted>'')]"

definition placeholder_only :: "uuid \<Rightarrow> 's sanitize_ctx" where
  "placeholder_only ws = \<lparr>sc_workspace_id = ws, sc_vault = None\<rparr>"

definition placeholder :: "entity_kind \<Rightarrow> string" where
  "placeholder k = ''[PII:'' @ as_label k @ '']''"

definition render_token :: "'s sanitize_ctx \<Rightarrow> string \<Rightarrow> entity_kind \<Rightarrow> 's \<Rightarrow> string \<times> 's" where
  "render_token ctx raw kind st =
     (case sc_vault ctx of
        Some v \<Rightarrow> (case v (sc_workspace_id ctx) kind raw st of
            (Inr tok, st') \<Rightarrow> (tok, st')
          | (Inl _, st') \<Rightarrow> (placeholder kind, st'))
      | None \<Rightarrow> (placeholder kind, st))"

fun subst_loop :: "'s sanitize_ctx \<Rightarrow> string \<Rightarrow> span list \<Rightarrow> nat \<Rightarrow> string \<Rightarrow> 's \<Rightarrow> (string \<times> 's) run" where
  "subst_loop ctx txt [] cursor out st =
     run_bind (str_slice_from cursor txt) (\<lambda>rest. Returns (out @ rest, st))"
| "subst_loop ctx txt (s # ss) cursor out st =
     (if length txt < sp_start s \<or> length txt < sp_end s then subst_loop ctx txt ss cursor out st
      else if \<not> is_char_boundary txt (sp_start s) \<or> \<not> is_char_boundary txt (sp_end s)
        then subst_loop ctx txt ss cursor out st
      else run_bind (str_slice cursor (sp_start s) txt) (\<lambda>gap.
        run_bind (str_slice (sp_start s) (sp_end s) txt) (\<lambda>raw.
          let (tok, st') = render_token ctx raw (sp_kind s) st in
          subst_loop ctx txt ss (sp_end s) (out @ gap @ tok) st')))"

definition substitute :: "string \<Rightarrow> span list \<Rightarrow> 's sanitize_ctx \<Rightarrow> 's \<Rightarrow> (string \<times> 's) run" where
  "substitute txt spans ctx st = subst_loop ctx txt spans 0 [] st"

section \<open>sanitize\<close>

text \<open>
  \<open>Cow<str>\<close>, and what the three compile-time shapes of \<open>sanitize\<close> do with the spans found:
  \<open>sanitize_off\<close> is shape (a), \<open>sanitize_spans\<close> the common tail of (b) and (c).
\<close>

datatype cow = Borrowed string | Owned string

fun cow_str :: "cow \<Rightarrow> string" where
  "cow_str (Borrowed s) = s"
| "cow_str (Owned s) = s"

definition sanitize_off :: "string \<Rightarrow> 's sanitize_ctx \<Rightarrow> cow" where
  "sanitize_off txt ctx = Borrowed txt"

definition sanitize_spans :: "span list \<Rightarrow> string \<Rightarrow> 's sanitize_ctx \<Rightarrow> 's \<Rightarrow> (cow \<times> 's) run" where
  "sanitize_spans spans txt ctx st =
     (let merged = merge_and_dedup spans in
      if merged = [] then Returns (Borrowed txt, st)
      else run_map (\<lambda>(s, st'). (Owned s, st')) (substitute txt merged ctx st))"

section \<open>merge_and_dedup: proofs\<close>

text \<open>Sorted, forward and disjoint: each span ends before the next one starts.\<close>

definition forward :: "span list \<Rightarrow> bool" where
  "forward ss \<longleftrightarrow> (\<forall>s \<in> set ss. sp_start s \<le> sp_end s)"

definition disjoint_spans :: "span list \<Rightarrow> bool" where
  "disjoint_spans ss \<longleftrightarrow> sorted_wrt (\<lambda>a b. sp_end a \<le> sp_start b) ss"

lemma dedup_loop_subset: "set (dedup_loop c ss) \<subseteq> set ss"
  by (induction c ss rule: dedup_loop.induct) auto

lemma dedup_loop_mset: "mset (dedup_loop c ss) \<subseteq># mset ss"
proof (induction c ss rule: dedup_loop.induct)
  case (2 c s ss)
  have "mset ss \<subseteq># mset (s # ss)" by simp
  with 2 show ?case by (auto intro: subset_mset.order_trans)
qed simp

lemma dedup_loop_above:
  assumes "forward ss" and "s \<in> set (dedup_loop c ss)"
  shows "c \<le> sp_start s"
  using assms
proof (induction c ss rule: dedup_loop.induct)
  case (2 c t ss)
  then show ?case by (cases "sp_start t < c") (fastforce simp: forward_def)+
qed simp

lemma dedup_loop_disjoint: "forward ss \<Longrightarrow> disjoint_spans (dedup_loop c ss)"
proof (induction c ss rule: dedup_loop.induct)
  case (2 c t ss)
  then show ?case
    using dedup_loop_above [of ss _ "sp_end t"] by (auto simp: forward_def disjoint_spans_def)
qed (simp add: disjoint_spans_def)

text \<open>
  A span that is dropped starts inside a span kept before it; equal starts keep the longest.
\<close>

lemma dedup_loop_covers:
  assumes "sorted (map span_key ss)" and "s \<in> set ss" and "s \<notin> set (dedup_loop c ss)"
  shows "sp_start s < c \<or> (\<exists>k \<in> set (dedup_loop c ss).
     sp_start k \<le> sp_start s \<and> sp_start s < sp_end k \<and> (sp_start k = sp_start s \<longrightarrow> sp_len s \<le> sp_len k))"
  using assms
proof (induction c ss rule: dedup_loop.induct)
  case (2 c t ss)
  show ?case
  proof (cases "sp_start t < c")
    case True
    with 2 show ?thesis by auto
  next
    case False
    with 2(5) have s: "s \<in> set ss" "s \<notin> set (dedup_loop (sp_end t) ss)" using 2(4) by auto
    have "span_key t \<le> span_key s" using 2(3) s(1) by simp
    then have "sp_start t \<le> sp_start s" "sp_start t = sp_start s \<longrightarrow> sp_len s \<le> sp_len t"
      by (auto simp: span_key_def less_eq_prod_def)
    moreover from 2(2) [OF False _ s] 2(3)
    have "sp_start s < sp_end t \<or> (\<exists>k \<in> set (dedup_loop (sp_end t) ss).
       sp_start k \<le> sp_start s \<and> sp_start s < sp_end k \<and> (sp_start k = sp_start s \<longrightarrow> sp_len s \<le> sp_len k))"
      by simp
    ultimately show ?thesis using False by auto
  qed
qed simp

lemma forward_sort [simp]: "forward (sort_key f ss) = forward ss"
  by (simp add: forward_def)

lemma merge_subset: "set (merge_and_dedup ss) \<subseteq> set ss"
  using dedup_loop_subset [of 0 "sort_key span_key ss"] by (auto simp: merge_and_dedup_def)

lemma merge_disjoint: "forward ss \<Longrightarrow> disjoint_spans (merge_and_dedup ss)"
  using dedup_loop_disjoint [of "sort_key span_key ss" 0]
  by (simp add: merge_and_dedup_def disjoint_spans_def)

lemma merge_forward: "forward ss \<Longrightarrow> forward (merge_and_dedup ss)"
  using merge_subset [of ss] by (auto simp: forward_def)

lemma merge_covers:
  assumes "s \<in> set ss" and "s \<notin> set (merge_and_dedup ss)"
  shows "\<exists>k \<in> set (merge_and_dedup ss). sp_start k \<le> sp_start s \<and> sp_start s < sp_end k \<and>
     (sp_start k = sp_start s \<longrightarrow> sp_len s \<le> sp_len k)"
  using dedup_loop_covers [of "sort_key span_key ss" s 0] assms
  by (auto simp: merge_and_dedup_def split: if_splits)

lemma merge_Nil [simp]: "merge_and_dedup ss = [] \<longleftrightarrow> ss = []"
proof (cases ss)
  case (Cons s ss')
  then show ?thesis using merge_covers [of s ss] by fastforce
qed (simp add: merge_and_dedup_def)

lemma merge_id:
  assumes "disjoint_spans ss" and "forward ss" and "\<forall>s \<in> set ss. \<not> sp_is_empty s"
  shows "merge_and_dedup ss = ss"
proof -
  have srt: "sorted (map span_key ss)"
    using assms unfolding disjoint_spans_def forward_def sorted_wrt_map sp_is_empty_def
    by (induction ss) (fastforce simp: span_key_def less_eq_prod_def)+
  have "dedup_loop c ss = ss" if "\<forall>s \<in> set ss. c \<le> sp_start s" for c
    using assms(1) that unfolding disjoint_spans_def
  proof (induction ss arbitrary: c)
    case (Cons s ss)
    then show ?case by simp
  qed simp
  with srt show ?thesis by (simp add: merge_and_dedup_def sort_key_id_if_sorted)
qed

section \<open>substitute: proofs\<close>

text \<open>The spans a text admits: in range and on character boundaries.\<close>

definition span_in :: "string \<Rightarrow> span \<Rightarrow> bool" where
  "span_in txt s \<longleftrightarrow> sp_start s \<le> sp_end s \<and> sp_end s \<le> length txt \<and>
     is_char_boundary txt (sp_start s) \<and> is_char_boundary txt (sp_end s)"

text \<open>
  The specification: the text between the spans is kept byte for byte, the bytes of each span are
  replaced by what \<open>render_token\<close> makes of them, left to right.
\<close>

fun pieces :: "'s sanitize_ctx \<Rightarrow> string \<Rightarrow> span list \<Rightarrow> nat \<Rightarrow> 's \<Rightarrow> string \<times> 's" where
  "pieces ctx txt [] c st = (drop c txt, st)"
| "pieces ctx txt (s # ss) c st =
     (let (tok, st\<^sub>1) = render_token ctx (slice (sp_start s) (sp_end s) txt) (sp_kind s) st;
          (rest, st\<^sub>2) = pieces ctx txt ss (sp_end s) st\<^sub>1
      in (slice c (sp_start s) txt @ tok @ rest, st\<^sub>2))"

lemma str_slice_ok:
  "a \<le> b \<Longrightarrow> b \<le> length s \<Longrightarrow> is_char_boundary s a \<Longrightarrow> is_char_boundary s b \<Longrightarrow>
     str_slice a b s = Returns (slice a b s)"
  by (simp add: str_slice_def)

lemma subst_loop_pieces:
  assumes "\<forall>s \<in> set ss. span_in txt s" and "disjoint_spans ss"
    and "c \<le> length txt" and "is_char_boundary txt c" and "\<forall>s \<in> set ss. c \<le> sp_start s"
  shows "subst_loop ctx txt ss c out st =
     Returns (out @ fst (pieces ctx txt ss c st), snd (pieces ctx txt ss c st))"
  using assms
proof (induction ss arbitrary: c out st)
  case Nil
  then show ?case by (simp add: str_slice_from_def str_slice_ok slice_def)
next
  case (Cons s ss)
  have s: "sp_start s \<le> sp_end s" "sp_end s \<le> length txt" "c \<le> sp_start s"
    "is_char_boundary txt (sp_start s)" "is_char_boundary txt (sp_end s)"
    using Cons.prems by (simp_all add: span_in_def)
  have "\<forall>t \<in> set ss. sp_end s \<le> sp_start t" "disjoint_spans ss"
    using Cons.prems(2) by (simp_all add: disjoint_spans_def)
  note ih = Cons.IH [OF _ this(2) s(2,5) this(1)]
  show ?case
    using s Cons.prems(1,4) ih by (simp add: str_slice_ok split: prod.split)
qed

lemma substitute_pieces:
  assumes "\<forall>s \<in> set ss. span_in txt s" and "disjoint_spans ss"
  shows "substitute txt ss ctx st = Returns (pieces ctx txt ss 0 st)"
  using subst_loop_pieces [OF assms, of 0 ctx "[]" st] by (simp add: substitute_def)

text \<open>The vault answers with strings.\<close>

definition vault_strs :: "'s sanitize_ctx \<Rightarrow> bool" where
  "vault_strs ctx \<longleftrightarrow> (\<forall>v. sc_vault ctx = Some v \<longrightarrow> (\<forall>ws k raw st tok st'. v ws k raw st = (Inr tok, st') \<longrightarrow> is_str tok))"

lemma placeholder_str [simp]: "is_str (placeholder k)"
proof -
  have "\<forall>c \<in> set (placeholder k). (of_char c :: nat) < 128"
    using as_label_ascii [of k] by (auto simp: placeholder_def)
  then show ?thesis by (simp add: ascii_is_str)
qed

lemma render_token_str:
  assumes "vault_strs ctx"
  shows "is_str (fst (render_token ctx raw k st))"
proof (cases "sc_vault ctx")
  case None
  then show ?thesis by (simp add: render_token_def)
next
  case (Some v)
  obtain r st' where r: "v (sc_workspace_id ctx) k raw st = (r, st')" by (metis surj_pair)
  then have "is_str tok" if "r = Inr tok" for tok
    using assms Some that unfolding vault_strs_def by blast
  with r Some show ?thesis by (cases r) (simp_all add: render_token_def)
qed

lemma boundary_drop: "is_char_boundary s i \<Longrightarrow> a \<le> i \<Longrightarrow> a \<le> length s \<Longrightarrow> is_char_boundary (drop a s) (i - a)"
  by (auto simp: is_char_boundary_def split: if_splits)

lemma slice_str:
  assumes "is_str s" and "a \<le> b" and "b \<le> length s" and "is_char_boundary s a" and "is_char_boundary s b"
  shows "is_str (slice a b s)"
proof -
  have "is_str (drop a s)" using is_str_split [OF assms(1,4)] assms(2,3) by simp
  from is_str_split(1) [OF this boundary_drop [OF assms(5,2)]] assms(2,3) show ?thesis
    by (simp add: slice_def)
qed

lemma pieces_str:
  assumes "is_str txt" and "vault_strs ctx" and "\<forall>s \<in> set ss. span_in txt s" and "disjoint_spans ss"
    and "c \<le> length txt" and "is_char_boundary txt c" and "\<forall>s \<in> set ss. c \<le> sp_start s"
  shows "is_str (fst (pieces ctx txt ss c st))"
  using assms(3-7)
proof (induction ss arbitrary: c st)
  case Nil
  then show ?case using is_str_split(2) [OF assms(1)] by simp
next
  case (Cons s ss)
  have s: "sp_start s \<le> sp_end s" "sp_end s \<le> length txt" "c \<le> sp_start s"
    "is_char_boundary txt (sp_start s)" "is_char_boundary txt (sp_end s)"
    using Cons.prems by (simp_all add: span_in_def)
  have "\<forall>t \<in> set ss. sp_end s \<le> sp_start t" "disjoint_spans ss"
    using Cons.prems(2) by (simp_all add: disjoint_spans_def)
  note ih = Cons.IH [OF _ this(2) s(2,5) this(1)]
  have "is_str (slice c (sp_start s) txt)"
    using slice_str [OF assms(1) s(3) _ Cons.prems(4) s(4)] s(1,2) by simp
  moreover have "is_str (fst (render_token ctx raw k st'))" for raw k st'
    by (rule render_token_str [OF assms(2)])
  ultimately show ?case using ih Cons.prems(1)
    by (auto simp: is_str_append split: prod.split) (metis fst_conv is_str_append)
qed

section \<open>The interface of a scanner\<close>

text \<open>
  What the sanitizer relies on of a scanner: its spans lie in the text, on character boundaries. The
  regex scanner and the NER scanner interpret the locale in their theories.
\<close>

locale span_scanner =
  fixes ok :: "'p \<Rightarrow> bool" and spans_of :: "'p \<Rightarrow> string \<Rightarrow> span list"
  assumes spans_in: "ok p \<Longrightarrow> is_str txt \<Longrightarrow> s \<in> set (spans_of p txt) \<Longrightarrow> span_in txt s"
begin

lemma spans_forward: "ok p \<Longrightarrow> is_str txt \<Longrightarrow> forward (spans_of p txt)"
  using spans_in by (fastforce simp: forward_def span_in_def)

lemma merged_in: "ok p \<Longrightarrow> is_str txt \<Longrightarrow> s \<in> set (merge_and_dedup (spans_of p txt)) \<Longrightarrow> span_in txt s"
  using merge_subset [of "spans_of p txt"] spans_in by blast

text \<open>Sanitizing with the spans of a scanner never panics.\<close>

lemma sanitize_returns:
  assumes "ok p" and "is_str txt"
  shows "sanitize_spans (spans_of p txt) txt ctx st =
     (if spans_of p txt = [] then Returns (Borrowed txt, st)
      else Returns (map_prod Owned id (pieces ctx txt (merge_and_dedup (spans_of p txt)) 0 st)))"
proof -
  have "\<forall>s \<in> set (merge_and_dedup (spans_of p txt)). span_in txt s" using merged_in [OF assms] by blast
  from substitute_pieces [OF this merge_disjoint [OF spans_forward [OF assms]], of ctx st]
  show ?thesis by (simp add: sanitize_spans_def Let_def map_prod_def split: prod.split)
qed

lemma sanitize_str:
  assumes "ok p" and "is_str txt" and "vault_strs ctx"
    and "sanitize_spans (spans_of p txt) txt ctx st = Returns (c, st')"
  shows "is_str (cow_str c)"
proof -
  have "\<forall>s \<in> set (merge_and_dedup (spans_of p txt)). span_in txt s"
    using merged_in [OF assms(1,2)] by blast
  from pieces_str [OF assms(2,3) this merge_disjoint [OF spans_forward [OF assms(1,2)]], of 0]
  show ?thesis
    using assms(2,4) sanitize_returns [OF assms(1,2), of ctx st]
    by (auto simp: map_prod_def split: if_splits prod.splits) (metis fst_conv)
qed

end

text \<open>Spans that were checked against a text: the scanner that returns those of them that fit.\<close>

definition fitting :: "span list \<Rightarrow> string \<Rightarrow> span list" where
  "fitting ss txt = filter (span_in txt) ss"

interpretation fit: span_scanner "\<lambda>_. True" fitting
  by unfold_locales (simp add: fitting_def)

section \<open>Properties\<close>

text \<open>
  C19. \<open>merge_and_dedup\<close> returns some of the given spans, in order and disjoint, and every span it
  drops starts inside one it keeps, which starts no later and, when they start together, is at least
  as long (greedy, left, longest).
\<close>

theorem merge_greedy_left_longest:
  assumes "forward spans"
  shows "let out = merge_and_dedup spans in
     disjoint_spans out \<and> mset out \<subseteq># mset spans \<and>
     (\<forall>s \<in> set spans. s \<in> set out \<or>
        (\<exists>k \<in> set out. sp_start k \<le> sp_start s \<and> sp_start s < sp_end k \<and>
           (sp_start k = sp_start s \<longrightarrow> sp_len s \<le> sp_len k)))"
proof -
  have "mset (merge_and_dedup spans) \<subseteq># mset spans"
    using dedup_loop_mset [of 0 "sort_key span_key spans"] by (simp add: merge_and_dedup_def)
  then show ?thesis using merge_disjoint [OF assms] merge_covers [of _ spans]
    by (simp add: Let_def) blast
qed

theorem merge_greedy_left_longest_witness:
  "disjoint_spans (merge_and_dedup [\<lparr>sp_start = 12, sp_end = 15, sp_kind = Phone\<rparr>,
     \<lparr>sp_start = 0, sp_end = 10, sp_kind = Email\<rparr>, \<lparr>sp_start = 12, sp_end = 18, sp_kind = Iban\<rparr>])"
  using merge_greedy_left_longest [of "[\<lparr>sp_start = 12, sp_end = 15, sp_kind = Phone\<rparr>,
     \<lparr>sp_start = 0, sp_end = 10, sp_kind = Email\<rparr>, \<lparr>sp_start = 12, sp_end = 18, sp_kind = Iban\<rparr>]"]
  by (simp add: Let_def forward_def)

text \<open>
  On spans inside a string, \<open>sanitize\<close> never panics, and its result is a string: the bytes
  outside the chosen spans are kept, those of each chosen span are replaced by its token or
  placeholder, in order (\<open>pieces\<close>); with no span the text is borrowed unchanged.
\<close>

theorem sanitize_replaces_spans:
  assumes "is_str txt" and "\<forall>s \<in> set spans. span_in txt s" and "vault_strs ctx"
  shows "\<exists>c st'. sanitize_spans spans txt ctx st = Returns (c, st') \<and> is_str (cow_str c) \<and>
     (if spans = [] then c = Borrowed txt \<and> st' = st
      else (cow_str c, st') = pieces ctx txt (merge_and_dedup spans) 0 st)"
proof -
  have f: "fitting spans txt = spans" using assms(2) by (simp add: fitting_def)
  have "\<exists>r. sanitize_spans spans txt ctx st = Returns r"
    using fit.sanitize_returns [OF TrueI assms(1), of spans ctx st] f by simp
  then obtain c st' where r: "sanitize_spans spans txt ctx st = Returns (c, st')" by (metis surj_pair)
  moreover have "is_str (cow_str c)" using fit.sanitize_str [OF TrueI assms(1,3), of spans st c st'] r f by simp
  moreover have "if spans = [] then c = Borrowed txt \<and> st' = st
      else (cow_str c, st') = pieces ctx txt (merge_and_dedup spans) 0 st"
    using fit.sanitize_returns [OF TrueI assms(1), of spans ctx st] r
    by (auto simp: f map_prod_def split: prod.splits if_splits)
  ultimately show ?thesis by blast
qed

theorem sanitize_replaces_spans_witness:
  "\<exists>c st'. sanitize_spans [\<lparr>sp_start = 2, sp_end = 5, sp_kind = Email\<rparr>] ''a b@c d''
     (placeholder_only 1) () = Returns (c, st') \<and> cow_str c = ''a [PII:EMAIL] d''"
proof -
  let ?s = "\<lparr>sp_start = 2, sp_end = 5, sp_kind = Email\<rparr>"
  have str: "is_str ''a b@c d''" by (simp add: ascii_is_str)
  have inn: "\<forall>s \<in> set [?s]. span_in ''a b@c d'' s" by (simp add: span_in_def str_eval)
  have v: "vault_strs (placeholder_only 1 :: unit sanitize_ctx)"
    by (simp add: vault_strs_def placeholder_only_def)
  have p: "pieces (placeholder_only 1 :: unit sanitize_ctx) ''a b@c d'' (merge_and_dedup [?s]) 0 () =
      (''a [PII:EMAIL] d'', ())"
    by (simp add: merge_and_dedup_def render_token_def placeholder_only_def placeholder_def slice_def)
  show ?thesis
    using sanitize_replaces_spans [OF str inn v, of "()"] p by (simp del: pieces.simps) (metis prod.inject)
qed

text \<open>A span that overlaps a chosen one only in part is dropped whole: its tail stays in the text.\<close>

lemma overlap_tail_kept:
  "sanitize_spans [\<lparr>sp_start = 0, sp_end = 5, sp_kind = Org\<rparr>, \<lparr>sp_start = 3, sp_end = 8, sp_kind = Email\<rparr>]
     ''Acme b@c'' (placeholder_only 1) () = Returns (Owned ''[PII:ORG]b@c'', ())"
  by (simp add: sanitize_spans_def merge_and_dedup_def span_key_def less_eq_prod_def substitute_def
      render_token_def placeholder_only_def placeholder_def str_eval)

end
