(* ===== verification/Regex_Scan.thy ===== *)
theory Regex_Scan
  imports Sanitize
begin

text \<open>
  The deterministic scanner, \<open>ingestion/src/sanitize/regex_scan.rs\<close>: the five patterns, the
  checksum validators and \<open>scan\<close>.

  A pattern is its syntax tree (\<open>rx\<close>). The \<open>regex\<close> crate that searches it is not in the repository:
  \<open>rx_env\<close> carries its \<open>find_iter\<close>, and the Unicode classes \<open>\d\<close> and \<open>\w\<close>; \<open>rx_laws\<close> states
  what the scanner needs of them: a match lies in the text, on character boundaries, and is accepted
  by the pattern (\<open>rx_step\<close>, which says which remainders a pattern can leave).
  The validators are translated with every slice that could panic.
\<close>

section \<open>Patterns\<close>

datatype rx =
    Cls "uchar \<Rightarrow> bool"
  | Seq rx rx
  | Alt rx rx
  | Opt rx
  | Rep nat rx
  | Upto nat rx
  | Star rx
  | WordB

text \<open>A position: the character before it, and the characters behind it.\<close>

type_synonym pos = "uchar option \<times> uchar list"

primrec rx_times :: "nat \<Rightarrow> (pos \<Rightarrow> pos list) \<Rightarrow> pos \<Rightarrow> pos list" where
  "rx_times 0 f w = [w]"
| "rx_times (Suc n) f w = concat (map (rx_times n f) (f w))"

primrec rx_upto :: "nat \<Rightarrow> (pos \<Rightarrow> pos list) \<Rightarrow> pos \<Rightarrow> pos list" where
  "rx_upto 0 f w = [w]"
| "rx_upto (Suc n) f w = concat (map (rx_upto n f) (f w)) @ [w]"

text \<open>The positions a pattern can end at, from a position; \<open>wd\<close> is the class \<open>\w\<close> of the word boundary.\<close>

primrec rx_step :: "(uchar \<Rightarrow> bool) \<Rightarrow> rx \<Rightarrow> pos \<Rightarrow> pos list" where
  "rx_step wd (Cls p) w =
     (case snd w of [] \<Rightarrow> [] | c # cs \<Rightarrow> if p c then [(Some c, cs)] else [])"
| "rx_step wd (Seq a b) w = concat (map (rx_step wd b) (rx_step wd a w))"
| "rx_step wd (Alt a b) w = rx_step wd a w @ rx_step wd b w"
| "rx_step wd (Opt a) w = rx_step wd a w @ [w]"
| "rx_step wd (Rep n a) w = rx_times n (rx_step wd a) w"
| "rx_step wd (Upto n a) w = rx_upto n (rx_step wd a) w"
| "rx_step wd (Star a) w = rx_upto (length (snd w)) (rx_step wd a) w"
| "rx_step wd WordB w =
     (if (case fst w of None \<Rightarrow> False | Some c \<Rightarrow> wd c) \<noteq> (case snd w of [] \<Rightarrow> False | c # _ \<Rightarrow> wd c)
      then [w] else [])"

definition is_ascii_digit :: "uchar \<Rightarrow> bool" where
  "is_ascii_digit c \<longleftrightarrow> 48 \<le> c \<and> c \<le> 57"

definition is_ascii_uppercase :: "uchar \<Rightarrow> bool" where
  "is_ascii_uppercase c \<longleftrightarrow> 65 \<le> c \<and> c \<le> 90"

definition is_ascii_lowercase :: "uchar \<Rightarrow> bool" where
  "is_ascii_lowercase c \<longleftrightarrow> 97 \<le> c \<and> c \<le> 122"

abbreviation rx_char :: "char \<Rightarrow> rx" where
  "rx_char c \<equiv> Cls (\<lambda>d. d = of_char c)"

abbreviation rx_space :: rx where
  "rx_space \<equiv> Opt (Cls is_whitespace)"

definition re_fr_nir :: "(uchar \<Rightarrow> bool) \<Rightarrow> rx" where
  "re_fr_nir d =
     Seq WordB
     (Seq (Cls (\<lambda>c. c \<in> {49, 50, 51}))
     (Seq rx_space (Seq (Rep 2 (Cls d))
     (Seq rx_space (Seq (Rep 2 (Cls d))
     (Seq rx_space (Seq (Alt (Seq (rx_char (CHR ''2'')) (rx_char (CHR ''A'')))
                             (Alt (Seq (rx_char (CHR ''2'')) (rx_char (CHR ''B''))) (Rep 2 (Cls d))))
     (Seq rx_space (Seq (Rep 3 (Cls d))
     (Seq rx_space (Seq (Rep 3 (Cls d))
     (Seq rx_space (Seq (Rep 2 (Cls d)) WordB)))))))))))))"

definition re_iban :: "(uchar \<Rightarrow> bool) \<Rightarrow> rx" where
  "re_iban d =
     (let an = Cls (\<lambda>c. is_ascii_uppercase c \<or> is_ascii_digit c) in
      Seq WordB (Seq (Rep 2 (Cls is_ascii_uppercase)) (Seq (Rep 2 (Cls d))
        (Seq (Rep 11 an) (Seq (Upto 19 an) WordB)))))"

definition re_e164 :: "(uchar \<Rightarrow> bool) \<Rightarrow> rx" where
  "re_e164 d =
     Seq (rx_char (CHR ''+'')) (Seq (Cls (\<lambda>c. 49 \<le> c \<and> c \<le> 57))
       (Seq (Rep 6 (Cls d)) (Seq (Upto 8 (Cls d)) WordB)))"

definition is_alpha_c :: "uchar \<Rightarrow> bool" where
  "is_alpha_c c \<longleftrightarrow> is_ascii_uppercase c \<or> is_ascii_lowercase c"

definition re_email :: rx where
  "re_email =
     (let local = Cls (\<lambda>c. is_alpha_c c \<or> is_ascii_digit c \<or> c \<in> of_char ` set ''._%+-'');
          domain = Cls (\<lambda>c. is_alpha_c c \<or> is_ascii_digit c \<or> c \<in> of_char ` set ''.-'') in
      Seq (Seq local (Star local)) (Seq (rx_char (CHR ''@'')) (Seq (Seq domain (Star domain))
        (Seq (rx_char (CHR ''.'')) (Seq (Rep 2 (Cls is_alpha_c)) (Star (Cls is_alpha_c)))))))"

definition re_uuid :: rx where
  "re_uuid =
     (let hx = Cls (\<lambda>c. is_ascii_digit c \<or> (65 \<le> c \<and> c \<le> 70) \<or> (97 \<le> c \<and> c \<le> 102));
          dash = rx_char (CHR ''-'') in
      Seq WordB (Seq (Rep 8 hx) (Seq dash (Seq (Rep 4 hx) (Seq dash (Seq (Rep 4 hx) (Seq dash
        (Seq (Rep 4 hx) (Seq dash (Seq (Rep 12 hx) WordB))))))))))"

section \<open>Validators\<close>

definition strip_spaces :: "string \<Rightarrow> string" where
  "strip_spaces raw = of_chars (filter (\<lambda>c. \<not> is_whitespace c) (chars raw))"

definition is_valid_nir :: "string \<Rightarrow> bool run" where
  "is_valid_nir raw =
     (let compact = strip_spaces raw in
      if length compact \<noteq> 15 then Returns False
      else run_bind (str_slice 0 5 compact) (\<lambda>head.
        run_bind (str_slice 5 7 compact) (\<lambda>dep.
        if dep \<noteq> ''2A'' \<and> dep \<noteq> ''2B'' \<and> \<not> list_all is_ascii_digit (chars dep) then Returns False
        else run_bind (str_slice_from 7 compact) (\<lambda>tl.
          let dep' = (if dep = ''2A'' then ''19'' else if dep = ''2B'' then ''18'' else dep);
              normalized = head @ dep' @ tl in
          if \<not> list_all is_ascii_digit (chars normalized) then Returns False
          else run_bind (str_slice 0 13 normalized) (\<lambda>n_str.
            run_bind (str_slice_from 13 normalized) (\<lambda>key_str.
              Returns (97 - dec_value n_str mod 97 = dec_value key_str)))))))"

text \<open>\<open>v.to_string()\<close> of a letter's value, and the streaming remainder.\<close>

definition iban_digits :: "uchar \<Rightarrow> string" where
  "iban_digits c = (if is_ascii_digit c then [char_of c] else show_nat (c - 65 + 10))"

definition mod97_stream :: "string \<Rightarrow> nat" where
  "mod97_stream numeric = foldl (\<lambda>rem d. (rem * 10 + digit_val d) mod 97) 0 numeric"

definition is_valid_iban :: "string \<Rightarrow> bool run" where
  "is_valid_iban raw =
     (let compact = strip_spaces raw in
      if length compact < 15 \<or> 34 < length compact then Returns False
      else if \<not> list_all (\<lambda>c. is_ascii_uppercase c \<or> is_ascii_digit c) (chars compact)
        then Returns False
      else run_bind (str_slice 0 4 compact) (\<lambda>head.
        run_bind (str_slice_from 4 compact) (\<lambda>tail.
          let rotated = tail @ head;
              numeric = concat (map iban_digits (chars rotated)) in
          Returns (mod97_stream numeric = 1))))"

section \<open>scan\<close>

record rx_env =
  rx_find :: "rx \<Rightarrow> string \<Rightarrow> (nat \<times> nat) list"
  rx_digit :: "uchar \<Rightarrow> bool"
  rx_word :: "uchar \<Rightarrow> bool"

definition hits :: "rx_env \<Rightarrow> rx \<Rightarrow> entity_kind \<Rightarrow> string \<Rightarrow> span list" where
  "hits R r kind txt = map (\<lambda>(a, b). \<lparr>sp_start = a, sp_end = b, sp_kind = kind\<rparr>) (rx_find R r txt)"

text \<open>The matches a validator accepts; \<open>m.as_str()\<close> is the slice of the match.\<close>

fun checked_hits :: "(string \<Rightarrow> bool run) \<Rightarrow> string \<Rightarrow> span list \<Rightarrow> span list run" where
  "checked_hits valid txt [] = Returns []"
| "checked_hits valid txt (s # ss) =
     run_bind (str_slice (sp_start s) (sp_end s) txt) (\<lambda>cand.
     run_bind (valid cand) (\<lambda>ok.
     run_bind (checked_hits valid txt ss) (\<lambda>rest.
       Returns (if ok then s # rest else rest))))"

definition scan :: "rx_env \<Rightarrow> string \<Rightarrow> span list run" where
  "scan R txt =
     run_bind (checked_hits is_valid_nir txt (hits R (re_fr_nir (rx_digit R)) Nir txt)) (\<lambda>nirs.
     run_bind (checked_hits is_valid_iban txt (hits R (re_iban (rx_digit R)) Iban txt)) (\<lambda>ibans.
     Returns (nirs @ ibans @ hits R (re_e164 (rx_digit R)) Phone txt @
       hits R re_email Email txt @ hits R re_uuid Uuid txt)))"

text \<open>Shape (b) of \<open>sanitize\<close>: the regex-only pipeline.\<close>

definition sanitize_regex :: "rx_env \<Rightarrow> string \<Rightarrow> 's sanitize_ctx \<Rightarrow> 's \<Rightarrow> (cow \<times> 's) run" where
  "sanitize_regex R txt ctx st = run_bind (scan R txt) (\<lambda>spans. sanitize_spans spans txt ctx st)"

section \<open>What is asked of the regex crate\<close>

definition last_opt :: "'a list \<Rightarrow> 'a option" where
  "last_opt xs = (if xs = [] then None else Some (last xs))"

definition rx_laws :: "rx_env \<Rightarrow> bool" where
  "rx_laws R \<longleftrightarrow>
     (\<forall>c. rx_digit R c \<longrightarrow> \<not> is_whitespace c) \<and>
     (\<forall>r txt a b. is_str txt \<longrightarrow> (a, b) \<in> set (rx_find R r txt) \<longrightarrow>
        a \<le> b \<and> b \<le> length txt \<and> is_char_boundary txt a \<and> is_char_boundary txt b \<and>
        chars (drop b txt) \<in> snd ` set (rx_step (rx_word R) r
          (last_opt (chars (take a txt)), chars (drop a txt))))"

section \<open>A NIR match has 15 visible characters\<close>

text \<open>\<open>eats\<close>: whatever the pattern matches has \<open>n\<close> characters that are not white space.\<close>

abbreviation visible :: "uchar list \<Rightarrow> nat" where
  "visible p \<equiv> length (filter (\<lambda>c. \<not> is_whitespace c) p)"

definition eats :: "(uchar \<Rightarrow> bool) \<Rightarrow> rx \<Rightarrow> nat \<Rightarrow> bool" where
  "eats wd r n \<longleftrightarrow>
     (\<forall>w. \<forall>w' \<in> set (rx_step wd r w). \<exists>p. snd w = p @ snd w' \<and> visible p = n)"

lemma eatsD: "eats wd r n \<Longrightarrow> w' \<in> set (rx_step wd r w) \<Longrightarrow> \<exists>p. snd w = p @ snd w' \<and> visible p = n"
  unfolding eats_def by blast

lemma eats_Cls: "(\<And>c. p c \<Longrightarrow> \<not> is_whitespace c) \<Longrightarrow> eats wd (Cls p) 1"
  unfolding eats_def
proof (intro allI ballI)
  fix w w' assume p: "\<And>c. p c \<Longrightarrow> \<not> is_whitespace c" and w': "w' \<in> set (rx_step wd (Cls p) w)"
  obtain l cs where w: "w = (l, cs)" by (cases w)
  with p w' show "\<exists>q. snd w = q @ snd w' \<and> visible q = 1"
    by (cases cs) (auto split: if_splits intro: exI [of _ "[_]"])
qed

lemma eats_Seq: "eats wd a m \<Longrightarrow> eats wd b n \<Longrightarrow> eats wd (Seq a b) (m + n)"
  unfolding eats_def
proof (intro allI ballI)
  fix w w' assume a: "\<forall>w. \<forall>w' \<in> set (rx_step wd a w). \<exists>p. snd w = p @ snd w' \<and> visible p = m"
    and b: "\<forall>w. \<forall>w' \<in> set (rx_step wd b w). \<exists>p. snd w = p @ snd w' \<and> visible p = n"
    and "w' \<in> set (rx_step wd (Seq a b) w)"
  then obtain v where "v \<in> set (rx_step wd a w)" "w' \<in> set (rx_step wd b v)" by auto
  with a b obtain p q where "snd w = p @ snd v" "visible p = m" "snd v = q @ snd w'" "visible q = n"
    by meson
  then show "\<exists>r. snd w = r @ snd w' \<and> visible r = m + n" by (intro exI [of _ "p @ q"]) simp
qed

lemma eats_Alt: "eats wd a n \<Longrightarrow> eats wd b n \<Longrightarrow> eats wd (Alt a b) n"
  unfolding eats_def rx_step.simps by (metis Un_iff set_append)

lemma eats_space: "eats wd rx_space 0"
  unfolding eats_def
proof (intro allI ballI)
  fix w w' assume w': "w' \<in> set (rx_step wd rx_space w)"
  obtain l cs where w: "w = (l, cs)" by (cases w)
  show "\<exists>q. snd w = q @ snd w' \<and> visible q = 0"
  proof (cases "w' = w")
    case True
    then show ?thesis by (intro exI [of _ "[]"]) simp
  next
    case False
    with w w' obtain c cs' where "cs = c # cs'" "is_whitespace c" "w' = (Some c, cs')"
      by (cases cs) (auto split: if_splits)
    then show ?thesis using w by (intro exI [of _ "[c]"]) simp
  qed
qed

lemma eats_times: "eats wd a n \<Longrightarrow> w' \<in> set (rx_times k (rx_step wd a) w) \<Longrightarrow> \<exists>p. snd w = p @ snd w' \<and> visible p = k * n"
proof (induction k arbitrary: w)
  case (Suc k)
  then obtain v where "v \<in> set (rx_step wd a w)" "w' \<in> set (rx_times k (rx_step wd a) v)" by auto
  with Suc.IH [OF Suc.prems(1)] eatsD [OF Suc.prems(1)] obtain p q
    where "snd w = p @ snd v" "visible p = n" "snd v = q @ snd w'" "visible q = k * n" by meson
  then show ?case by (intro exI [of _ "p @ q"]) simp
qed simp

lemma eats_Rep: "eats wd a n \<Longrightarrow> eats wd (Rep k a) (k * n)"
  using eats_times by (auto simp: eats_def [of _ "Rep k a"])

lemma eats_WordB: "eats wd WordB 0"
  by (auto simp: eats_def)

lemma eats_nir:
  assumes "\<And>c. d c \<Longrightarrow> \<not> is_whitespace c"
  shows "eats wd (re_fr_nir d) 15"
proof -
  have d: "eats wd (Rep k (Cls d)) k" for k
    using eats_Rep [OF eats_Cls [of d, OF assms]] by simp
  have c: "eats wd (Cls (\<lambda>c. c = k)) 1" if "\<not> is_whitespace k" for k
    by (rule eats_Cls) (use that in simp)
  have x: "eats wd (rx_char (CHR ''2'')) 1" "eats wd (rx_char (CHR ''A'')) 1" "eats wd (rx_char (CHR ''B'')) 1"
    by (rule c; simp add: is_whitespace_def)+
  have dep: "eats wd (Alt (Seq (rx_char (CHR ''2'')) (rx_char (CHR ''A'')))
      (Alt (Seq (rx_char (CHR ''2'')) (rx_char (CHR ''B''))) (Rep 2 (Cls d)))) 2"
    using eats_Alt [OF eats_Seq [OF x(1,2)] eats_Alt [OF eats_Seq [OF x(1,3)]]] d [of 2]
    by (simp add: numeral_2_eq_2)
  have s: "eats wd (Cls (\<lambda>c. c \<in> {49, 50, 51})) 1" by (rule eats_Cls) (auto simp: is_whitespace_def)
  note step = eats_Seq [OF eats_space eats_Seq [OF d]]
  have "eats wd (re_fr_nir d) (0 + (1 + (0 + (2 + (0 + (2 + (0 + (2 + (0 + (3 + (0 + (3 + (0 + (2 + 0))))))))))))))"
    unfolding re_fr_nir_def by (intro eats_Seq eats_space eats_WordB s d dep)
  then show ?thesis by simp
qed

section \<open>Check digits: proofs\<close>

lemma horner_mod: "(10 * (x mod 97) + d) mod 97 = (10 * x + d) mod (97::nat)"
  by (metis mod_add_left_eq mod_mult_right_eq)

lemma mod97_stream_value: "list_all is_digit_char s \<Longrightarrow> mod97_stream s = dec_value s mod 97"
proof (induction s rule: rev_induct)
  case (snoc c s)
  then show ?case
    by (simp add: mod97_stream_def dec_value_append mult.commute [of _ 10] horner_mod)
qed (simp add: mod97_stream_def)

text \<open>97 divides no product of a power of ten with a small difference.\<close>

lemma prime97_step: "(97::nat) dvd 10 * n \<Longrightarrow> 97 dvd n"
proof -
  assume "(97::nat) dvd 10 * n"
  then have "97 dvd 68 * (10 * n)" by (rule dvd_mult)
  moreover have "68 * (10 * n) = 97 * (7 * n) + n" by simp
  ultimately show ?thesis by (metis dvd_add_right_iff dvd_triv_left)
qed

lemma prime97_pow: "(97::nat) dvd 10 ^ k * n \<Longrightarrow> 97 dvd n"
  by (induction k) (auto simp: mult.assoc dest: prime97_step)

lemma mod97_diff:
  fixes x y r :: nat
  assumes "(x * 10 ^ k + r) mod 97 = (y * 10 ^ k + r) mod 97" and "x < 97" and "y < 97"
  shows "x = y"
proof -
  have "x' = y'" if "(x' * 10 ^ k + r) mod 97 = (y' * 10 ^ k + r) mod 97" "y' \<le> x'" "x' < 97" for x' y' :: nat
  proof -
    have "y' * 10 ^ k + r \<le> x' * 10 ^ k + r" using that(2) by simp
    with that(1) have "97 dvd (x' * 10 ^ k + r) - (y' * 10 ^ k + r)"
      using mod_eq_dvd_iff_nat by blast
    then have "97 dvd 10 ^ k * (x' - y')" by (simp add: diff_mult_distrib mult.commute)
    then have "97 dvd x' - y'" by (rule prime97_pow)
    then show ?thesis using that(2,3) by (metis diff_is_0_eq dvd_imp_le le_antisym
        le_less_trans not_le_imp_less diff_le_self order_less_irrefl gr0I)
  qed
  then show ?thesis using assms by (metis nle_le)
qed

text \<open>One digit changed: the remainder changes.\<close>

lemma digit_error:
  assumes "list_all is_digit_char s" and "i < length s" and "is_digit_char c" and "c \<noteq> s ! i"
  shows "dec_value (s[i := c]) mod 97 \<noteq> dec_value s mod 97"
proof
  assume eq: "dec_value (s[i := c]) mod 97 = dec_value s mod 97"
  have val: "dec_value (take i s @ [d] @ drop (Suc i) s) =
      digit_val d * 10 ^ (length s - Suc i) + (dec_value (take i s) * 10 ^ (length s - i) + dec_value (drop (Suc i) s))"
    for d using assms(2) by (simp add: dec_value_append Suc_diff_Suc flip: append_Cons)
  have "s = take i s @ [s ! i] @ drop (Suc i) s" using assms(2) by (simp add: id_take_nth_drop)
  moreover have "s[i := c] = take i s @ [c] @ drop (Suc i) s" using assms(2) by (simp add: upd_conv_take_nth_drop)
  ultimately have "(digit_val c * 10 ^ (length s - Suc i) + (dec_value (take i s) * 10 ^ (length s - i) + dec_value (drop (Suc i) s))) mod 97 =
      (digit_val (s ! i) * 10 ^ (length s - Suc i) + (dec_value (take i s) * 10 ^ (length s - i) + dec_value (drop (Suc i) s))) mod 97"
    using eq val by metis
  moreover have "digit_val c < 97" "digit_val (s ! i) < 97"
    using digit_val_less assms by (auto simp: list_all_length intro: order.strict_trans [of _ 10])
  ultimately have "digit_val c = digit_val (s ! i)" using mod97_diff by blast
  moreover have "is_digit_char (s ! i)" using assms(1,2) by (simp add: list_all_length)
  ultimately have "(of_char c :: nat) = of_char (s ! i)"
    using assms(3) unfolding digit_val_def is_digit_char_def by linarith
  then show False using assms(4) by simp
qed

section \<open>Validators: proofs\<close>

lemma ascii_digit_char: "is_ascii_digit (of_char c) \<longleftrightarrow> is_digit_char c"
  by (simp add: is_ascii_digit_def is_digit_char_def)

lemma digit_char_ascii: "list_all is_digit_char s \<Longrightarrow> \<forall>c \<in> set s. (of_char c :: nat) < 128"
  by (auto simp: list_all_iff is_digit_char_def)

lemma all_digits_codes: "list_all is_ascii_digit (codes s) \<longleftrightarrow> list_all is_digit_char s"
  by (simp add: codes_def list_all_iff ascii_digit_char)

lemma ascii_str_slice:
  assumes "\<forall>c \<in> set s. (of_char c :: nat) < 128" and "a \<le> b" and "b \<le> length s"
  shows "str_slice a b s = Returns (slice a b s)"
  using assms by (simp add: str_slice_def ascii_boundary)

lemma strip_spaces_str [simp]: "is_str (strip_spaces raw)"
  by (simp add: strip_spaces_def)

lemma chars_strip [simp]: "chars (strip_spaces raw) = filter (\<lambda>c. \<not> is_whitespace c) (chars raw)"
  by (simp add: strip_spaces_def)

lemma strip_spaces_none:
  assumes "\<forall>c \<in> set s. (of_char c :: nat) < 128" and "\<forall>c \<in> set s. \<not> is_whitespace (of_char c)"
  shows "strip_spaces s = s"
proof -
  have s: "is_str s" "chars s = codes s" using ascii_is_str [OF assms(1)] by simp_all
  have "filter (\<lambda>c. \<not> is_whitespace c) (codes s) = codes s"
    using assms(2) by (auto simp: codes_def filter_id_conv)
  then show ?thesis using s of_chars_chars [OF s(1)] by (simp add: strip_spaces_def)
qed

text \<open>The normalised form of a NIR and what its key must satisfy.\<close>

definition nir_normal :: "string \<Rightarrow> string" where
  "nir_normal c = (let dep = slice 5 7 c in
     take 5 c @ (if dep = ''2A'' then ''19'' else if dep = ''2B'' then ''18'' else dep) @ drop 7 c)"

definition nir_ok :: "string \<Rightarrow> bool" where
  "nir_ok c \<longleftrightarrow> list_all is_digit_char (nir_normal c) \<and>
     97 - dec_value (take 13 (nir_normal c)) mod 97 = dec_value (drop 13 (nir_normal c))"

lemma is_valid_nir_ascii:
  assumes "\<forall>c \<in> set (strip_spaces raw). (of_char c :: nat) < 128" and "length (strip_spaces raw) = 15"
  shows "is_valid_nir raw = Returns (nir_ok (strip_spaces raw))"
proof -
  define c where "c = strip_spaces raw"
  have a: "\<forall>x \<in> set c. (of_char x :: nat) < 128" and len: "length c = 15" using assms by (simp_all add: c_def)
  have sl: "str_slice 0 5 c = Returns (take 5 c)" "str_slice 5 7 c = Returns (slice 5 7 c)"
    "str_slice_from 7 c = Returns (drop 7 c)"
    using ascii_str_slice [OF a] len by (simp_all add: str_slice_from_def slice_def)
  have "set (slice 5 7 c) \<subseteq> set c" by (rule set_slice)
  then have dep: "chars (slice 5 7 c) = codes (slice 5 7 c)" using a by (intro conjunct2 [OF ascii_is_str]) auto
  have nset: "set (nir_normal c) \<subseteq> set c \<union> {CHR ''1'', CHR ''9'', CHR ''8''}"
    using \<open>set (slice 5 7 c) \<subseteq> set c\<close>
    by (auto simp: nir_normal_def Let_def dest: in_set_takeD in_set_dropD)
  then have na: "\<forall>x \<in> set (nir_normal c). (of_char x :: nat) < 128" using a by auto
  then have nch: "chars (nir_normal c) = codes (nir_normal c)" using ascii_is_str by blast
  have nlen: "length (nir_normal c) = 15" using len by (simp add: nir_normal_def Let_def)
  have nsl: "str_slice 0 13 (nir_normal c) = Returns (take 13 (nir_normal c))"
    "str_slice_from 13 (nir_normal c) = Returns (drop 13 (nir_normal c))"
    using ascii_str_slice [OF na] nlen by (simp_all add: str_slice_from_def slice_def)
  have bad: "\<not> nir_ok c" if "slice 5 7 c \<noteq> ''2A''" "slice 5 7 c \<noteq> ''2B''" "\<not> list_all is_digit_char (slice 5 7 c)"
    using that by (simp add: nir_ok_def nir_normal_def)
  consider "slice 5 7 c = ''2A''" | "slice 5 7 c = ''2B''" |
    "slice 5 7 c \<noteq> ''2A''" "slice 5 7 c \<noteq> ''2B''" "\<not> list_all is_digit_char (slice 5 7 c)" |
    "slice 5 7 c \<noteq> ''2A''" "slice 5 7 c \<noteq> ''2B''" "list_all is_digit_char (slice 5 7 c)" by blast
  then have "is_valid_nir raw = Returns (nir_ok c)"
  proof cases
    case 3
    then show ?thesis using sl dep len bad
      by (simp add: is_valid_nir_def c_def [symmetric] all_digits_codes)
  qed (use sl dep nch nsl len in \<open>auto simp: is_valid_nir_def c_def [symmetric] all_digits_codes nir_ok_def
      nir_normal_def Let_def\<close>)
  then show ?thesis by (simp add: c_def)
qed

lemma is_valid_nir_len: "length (strip_spaces raw) \<noteq> 15 \<Longrightarrow> is_valid_nir raw = Returns False"
  by (simp add: is_valid_nir_def Let_def)

text \<open>A 15-digit number: its checksum, and what one wrong digit does to it.\<close>

lemma digits_not_space: "is_digit_char c \<Longrightarrow> \<not> is_whitespace (of_char c)"
  by (auto simp: is_digit_char_def is_whitespace_def)

lemma strip_digits: "list_all is_digit_char s \<Longrightarrow> strip_spaces s = s"
  using digit_char_ascii by (intro strip_spaces_none) (auto simp: list_all_iff digits_not_space)

lemma nir_digits:
  assumes "list_all is_digit_char s" and "length s = 15"
  shows "is_valid_nir s = Returns (97 - dec_value (take 13 s) mod 97 = dec_value (drop 13 s))"
proof -
  have c: "\<forall>c \<in> set (strip_spaces s). (of_char c :: nat) < 128"
    using assms(1) by (simp add: strip_digits digit_char_ascii)
  have "list_all is_digit_char (slice 5 7 s)"
    using assms(1) set_slice [of 5 7 s] by (auto simp: list_all_iff)
  then have "slice 5 7 s \<noteq> ''2A''" "slice 5 7 s \<noteq> ''2B''" by (auto simp: is_digit_char_def)
  moreover have "take 5 s @ slice 5 7 s @ drop 7 s = s"
  proof -
    have "take 5 s @ slice 5 7 s = take 7 s" using assms(2) by (intro take_append_slice) simp_all
    then have "take 5 s @ slice 5 7 s @ drop 7 s = take 7 s @ drop 7 s" by (simp flip: append_assoc)
    then show ?thesis by simp
  qed
  ultimately have "nir_normal s = s" by (simp add: nir_normal_def)
  then show ?thesis
    using is_valid_nir_ascii [OF c] assms by (simp add: strip_digits nir_ok_def)
qed

lemma list_all_update: "list_all P xs \<Longrightarrow> P y \<Longrightarrow> list_all P (xs[i := y])"
  using set_update_subset_insert [of xs i y] by (auto simp: list_all_iff)

lemma nir_digit_error:
  assumes "list_all is_digit_char s" and "length s = 15" and "is_valid_nir s = Returns True"
    and "i < 15" and "is_digit_char c" and "c \<noteq> s ! i"
  shows "is_valid_nir (s[i := c]) = Returns False"
proof -
  have upd: "list_all is_digit_char (s[i := c])" by (rule list_all_update [OF assms(1,5)])
  have ok: "97 - dec_value (take 13 s) mod 97 = dec_value (drop 13 s)"
    using nir_digits [OF assms(1,2)] assms(3) by simp
  have "97 - dec_value (take 13 (s[i := c])) mod 97 \<noteq> dec_value (drop 13 (s[i := c]))"
  proof (cases "i < 13")
    case True
    have "list_all is_digit_char (take 13 s)" using assms(1) by (auto simp: list_all_iff dest: in_set_takeD)
    from digit_error [OF this, of i c] True assms(2,5,6)
    have "dec_value ((take 13 s)[i := c]) mod 97 \<noteq> dec_value (take 13 s) mod 97" by simp
    moreover have "dec_value ((take 13 s)[i := c]) mod 97 < 97" "dec_value (take 13 s) mod 97 < 97" by simp_all
    ultimately have "97 - dec_value ((take 13 s)[i := c]) mod 97 \<noteq> 97 - dec_value (take 13 s) mod 97"
      by linarith
    then show ?thesis using ok True by (simp add: take_update_swap)
  next
    case False
    have "list_all is_digit_char (drop 13 s)" using assms(1) by (auto simp: list_all_iff dest: in_set_dropD)
    moreover have "i - 13 < length (drop 13 s)" using False assms(2,4) by simp
    moreover have "c \<noteq> drop 13 s ! (i - 13)" using False assms(2,4,6) by simp
    ultimately have "dec_value ((drop 13 s)[i - 13 := c]) mod 97 \<noteq> dec_value (drop 13 s) mod 97"
      by (intro digit_error assms(5))
    then have "dec_value ((drop 13 s)[i - 13 := c]) \<noteq> dec_value (drop 13 s)" by auto
    then show ?thesis using ok False by (simp add: drop_update_swap)
  qed
  then show ?thesis using nir_digits [OF upd] assms(2) by simp
qed

section \<open>IBAN: proofs\<close>

definition iban_numeric :: "string \<Rightarrow> string" where
  "iban_numeric c = concat (map iban_digits (codes (drop 4 c @ take 4 c)))"

definition iban_shape :: "string \<Rightarrow> bool" where
  "iban_shape c \<longleftrightarrow> 15 \<le> length c \<and> length c \<le> 34 \<and>
     list_all (\<lambda>c. is_ascii_uppercase c \<or> is_ascii_digit c) (codes c)"

lemma iban_digits_digits: "is_ascii_uppercase c \<or> is_ascii_digit c \<Longrightarrow> list_all is_digit_char (iban_digits c)"
  by (auto simp: iban_digits_def show_nat_digits is_ascii_digit_def is_digit_char_def)

lemma iban_numeric_digits: "iban_shape c \<Longrightarrow> list_all is_digit_char (iban_numeric c)"
  using iban_digits_digits
  by (fastforce simp: iban_shape_def iban_numeric_def list_all_iff codes_def dest: in_set_takeD in_set_dropD)

lemma is_valid_iban_eq:
  "is_valid_iban raw = Returns (iban_shape (strip_spaces raw) \<and> dec_value (iban_numeric (strip_spaces raw)) mod 97 = 1)"
proof (cases "list_all (\<lambda>c. is_ascii_uppercase c \<or> is_ascii_digit c) (chars (strip_spaces raw))")
  case True
  define c where "c = strip_spaces raw"
  have "list_all (\<lambda>x. x < 128) (chars c)"
    using True by (auto simp: c_def list_all_iff is_ascii_uppercase_def is_ascii_digit_def)
  then have a: "\<forall>x \<in> set c. (of_char x :: nat) < 128" by (intro chars_ascii) (simp add: c_def)
  then have ch: "chars c = codes c" using ascii_is_str by blast
  have "\<forall>x \<in> set (drop 4 c @ take 4 c). (of_char x :: nat) < 128"
    using a by (auto dest: in_set_takeD in_set_dropD)
  then have rot: "chars (drop 4 c @ take 4 c) = codes (drop 4 c @ take 4 c)" using ascii_is_str by blast
  show ?thesis
  proof (cases "length c < 15 \<or> 34 < length c")
    case True
    then show ?thesis by (auto simp: is_valid_iban_def Let_def iban_shape_def simp flip: c_def)
  next
    case False
    have "str_slice 0 4 c = Returns (take 4 c)" "str_slice_from 4 c = Returns (drop 4 c)"
      using ascii_str_slice [OF a] False by (simp_all add: str_slice_from_def slice_def)
    moreover have sh: "iban_shape c" using False True ch by (simp add: iban_shape_def c_def)
    ultimately show ?thesis
      using True False ch rot mod97_stream_value [OF iban_numeric_digits [OF sh]]
      by (simp add: is_valid_iban_def Let_def iban_numeric_def flip: c_def del: chars_strip codes_append)
  qed
next
  case False
  have "\<not> iban_shape (strip_spaces raw)"
  proof
    assume sh: "iban_shape (strip_spaces raw)"
    then have "\<forall>x \<in> set (strip_spaces raw). (of_char x :: nat) < 128"
      by (fastforce simp: iban_shape_def codes_def list_all_iff is_ascii_uppercase_def is_ascii_digit_def)
    then have "chars (strip_spaces raw) = codes (strip_spaces raw)" using ascii_is_str by blast
    with sh False show False by (simp add: iban_shape_def)
  qed
  with False show ?thesis by (simp add: is_valid_iban_def Let_def)
qed

lemma iban_numeric_update:
  assumes "i < length s" and "is_digit_char (s ! i)" and "is_digit_char c"
  shows "\<exists>j < length (iban_numeric s). iban_numeric s ! j = s ! i \<and> iban_numeric (s[i := c]) = (iban_numeric s)[j := c]"
proof -
  let ?n = "\<lambda>xs. concat (map iban_digits (codes xs))"
  have one: "?n (xs @ [d] @ ys) = ?n xs @ [d] @ ?n ys" if "is_digit_char d" for xs ys d
    using that by (simp add: codes_def iban_digits_def ascii_digit_char)
  have key: "\<exists>xs ys. drop 4 s @ take 4 s = xs @ [s ! i] @ ys \<and> drop 4 (s[i := c]) @ take 4 (s[i := c]) = xs @ [c] @ ys"
  proof (cases "i < 4")
    case True
    have "take 4 s = take i s @ [s ! i] @ drop (Suc i) (take 4 s)"
      using True assms(1) id_take_nth_drop [of i "take 4 s"] by simp
    moreover have "take 4 (s[i := c]) = take i s @ [c] @ drop (Suc i) (take 4 s)"
      using True assms(1) upd_conv_take_nth_drop [of i "take 4 s" c] by (simp add: take_update_swap)
    ultimately show ?thesis using True
      by (intro exI [of _ "drop 4 s @ take i s"] exI [of _ "drop (Suc i) (take 4 s)"]) simp
  next
    case False
    have "drop 4 s = take (i - 4) (drop 4 s) @ [s ! i] @ drop (Suc (i - 4)) (drop 4 s)"
      using False assms(1) id_take_nth_drop [of "i - 4" "drop 4 s"] by simp
    moreover have "drop 4 (s[i := c]) = take (i - 4) (drop 4 s) @ [c] @ drop (Suc (i - 4)) (drop 4 s)"
      using False assms(1) upd_conv_take_nth_drop [of "i - 4" "drop 4 s" c] by (simp add: drop_update_swap)
    moreover have "take 4 (s[i := c]) = take 4 s" using False by simp
    ultimately have "drop 4 s @ take 4 s = take (i - 4) (drop 4 s) @ [s ! i] @ (drop (Suc (i - 4)) (drop 4 s) @ take 4 s)"
      and "drop 4 (s[i := c]) @ take 4 (s[i := c]) =
        take (i - 4) (drop 4 s) @ [c] @ (drop (Suc (i - 4)) (drop 4 s) @ take 4 s)"
      by (metis append.assoc, metis append.assoc)
    then show ?thesis by blast
  qed
  then obtain xs ys where "drop 4 s @ take 4 s = xs @ [s ! i] @ ys"
    "drop 4 (s[i := c]) @ take 4 (s[i := c]) = xs @ [c] @ ys" by blast
  then have "iban_numeric s = ?n xs @ [s ! i] @ ?n ys" "iban_numeric (s[i := c]) = ?n xs @ [c] @ ?n ys"
    using one [OF assms(2)] one [OF assms(3)] by (simp_all only: iban_numeric_def)
  then show ?thesis by (intro exI [of _ "length (?n xs)"]) simp
qed

lemma iban_digit_error:
  assumes "iban_shape s" and "is_valid_iban s = Returns True" and "i < length s"
    and "is_digit_char (s ! i)" and "is_digit_char c" and "c \<noteq> s ! i"
  shows "is_valid_iban (s[i := c]) = Returns False"
proof -
  have sh: "\<forall>c \<in> set s. is_ascii_uppercase (of_char c) \<or> is_ascii_digit (of_char c)"
    using assms(1) by (auto simp: iban_shape_def codes_def list_all_iff)
  have st: "strip_spaces t = t" if "\<forall>c \<in> set t. is_ascii_uppercase (of_char c) \<or> is_ascii_digit (of_char c)" for t
    using that by (intro strip_spaces_none)
      (fastforce simp: is_ascii_uppercase_def is_ascii_digit_def is_whitespace_def)+
  have "set (s[i := c]) \<subseteq> insert c (set s)" by (rule set_update_subset_insert)
  then have su: "strip_spaces (s[i := c]) = s[i := c]"
    using sh assms(5) ascii_digit_char by (intro st) auto
  obtain j where j: "j < length (iban_numeric s)" "iban_numeric s ! j = s ! i"
      "iban_numeric (s[i := c]) = (iban_numeric s)[j := c]"
    using iban_numeric_update [OF assms(3,4,5)] by blast
  have "dec_value (iban_numeric (s[i := c])) mod 97 \<noteq> dec_value (iban_numeric s) mod 97"
    using digit_error [OF iban_numeric_digits [OF assms(1)] j(1) assms(5)] j assms(6) by simp
  moreover have "dec_value (iban_numeric s) mod 97 = 1"
    using assms(2) st [OF sh] by (simp add: is_valid_iban_eq)
  ultimately show ?thesis using su by (simp add: is_valid_iban_eq)
qed

section \<open>scan: proofs\<close>

lemma nir_match_valid:
  assumes "rx_laws R" and "is_str txt" and "(a, b) \<in> set (rx_find R (re_fr_nir (rx_digit R)) txt)"
  shows "\<exists>v. is_valid_nir (slice a b txt) = Returns v"
proof -
  have ab: "a \<le> b" "b \<le> length txt" "is_char_boundary txt a" "is_char_boundary txt b"
    and m: "chars (drop b txt) \<in> snd ` set (rx_step (rx_word R) (re_fr_nir (rx_digit R))
        (last_opt (chars (take a txt)), chars (drop a txt)))"
    using assms unfolding rx_laws_def by blast+
  have "\<And>c. rx_digit R c \<Longrightarrow> \<not> is_whitespace c" using assms(1) by (simp add: rx_laws_def)
  then have eat: "eats (rx_word R) (re_fr_nir (rx_digit R)) 15" by (rule eats_nir)
  obtain w' where sw: "chars (drop b txt) = snd w'" and w': "w' \<in> set (rx_step (rx_word R)
      (re_fr_nir (rx_digit R)) (last_opt (chars (take a txt)), chars (drop a txt)))"
    using m by (rule imageE)
  obtain p where p: "chars (drop a txt) = p @ chars (drop b txt)" "visible p = 15"
    using eatsD [OF eat w'] unfolding sw snd_conv by blast
  have "drop a txt = slice a b txt @ drop b txt" using ab(1,2)
    by (metis append_take_drop_id drop_drop le_add_diff_inverse2 slice_def)
  moreover have "is_str (slice a b txt)" by (rule slice_str [OF assms(2) ab])
  moreover have "is_str (drop b txt)" using is_str_split(2) [OF assms(2) ab(4,2)] .
  ultimately have "chars (slice a b txt) = p" using p(1) chars_append by (metis append_same_eq)
  then have vis: "length (chars (strip_spaces (slice a b txt))) = 15" using p(2) by simp
  show ?thesis
  proof (cases "length (strip_spaces (slice a b txt)) = 15")
    case True
    then have "\<forall>c \<in> set (strip_spaces (slice a b txt)). (of_char c :: nat) < 128"
      using vis chars_narrow [of "strip_spaces (slice a b txt)"] by simp
    from is_valid_nir_ascii [OF this True] show ?thesis by blast
  qed (use is_valid_nir_len in blast)
qed

lemma checked_hits_ok:
  assumes "\<forall>s \<in> set ss. span_in txt s \<and> (\<exists>v. valid (slice (sp_start s) (sp_end s) txt) = Returns v)"
  shows "checked_hits valid txt ss =
     Returns (filter (\<lambda>s. valid (slice (sp_start s) (sp_end s) txt) = Returns True) ss)"
  using assms
proof (induction ss)
  case (Cons s ss)
  then obtain v where v: "valid (slice (sp_start s) (sp_end s) txt) = Returns v" by auto
  have "str_slice (sp_start s) (sp_end s) txt = Returns (slice (sp_start s) (sp_end s) txt)"
    using Cons.prems by (simp add: span_in_def str_slice_ok)
  with v Cons show ?case by simp
qed simp

lemma hits_in:
  assumes "rx_laws R" and "is_str txt" and "s \<in> set (hits R r k txt)"
  shows "span_in txt s"
  using assms unfolding hits_def rx_laws_def span_in_def by fastforce

text \<open>What \<open>scan\<close> returns: the hits of the five patterns, those with a checksum filtered by it.\<close>

definition scan_spec :: "rx_env \<Rightarrow> string \<Rightarrow> span list" where
  "scan_spec R txt =
     filter (\<lambda>s. is_valid_nir (slice (sp_start s) (sp_end s) txt) = Returns True)
       (hits R (re_fr_nir (rx_digit R)) Nir txt) @
     filter (\<lambda>s. is_valid_iban (slice (sp_start s) (sp_end s) txt) = Returns True)
       (hits R (re_iban (rx_digit R)) Iban txt) @
     hits R (re_e164 (rx_digit R)) Phone txt @ hits R re_email Email txt @ hits R re_uuid Uuid txt"

lemma scan_eq:
  assumes "rx_laws R" and "is_str txt"
  shows "scan R txt = Returns (scan_spec R txt)"
proof -
  have "\<exists>v. is_valid_nir (slice (sp_start s) (sp_end s) txt) = Returns v"
    if "s \<in> set (hits R (re_fr_nir (rx_digit R)) Nir txt)" for s
    using that nir_match_valid [OF assms] by (auto simp: hits_def)
  with hits_in [OF assms] checked_hits_ok
  have "checked_hits is_valid_nir txt (hits R (re_fr_nir (rx_digit R)) Nir txt) =
      Returns (filter (\<lambda>s. is_valid_nir (slice (sp_start s) (sp_end s) txt) = Returns True)
       (hits R (re_fr_nir (rx_digit R)) Nir txt))" by blast
  moreover have "checked_hits is_valid_iban txt (hits R (re_iban (rx_digit R)) Iban txt) =
      Returns (filter (\<lambda>s. is_valid_iban (slice (sp_start s) (sp_end s) txt) = Returns True)
       (hits R (re_iban (rx_digit R)) Iban txt))"
    using hits_in [OF assms] checked_hits_ok is_valid_iban_eq by blast
  ultimately show ?thesis by (simp add: scan_def scan_spec_def)
qed

interpretation regex: span_scanner rx_laws scan_spec
  by unfold_locales (auto simp: scan_spec_def intro: hits_in)

section \<open>Properties\<close>

text \<open>
  C36. \<open>scan\<close> never panics, although its NIR validator slices bytes: every hit lies in the text on
  character boundaries, and every NIR and IBAN hit passes its check digits.
\<close>

theorem scan_sound:
  assumes "rx_laws R" and "is_str txt"
  shows "\<exists>spans. scan R txt = Returns spans \<and> (\<forall>s \<in> set spans. span_in txt s \<and>
     (sp_kind s = Nir \<longrightarrow> is_valid_nir (slice (sp_start s) (sp_end s) txt) = Returns True) \<and>
     (sp_kind s = Iban \<longrightarrow> is_valid_iban (slice (sp_start s) (sp_end s) txt) = Returns True))"
proof -
  have "\<forall>s \<in> set (scan_spec R txt). span_in txt s" using regex.spans_in [OF assms] by blast
  then show ?thesis using scan_eq [OF assms] by (auto simp: scan_spec_def hits_def)
qed

text \<open>
  The regex-only \<open>sanitize\<close> never panics and returns a string: the text itself when nothing is
  found, else the text with each chosen hit replaced by its token.
\<close>

theorem sanitize_regex_safe:
  assumes "rx_laws R" and "is_str txt" and "vault_strs ctx"
  shows "\<exists>c st'. sanitize_regex R txt ctx st = Returns (c, st') \<and> is_str (cow_str c) \<and>
     (if scan R txt = Returns [] then c = Borrowed txt
      else (cow_str c, st') = pieces ctx txt (merge_and_dedup (scan_spec R txt)) 0 st)"
proof -
  have s: "sanitize_regex R txt ctx st = sanitize_spans (scan_spec R txt) txt ctx st"
    using scan_eq [OF assms(1,2)] by (simp add: sanitize_regex_def)
  have "\<exists>r. sanitize_regex R txt ctx st = Returns r"
    using regex.sanitize_returns [OF assms(1,2), of ctx st] s by simp
  then obtain c st' where r: "sanitize_regex R txt ctx st = Returns (c, st')" by (metis surj_pair)
  then have "is_str (cow_str c)" using regex.sanitize_str [OF assms, of st c st'] s by simp
  moreover have "if scan R txt = Returns [] then c = Borrowed txt
      else (cow_str c, st') = pieces ctx txt (merge_and_dedup (scan_spec R txt)) 0 st"
    using regex.sanitize_returns [OF assms(1,2), of ctx st] r s scan_eq [OF assms(1,2)]
    by (auto simp: map_prod_def split: prod.splits if_splits)
  ultimately show ?thesis using r by blast
qed

text \<open>
  C34. The streaming IBAN check is the ISO 13616 one: the compacted string has 15 to 34 capital letters
  and digits, and the decimal number got by moving the first four characters to the end and writing
  each letter as 10 to 35 is 1 modulo 97. It never panics.
\<close>

theorem iban_check_is_mod97:
  "is_valid_iban raw = Returns (iban_shape (strip_spaces raw) \<and>
     dec_value (iban_numeric (strip_spaces raw)) mod 97 = 1)"
  by (rule is_valid_iban_eq)

text \<open>
  C35. One wrong digit is always caught: a valid 15-digit NIR stays valid under no change of one digit,
  and no more does a valid IBAN under a change of one of its digits.
\<close>

theorem checksums_catch_one_digit:
  assumes "is_digit_char c" and "c \<noteq> s ! i" and "i < length s" and "is_digit_char (s ! i)"
  shows "(list_all is_digit_char s \<and> length s = 15 \<and> is_valid_nir s = Returns True \<longrightarrow>
       is_valid_nir (s[i := c]) = Returns False) \<and>
     (iban_shape s \<and> is_valid_iban s = Returns True \<longrightarrow> is_valid_iban (s[i := c]) = Returns False)"
  using nir_digit_error [of s i c] iban_digit_error [of s i c] assms by auto

section \<open>A concrete search and the witnesses\<close>

text \<open>A search of ASCII texts that reports the leftmost match.\<close>

definition toy_find :: "rx \<Rightarrow> string \<Rightarrow> (nat \<times> nat) list" where
  "toy_find r txt =
     (if list_all (\<lambda>c. (of_char c :: nat) < 128) txt then
        take 1 (concat (map (\<lambda>a. map (\<lambda>w. (a, length txt - length (snd w)))
          (rx_step is_ascii_digit r (last_opt (codes (take a txt)), codes (drop a txt)))) [0..<length txt]))
      else [])"

definition toy_rx :: rx_env where
  "toy_rx = \<lparr>rx_find = toy_find, rx_digit = is_ascii_digit, rx_word = is_ascii_digit\<rparr>"

definition leaves_suffix :: "(pos \<Rightarrow> pos list) \<Rightarrow> bool" where
  "leaves_suffix f \<longleftrightarrow> (\<forall>w. \<forall>w' \<in> set (f w). \<exists>p. snd w = p @ snd w')"

lemma leaves_suffix_bind:
  assumes "leaves_suffix f" and "leaves_suffix g"
  shows "leaves_suffix (\<lambda>w. concat (map g (f w)))"
  unfolding leaves_suffix_def
proof (intro allI ballI)
  fix w w' assume "w' \<in> set (concat (map g (f w)))"
  then obtain v where v: "v \<in> set (f w)" "w' \<in> set (g v)" by auto
  obtain p where "snd w = p @ snd v" using assms(1) v(1) unfolding leaves_suffix_def by blast
  moreover obtain q where "snd v = q @ snd w'" using assms(2) v(2) unfolding leaves_suffix_def by blast
  ultimately show "\<exists>p. snd w = p @ snd w'" by simp
qed

lemma leaves_suffix_or_self: "leaves_suffix f \<Longrightarrow> leaves_suffix (\<lambda>w. f w @ [w])"
  by (auto simp: leaves_suffix_def)

lemma leaves_suffix_times: "leaves_suffix f \<Longrightarrow> leaves_suffix (rx_times n f)"
proof (induction n)
  case (Suc n)
  from leaves_suffix_bind [OF Suc.prems Suc.IH [OF Suc.prems]] show ?case
    by (simp add: leaves_suffix_def)
qed (simp add: leaves_suffix_def)

lemma leaves_suffix_upto: "leaves_suffix f \<Longrightarrow> leaves_suffix (rx_upto n f)"
proof (induction n)
  case (Suc n)
  from leaves_suffix_or_self [OF leaves_suffix_bind [OF Suc.prems Suc.IH [OF Suc.prems]]]
  show ?case unfolding leaves_suffix_def rx_upto.simps .
qed (simp add: leaves_suffix_def)

lemma rx_step_suffix: "leaves_suffix (rx_step wd r)"
proof (induction r)
  case (Cls p)
  then show ?case by (auto simp: leaves_suffix_def split: list.splits if_splits)
next
  case (Seq a b)
  from leaves_suffix_bind [OF this] show ?case unfolding leaves_suffix_def rx_step.simps .
next
  case (Alt a b)
  then show ?case unfolding leaves_suffix_def rx_step.simps by (metis Un_iff set_append)
next
  case (Opt a)
  from leaves_suffix_or_self [OF this] show ?case unfolding leaves_suffix_def rx_step.simps .
next
  case (Rep n a)
  from leaves_suffix_times [OF this] show ?case unfolding leaves_suffix_def rx_step.simps by blast
next
  case (Upto n a)
  from leaves_suffix_upto [OF this] show ?case unfolding leaves_suffix_def rx_step.simps by blast
next
  case (Star a)
  from leaves_suffix_upto [OF this] show ?case unfolding leaves_suffix_def rx_step.simps by blast
qed (simp add: leaves_suffix_def)

lemma toy_rx_laws: "rx_laws toy_rx"
proof -
  have "a \<le> b \<and> b \<le> length tt \<and> is_char_boundary tt a \<and> is_char_boundary tt b \<and>
      chars (drop b tt) \<in> snd ` set (rx_step is_ascii_digit r (last_opt (chars (take a tt)), chars (drop a tt)))"
    if ab: "(a, b) \<in> set (toy_find r tt)" for r tt a b
  proof -
    have asc: "\<forall>c \<in> set tt. (of_char c :: nat) < 128"
      using ab by (simp add: toy_find_def list_all_iff split: if_splits)
    have ch: "chars (take k tt) = codes (take k tt)" "chars (drop k tt) = codes (drop k tt)" for k
      using asc by (intro conjunct2 [OF ascii_is_str]; auto dest: in_set_takeD in_set_dropD)+
    from ab obtain w where a: "a < length tt" and b: "b = length tt - length (snd w)"
      and w: "w \<in> set (rx_step is_ascii_digit r (last_opt (codes (take a tt)), codes (drop a tt)))"
      by (auto simp: toy_find_def split: if_splits dest!: in_set_takeD)
    obtain p where p: "codes (drop a tt) = p @ snd w"
      using rx_step_suffix [of is_ascii_digit r] w unfolding leaves_suffix_def by fastforce
    from arg_cong [OF this, of length] a have len: "length tt = a + length p + length (snd w)" by simp
    with b have bb: "b = a + length p" by simp
    have "codes (drop b tt) = drop (length p) (codes (drop a tt))"
      by (simp add: bb codes_def drop_map add.commute)
    then have "codes (drop b tt) = snd w" using p by simp
    with w show ?thesis using len bb by (auto simp: ascii_boundary [OF asc] ch)
  qed
  moreover have "\<forall>c. is_ascii_digit c \<longrightarrow> \<not> is_whitespace c"
    by (auto simp: is_ascii_digit_def is_whitespace_def)
  ultimately show ?thesis by (simp add: rx_laws_def toy_rx_def)
qed

theorem scan_sound_witness:
  "\<exists>spans. scan toy_rx ''call +33612345678 now'' = Returns spans \<and>
     (\<forall>s \<in> set spans. span_in ''call +33612345678 now'' s)"
  using scan_sound [OF toy_rx_laws, of "''call +33612345678 now''"] by (auto simp: ascii_is_str)

theorem sanitize_regex_safe_witness:
  "\<exists>c st'. sanitize_regex toy_rx ''call +33612345678 now'' (placeholder_only 1) () = Returns (c, st') \<and>
     is_str (cow_str c)"
proof -
  have v: "vault_strs (placeholder_only 1 :: unit sanitize_ctx)"
    by (simp add: vault_strs_def placeholder_only_def)
  have t: "is_str ''call +33612345678 now''" by (simp add: ascii_is_str)
  show ?thesis using sanitize_regex_safe [OF toy_rx_laws t v, of "()"] by blast
qed

theorem checksums_catch_one_digit_witness:
  "is_valid_nir ''185127510811110'' = Returns True \<and> is_valid_nir ''185127510811117'' = Returns False"
proof -
  have d: "list_all is_digit_char ''185127510811110''" by (simp add: is_digit_char_def)
  have v: "is_valid_nir ''185127510811110'' = Returns True"
    using nir_digits [OF d] by (simp add: dec_value_def digit_val_def)
  have "is_valid_nir (''185127510811110''[14 := CHR ''7'']) = Returns False"
    using checksums_catch_one_digit [of "CHR ''7''" "''185127510811110''" 14] d v
    by (simp add: is_digit_char_def)
  with v show ?thesis by simp
qed

end
