(* ===== verification/Ner.thy ===== *)
theory Ner
  imports Regex_Scan Connector
begin

text \<open>
  The named-entity pass of the sanitizer, \<open>ingestion/src/sanitize/ner.rs\<close>, and the full pipeline of
  \<open>sanitize\<close> (shape (c) of \<open>sanitize/mod.rs\<close>), which joins its spans to those of the regex scan.

  The tokenizer, the model hub, the tensors and the JSON parser are third-party: \<open>hub\<close> holds the
  outcomes of what the loading asks for, \<open>infer\<close> those of the tokenizer and of the tensor operations, on
  opaque objects of a type \<open>'o\<close>. The device is always the CPU and has no field.
  The static \<open>OnceLock\<close> is the cell that \<open>scan\<close> passes on: \<open>None\<close> before the first use, \<open>Some None\<close> after a load that failed.
\<close>

section \<open>Labels\<close>

definition map_label :: "string \<Rightarrow> entity_kind option" where
  "map_label lbl =
     (if lbl = ''B-PER'' \<or> lbl = ''I-PER'' then Some Person
      else if lbl = ''B-ORG'' \<or> lbl = ''I-ORG'' then Some Org
      else if lbl = ''B-LOC'' \<or> lbl = ''I-LOC'' then Some Loc
      else None)"

section \<open>bio_merge\<close>

type_synonym open_span = "(nat \<times> nat \<times> entity_kind) option"

text \<open>\<open>out.push(Span \<dots>)\<close> of an open span, if there is one.\<close>

fun push_open :: "open_span \<Rightarrow> span list \<Rightarrow> span list" where
  "push_open None out = out"
| "push_open (Some (a, b, k)) out = out @ [\<lparr>sp_start = a, sp_end = b, sp_kind = k\<rparr>]"

definition bio_step :: "string list \<Rightarrow> nat \<times> nat \<Rightarrow> u32 \<Rightarrow> span list \<times> open_span \<Rightarrow> span list \<times> open_span" where
  "bio_step labels off lid acc =
     (let (out, opn) = acc; (s, e) = off in
      if s = 0 \<and> e = 0 then (push_open opn out, None)
      else
        let lbl = (if unat lid < length labels then labels ! unat lid else ''O'');
            is_begin = starts_with lbl ''B-'';
            is_inside = starts_with lbl ''I-'' in
        case map_label lbl of
          Some k \<Rightarrow>
            if is_begin then (push_open opn out, Some (s, e, k))
            else if is_inside then
              (case opn of
                 Some (a, b, pk) \<Rightarrow>
                   if pk = k then (out, Some (a, e, pk)) else (push_open opn out, Some (s, e, k))
               | None \<Rightarrow> (out, Some (s, e, k)))
            else (push_open opn out, None)
        | None \<Rightarrow> (push_open opn out, None))"

fun bio_loop :: "string list \<Rightarrow> (nat \<times> nat) list \<Rightarrow> nat \<Rightarrow> u32 list \<Rightarrow> span list \<times> open_span \<Rightarrow> span list \<times> open_span" where
  "bio_loop labels offsets i [] acc = acc"
| "bio_loop labels offsets i (lid # lids) acc =
     bio_loop labels offsets (i + 1) lids
       (bio_step labels (if i < length offsets then offsets ! i else (0, 0)) lid acc)"

definition bio_merge :: "(nat \<times> nat) list \<Rightarrow> u32 list \<Rightarrow> string list \<Rightarrow> span list" where
  "bio_merge offsets label_ids labels =
     (let (out, opn) = bio_loop labels offsets 0 label_ids ([], None) in push_open opn out)"

section \<open>Loading the model\<close>

datatype ner_error = ModelLoad | Tokenize | Inference

definition MODEL_REPO :: string where
  "MODEL_REPO = ''Davlan/distilbert-base-multilingual-cased-ner-hrl''"

record 'o ner_model =
  nm_tokenizer :: 'o
  nm_distilbert :: 'o
  nm_classifier :: 'o
  nm_labels :: "string list"

record 'o hub =
  hb_api :: bool
  hb_get :: "string \<Rightarrow> string \<Rightarrow> string option"
  hb_tokenizer :: "string \<Rightarrow> 'o option"
  hb_read :: "string \<Rightarrow> string option"
  hb_json :: "string \<Rightarrow> json option"
  hb_config :: "string \<Rightarrow> ('o \<times> nat) option"
  hb_weights :: "string \<Rightarrow> 'o option"
  hb_distilbert :: "'o \<Rightarrow> 'o \<Rightarrow> 'o option"
  hb_linear :: "nat \<Rightarrow> nat \<Rightarrow> 'o \<Rightarrow> 'o option"

text \<open>\<open>Vec<String>\<close> panics when its capacity in bytes (24 for a string) would exceed \<open>isize::MAX\<close>.\<close>

definition vec_limit :: nat where
  "vec_limit = (2 ^ 63 - 1) div 24"

fun fill_labels :: "(string \<times> json) list \<Rightarrow> string list \<Rightarrow> (ner_error + string list) run" where
  "fill_labels [] labels = Returns (Inr labels)"
| "fill_labels ((k, v) # kvs) labels =
     (case parse_u64 k of
        None \<Rightarrow> Returns (Inl ModelLoad)
      | Some idx \<Rightarrow>
          (case json_as_str v of
             None \<Rightarrow> Returns (Inl ModelLoad)
           | Some lbl \<Rightarrow>
               if length labels \<le> idx then
                 if vec_limit < idx + 1 then Panics
                 else fill_labels kvs ((labels @ replicate (idx + 1 - length labels) ''O'')[idx := lbl])
               else fill_labels kvs (labels[idx := lbl])))"

text \<open>\<open>try_load_model\<close> up to the label map, and from it on; every failure is \<open>NerError::ModelLoad\<close>.\<close>

definition load_files :: "'o hub \<Rightarrow> ner_error + 'o \<times> string \<times> string \<times> (string \<times> json) list" where
  "load_files H =
     and_then (if hb_api H then Inr () else Inl ModelLoad) (\<lambda>_.
     and_then (ok_or ModelLoad (hb_get H MODEL_REPO ''tokenizer.json'')) (\<lambda>tokenizer_path.
     and_then (ok_or ModelLoad (hb_get H MODEL_REPO ''config.json'')) (\<lambda>config_path.
     and_then (ok_or ModelLoad (hb_get H MODEL_REPO ''model.safetensors'')) (\<lambda>weights_path.
     and_then (ok_or ModelLoad (hb_tokenizer H tokenizer_path)) (\<lambda>tokenizer.
     and_then (ok_or ModelLoad (hb_read H config_path)) (\<lambda>config_raw.
     and_then (ok_or ModelLoad (hb_json H config_raw)) (\<lambda>raw.
     and_then (ok_or ModelLoad (Option.bind (json_get ''id2label'' raw) json_as_object)) (\<lambda>id2label.
       Inr (tokenizer, config_raw, weights_path, id2label)))))))))"

definition load_network :: "'o hub \<Rightarrow> 'o \<Rightarrow> string \<Rightarrow> string \<Rightarrow> string list \<Rightarrow> ner_error + 'o ner_model" where
  "load_network H tokenizer config_raw weights_path labels =
     and_then (ok_or ModelLoad (hb_config H config_raw)) (\<lambda>(config, dim).
     and_then (ok_or ModelLoad (hb_weights H weights_path)) (\<lambda>vb.
     and_then (ok_or ModelLoad (hb_distilbert H vb config)) (\<lambda>distilbert.
     and_then (ok_or ModelLoad (hb_linear H dim (length labels) vb)) (\<lambda>classifier.
       Inr \<lparr>nm_tokenizer = tokenizer, nm_distilbert = distilbert, nm_classifier = classifier,
            nm_labels = labels\<rparr>))))"

definition try_load_model :: "'o hub \<Rightarrow> (ner_error + 'o ner_model) run" where
  "try_load_model H =
     (case load_files H of
        Inl e \<Rightarrow> Returns (Inl e)
      | Inr (tokenizer, config_raw, weights_path, id2label) \<Rightarrow>
          run_map (\<lambda>r. and_then r (load_network H tokenizer config_raw weights_path))
            (fill_labels id2label (replicate (length id2label) ''O'')))"

definition load_model :: "'o hub \<Rightarrow> 'o ner_model option run" where
  "load_model H = run_map (\<lambda>r. case r of Inr m \<Rightarrow> Some m | Inl _ \<Rightarrow> None) (try_load_model H)"

section \<open>scan\<close>

record 'o infer =
  nf_encode :: "'o \<Rightarrow> string \<Rightarrow> (u32 list \<times> (nat \<times> nat) list) option"
  nf_input :: "u32 list \<Rightarrow> 'o option"
  nf_ones :: "'o \<Rightarrow> 'o option"
  nf_forward :: "'o \<Rightarrow> 'o \<Rightarrow> 'o \<Rightarrow> 'o option"
  nf_classify :: "'o \<Rightarrow> 'o \<Rightarrow> 'o option"
  nf_argmax :: "'o \<Rightarrow> 'o option"
  nf_to_vec :: "'o \<Rightarrow> u32 list option"

text \<open>\<open>infer_spans\<close>: what a loaded model makes of a text.\<close>

definition infer_spans :: "'o infer \<Rightarrow> 'o ner_model \<Rightarrow> string \<Rightarrow> ner_error + span list" where
  "infer_spans I model txt =
     and_then (ok_or Tokenize (nf_encode I (nm_tokenizer model) txt)) (\<lambda>(ids, offsets).
     and_then (ok_or Inference (nf_input I ids)) (\<lambda>input_ids.
     and_then (ok_or Inference (nf_ones I input_ids)) (\<lambda>mask.
     and_then (ok_or Inference (nf_forward I (nm_distilbert model) input_ids mask)) (\<lambda>hidden.
     and_then (ok_or Inference (nf_classify I (nm_classifier model) hidden)) (\<lambda>logits.
     and_then (ok_or Inference (nf_argmax I logits)) (\<lambda>preds.
     and_then (ok_or Inference (nf_to_vec I preds)) (\<lambda>label_ids.
       Inr (bio_merge offsets label_ids (nm_labels model)))))))))"

type_synonym 'o cell = "'o ner_model option option"

definition get_or_init :: "'o hub \<Rightarrow> 'o cell \<Rightarrow> ('o ner_model option \<times> 'o cell) run" where
  "get_or_init H cell =
     (case cell of Some m \<Rightarrow> Returns (m, cell) | None \<Rightarrow> run_map (\<lambda>m. (m, Some m)) (load_model H))"

definition ner_scan :: "'o hub \<Rightarrow> 'o infer \<Rightarrow> string \<Rightarrow> 'o cell \<Rightarrow> ((ner_error + span list) \<times> 'o cell) run" where
  "ner_scan H I txt cell =
     (if txt = [] then Returns (Inr [], cell)
      else run_map (\<lambda>(m, cell'). (case m of Some model \<Rightarrow> infer_spans I model txt | None \<Rightarrow> Inl ModelLoad, cell'))
        (get_or_init H cell))"

section \<open>sanitize, shape (c)\<close>

definition sanitize_full :: "rx_env \<Rightarrow> 'o hub \<Rightarrow> 'o infer \<Rightarrow> string \<Rightarrow> 's sanitize_ctx \<Rightarrow> 'o cell \<times> 's \<Rightarrow>
    (cow \<times> 'o cell \<times> 's) run" where
  "sanitize_full R H I txt ctx w =
     run_bind (scan R txt) (\<lambda>spans.
     run_bind (ner_scan H I txt (fst w)) (\<lambda>(r, cell).
       let spans' = (case r of Inr ner_spans \<Rightarrow> spans @ ner_spans | Inl _ \<Rightarrow> spans) in
       run_map (\<lambda>(c, st). (c, cell, st)) (sanitize_spans spans' txt ctx (snd w))))"


section \<open>bio_merge: proofs\<close>

text \<open>
  The reference: a token has a tag; a span is a token that begins an entity (a \<open>B-\<close> label, or an \<open>I-\<close>
  label with nothing of its kind before it) with the tokens right behind it that have the \<open>I-\<close> label of
  its kind, from the start of the first to the end of the last.
\<close>

datatype tag = Outside | Begin entity_kind | Inside entity_kind

definition tag_of :: "string list \<Rightarrow> nat \<times> nat \<Rightarrow> u32 \<Rightarrow> tag" where
  "tag_of labels off lid =
     (if off = (0, 0) \<or> length labels \<le> unat lid then Outside
      else case map_label (labels ! unat lid) of
          None \<Rightarrow> Outside
        | Some k \<Rightarrow> if starts_with (labels ! unat lid) ''B-'' then Begin k else Inside k)"

definition offset_at :: "(nat \<times> nat) list \<Rightarrow> nat \<Rightarrow> nat \<times> nat" where
  "offset_at offsets i = (if i < length offsets then offsets ! i else (0, 0))"

definition tagged :: "(nat \<times> nat) list \<Rightarrow> u32 list \<Rightarrow> string list \<Rightarrow> nat \<Rightarrow> (tag \<times> nat \<times> nat) list" where
  "tagged offsets label_ids labels n =
     map (\<lambda>(i, lid). (tag_of labels (offset_at offsets i) lid, offset_at offsets i)) (enumerate n label_ids)"

text \<open>The tokens that continue an entity of a kind.\<close>

abbreviation inside_run :: "entity_kind \<Rightarrow> (tag \<times> nat \<times> nat) list \<Rightarrow> (tag \<times> nat \<times> nat) list" where
  "inside_run k \<equiv> takeWhile (\<lambda>t. fst t = Inside k)"

definition entity_span :: "nat \<Rightarrow> nat \<Rightarrow> entity_kind \<Rightarrow> (tag \<times> nat \<times> nat) list \<Rightarrow> span" where
  "entity_span s e k ts = \<lparr>sp_start = s, sp_end = last (e # map (\<lambda>t. snd (snd t)) (inside_run k ts)), sp_kind = k\<rparr>"

function entities :: "(tag \<times> nat \<times> nat) list \<Rightarrow> span list" where
  "entities [] = []"
| "entities ((Outside, _) # ts) = entities ts"
| "entities ((Begin k, s, e) # ts) = entity_span s e k ts # entities (dropWhile (\<lambda>t. fst t = Inside k) ts)"
| "entities ((Inside k, s, e) # ts) = entity_span s e k ts # entities (dropWhile (\<lambda>t. fst t = Inside k) ts)"
  by pat_completeness auto

termination
  by (relation "measure length") (auto simp: le_imp_less_Suc length_dropWhile_le)

text \<open>What an open span still gives, with the tags to come.\<close>

fun pending :: "open_span \<Rightarrow> (tag \<times> nat \<times> nat) list \<Rightarrow> span list" where
  "pending None ts = entities ts"
| "pending (Some (a, b, k)) ts = entity_span a b k ts # entities (dropWhile (\<lambda>t. fst t = Inside k) ts)"

lemma map_label_inside:
  assumes "map_label lbl = Some k" and "\<not> starts_with lbl ''B-''"
  shows "starts_with lbl ''I-''"
proof -
  have "lbl \<in> {''B-PER'', ''I-PER'', ''B-ORG'', ''I-ORG'', ''B-LOC'', ''I-LOC''}"
  proof (rule ccontr)
    assume "\<not> ?thesis"
    then have "map_label lbl = None" unfolding map_label_def by simp
    with assms(1) show False by simp
  qed
  then show ?thesis using assms(2) by (elim insertE emptyE) (simp_all add: starts_with_def)
qed

lemma map_label_O: "map_label ''O'' = None"
  by (simp add: map_label_def)

text \<open>One step on the tag of the token.\<close>

lemma bio_step_tag:
  "bio_step labels off lid (out, opn) =
     (case tag_of labels off lid of
        Outside \<Rightarrow> (push_open opn out, None)
      | Begin k \<Rightarrow> (push_open opn out, Some (fst off, snd off, k))
      | Inside k \<Rightarrow>
          (case opn of
             Some (a, b, pk) \<Rightarrow> if pk = k then (out, Some (a, snd off, pk))
               else (push_open opn out, Some (fst off, snd off, k))
           | None \<Rightarrow> (out, Some (fst off, snd off, k))))"
proof (cases "off = (0, 0) \<or> length labels \<le> unat lid")
  case True
  then have "tag_of labels off lid = Outside" unfolding tag_of_def by (rule if_P)
  moreover have "bio_step labels off lid (out, opn) = (push_open opn out, None)"
    using True by (cases off) (auto simp: bio_step_def Let_def map_label_O)
  ultimately show ?thesis by simp
next
  case False
  define lbl where "lbl = labels ! unat lid"
  define b where "b \<longleftrightarrow> starts_with lbl ''B-''"
  have tag: "tag_of labels off lid =
      (case map_label lbl of None \<Rightarrow> Outside | Some k \<Rightarrow> if b then Begin k else Inside k)"
    unfolding tag_of_def lbl_def b_def using False by (rule if_not_P)
  have ins: "map_label lbl = Some k \<Longrightarrow> \<not> b \<Longrightarrow> starts_with lbl ''I-''" for k
    using map_label_inside unfolding b_def .
  obtain s e where off: "off = (s, e)" by fastforce
  have "bio_step labels off lid (out, opn) =
      (case map_label lbl of
         Some k \<Rightarrow>
           if b then (push_open opn out, Some (s, e, k))
           else if starts_with lbl ''I-'' then
             (case opn of
                Some (a, b, pk) \<Rightarrow>
                  if pk = k then (out, Some (a, e, pk)) else (push_open opn out, Some (s, e, k))
              | None \<Rightarrow> (out, Some (s, e, k)))
           else (push_open opn out, None)
       | None \<Rightarrow> (push_open opn out, None))"
    unfolding bio_step_def lbl_def b_def using False off by (auto simp: Let_def)
  then show ?thesis
    using ins off tag by (cases "map_label lbl"; cases b; cases opn) auto
qed

lemma bio_loop_pending:
  "bio_loop labels offsets i lids (out, opn) = (out', opn') \<Longrightarrow>
     push_open opn' out' = out @ pending opn (tagged offsets lids labels i)"
proof (induction lids arbitrary: i out opn)
  case Nil
  then show ?case by (cases opn rule: push_open.cases [of "(opn, out)" for opn]) (auto simp: tagged_def entity_span_def)
next
  case (Cons lid lids)
  have t: "tagged offsets (lid # lids) labels i =
      (tag_of labels (offset_at offsets i) lid, offset_at offsets i) # tagged offsets lids labels (Suc i)"
    by (simp add: tagged_def)
  obtain s e where off: "offset_at offsets i = (s, e)" by (cases "offset_at offsets i")
  obtain out1 opn1 where st: "bio_step labels (s, e) lid (out, opn) = (out1, opn1)" by fastforce
  with Cons.prems off have "bio_loop labels offsets (Suc i) lids (out1, opn1) = (out', opn')"
    by (simp add: offset_at_def)
  from Cons.IH [OF this] have ih: "push_open opn' out' = out1 @ pending opn1 (tagged offsets lids labels (Suc i))" .
  show ?case
  proof (cases opn)
    case None
    with st ih show ?thesis unfolding t off bio_step_tag
      by (cases "tag_of labels (s, e) lid") auto
  next
    case (Some abk)
    obtain a b k where "abk = (a, b, k)" by (cases abk)
    with Some st ih show ?thesis unfolding t off bio_step_tag
      by (cases "tag_of labels (s, e) lid") (auto simp: entity_span_def split: if_splits)
  qed
qed

lemma bio_merge_eq: "bio_merge offsets label_ids labels = entities (tagged offsets label_ids labels 0)"
  using bio_loop_pending [of labels offsets 0 label_ids "[]" None]
  by (auto simp: bio_merge_def split: prod.split)

section \<open>What is asked of the tokenizer\<close>

text \<open>
  The offset pairs of a text are byte ranges of it on character boundaries, in the order of the text;
  the pair \<open>(0, 0)\<close> is a special token.
\<close>

definition follows :: "nat \<times> nat \<Rightarrow> nat \<times> nat \<Rightarrow> bool" where
  "follows a b \<longleftrightarrow> a \<noteq> (0, 0) \<longrightarrow> b \<noteq> (0, 0) \<longrightarrow> fst a \<le> fst b"

definition offset_in :: "string \<Rightarrow> nat \<times> nat \<Rightarrow> bool" where
  "offset_in txt off \<longleftrightarrow> fst off \<le> snd off \<and> snd off \<le> length txt \<and>
     is_char_boundary txt (fst off) \<and> is_char_boundary txt (snd off)"

definition ner_laws :: "'o infer \<Rightarrow> 'o ner_model \<Rightarrow> bool" where
  "ner_laws I model \<longleftrightarrow>
     (\<forall>txt ids offsets. is_str txt \<longrightarrow> nf_encode I (nm_tokenizer model) txt = Some (ids, offsets) \<longrightarrow>
        list_all (offset_in txt) offsets \<and> sorted_wrt follows offsets)"

section \<open>The spans lie in the text\<close>

definition tokens_in :: "string \<Rightarrow> (tag \<times> nat \<times> nat) list \<Rightarrow> bool" where
  "tokens_in txt ts \<longleftrightarrow> (\<forall>t \<in> set ts. fst t \<noteq> Outside \<longrightarrow> offset_in txt (snd t)) \<and>
     sorted_wrt (\<lambda>a b. fst a \<noteq> Outside \<longrightarrow> fst b \<noteq> Outside \<longrightarrow> fst (snd a) \<le> fst (snd b)) ts"

lemma tokens_in_Cons:
  "tokens_in txt (t # ts) \<longleftrightarrow> tokens_in txt ts \<and> (fst t \<noteq> Outside \<longrightarrow> offset_in txt (snd t) \<and>
     (\<forall>u \<in> set ts. fst u \<noteq> Outside \<longrightarrow> fst (snd t) \<le> fst (snd u)))"
  by (auto simp: tokens_in_def)

lemma tokens_in_dropWhile: "tokens_in txt ts \<Longrightarrow> tokens_in txt (dropWhile p ts)"
  by (induction ts) (auto simp: tokens_in_Cons)

lemma entity_span_in:
  assumes "tokens_in txt ((g, s, e) # ts)" and "g \<noteq> Outside"
  shows "span_in txt (entity_span s e k ts)"
proof (cases "inside_run k ts" rule: rev_cases)
  case Nil
  with assms show ?thesis by (simp add: entity_span_def tokens_in_Cons offset_in_def span_in_def)
next
  case (snoc us u)
  then have "u \<in> set (inside_run k ts)" by simp
  then have u: "u \<in> set ts" "fst u = Inside k" by (auto dest: set_takeWhileD)
  with assms have "s \<le> fst (snd u)" "offset_in txt (snd u)" "offset_in txt (s, e)"
    by (auto simp: tokens_in_def)
  with snoc show ?thesis by (auto simp: entity_span_def offset_in_def span_in_def)
qed

lemma entities_in: "tokens_in txt ts \<Longrightarrow> s \<in> set (entities ts) \<Longrightarrow> span_in txt s"
proof (induction ts rule: entities.induct)
  case (3 k a b ts)
  have "tokens_in txt (dropWhile (\<lambda>t. fst t = Inside k) ts)"
    using 3(2) by (simp add: tokens_in_Cons tokens_in_dropWhile)
  with 3 entity_span_in [OF 3(2)] show ?case by auto
next
  case (4 k a b ts)
  have "tokens_in txt (dropWhile (\<lambda>t. fst t = Inside k) ts)"
    using 4(2) by (simp add: tokens_in_Cons tokens_in_dropWhile)
  with 4 entity_span_in [OF 4(2)] show ?case by auto
qed (simp_all add: tokens_in_Cons)

lemma tag_of_special: "tag_of labels off lid \<noteq> Outside \<Longrightarrow> off \<noteq> (0, 0)"
  by (auto simp: tag_of_def)

lemma tagged_in:
  assumes "list_all (offset_in txt) offsets" and "sorted_wrt follows offsets"
  shows "tokens_in txt (tagged offsets lids labels 0)"
proof -
  have n: "tagged offsets lids labels 0 ! i = (tag_of labels (offset_at offsets i) (lids ! i), offset_at offsets i)"
    if "i < length lids" for i
    using that by (simp add: tagged_def nth_enumerate_eq)
  have at: "i < length offsets \<and> offset_at offsets i = offsets ! i" if "offset_at offsets i \<noteq> (0, 0)" for i
    using that by (auto simp: offset_at_def split: if_splits)
  have len: "length (tagged offsets lids labels 0) = length lids" by (simp add: tagged_def)
  have "offset_in txt (snd t)" if t: "t \<in> set (tagged offsets lids labels 0)" "fst t \<noteq> Outside" for t
  proof -
    obtain i where i: "i < length lids" "t = tagged offsets lids labels 0 ! i"
      using t(1) len by (metis in_set_conv_nth)
    with n t(2) have "offset_at offsets i \<noteq> (0, 0)" by (auto dest: tag_of_special)
    with at [of i] assms(1) i n show ?thesis by (auto simp: list_all_length)
  qed
  moreover have "fst (snd (tagged offsets lids labels 0 ! i)) \<le> fst (snd (tagged offsets lids labels 0 ! j))"
    if "i < j" "j < length lids" "fst (tagged offsets lids labels 0 ! i) \<noteq> Outside"
      "fst (tagged offsets lids labels 0 ! j) \<noteq> Outside" for i j
  proof -
    have "offset_at offsets i \<noteq> (0, 0)" "offset_at offsets j \<noteq> (0, 0)"
      using that n [of i] n [of j] by (auto dest: tag_of_special)
    with at [of i] at [of j] assms(2) that n [of i] n [of j] show ?thesis
      by (auto simp: sorted_wrt_iff_nth_less follows_def)
  qed
  ultimately show ?thesis by (auto simp: tokens_in_def sorted_wrt_iff_nth_less len)
qed

lemma infer_spans_in:
  assumes "ner_laws I model" and "is_str txt" and "infer_spans I model txt = Inr spans" and "s \<in> set spans"
  shows "span_in txt s"
proof -
  obtain ids offsets label_ids where "nf_encode I (nm_tokenizer model) txt = Some (ids, offsets)"
    and sp: "spans = bio_merge offsets label_ids (nm_labels model)"
    using assms(3) by (auto simp: infer_spans_def split: prod.splits)
  with assms(1,2) have "list_all (offset_in txt) offsets" "sorted_wrt follows offsets"
    unfolding ner_laws_def by blast+
  from entities_in [OF tagged_in [OF this]] assms(4) sp show ?thesis by (simp add: bio_merge_eq)
qed

text \<open>The joint scanner: the regex spans and those of a loaded model, which count when it answers.\<close>

definition ner_hits :: "'o infer \<Rightarrow> 'o ner_model option \<Rightarrow> string \<Rightarrow> span list" where
  "ner_hits I m txt =
     (if txt = [] then []
      else case m of None \<Rightarrow> []
        | Some model \<Rightarrow> (case infer_spans I model txt of Inl _ \<Rightarrow> [] | Inr spans \<Rightarrow> spans))"

definition joint_ok :: "rx_env \<times> 'o infer \<times> 'o ner_model option \<Rightarrow> bool" where
  "joint_ok = (\<lambda>(R, I, m). rx_laws R \<and> (\<forall>model. m = Some model \<longrightarrow> ner_laws I model))"

definition joint_spans :: "rx_env \<times> 'o infer \<times> 'o ner_model option \<Rightarrow> string \<Rightarrow> span list" where
  "joint_spans = (\<lambda>(R, I, m) txt. scan_spec R txt @ ner_hits I m txt)"

lemma ner_hits_in:
  "(\<And>model. m = Some model \<Longrightarrow> ner_laws I model) \<Longrightarrow> is_str txt \<Longrightarrow> s \<in> set (ner_hits I m txt) \<Longrightarrow> span_in txt s"
  using infer_spans_in [of I _ "txt" _ s] by (auto simp: ner_hits_def split: option.splits sum.splits if_splits)

interpretation joint: span_scanner joint_ok joint_spans
proof (unfold_locales, goal_cases)
  case (1 p t s)
  obtain R I m where p: "p = (R, I, m)" by (cases p)
  with 1 have "s \<in> set (scan_spec R t) \<or> s \<in> set (ner_hits I m t)" by (simp add: joint_spans_def)
  then show ?case
    using 1(1,2) regex.spans_in [of R t s] ner_hits_in [of m I t s] by (auto simp: p joint_ok_def)
qed

section \<open>The pipeline\<close>

text \<open>The ids of the label map fit into a vector.\<close>

definition labels_fit :: "'o hub \<Rightarrow> bool" where
  "labels_fit H \<longleftrightarrow> (\<forall>tok raw w l. load_files H = Inr (tok, raw, w, l) \<longrightarrow>
     list_all (\<lambda>(k, v). case parse_u64 k of None \<Rightarrow> True | Some i \<Rightarrow> i < vec_limit) l)"

lemma fill_labels_returns:
  "list_all (\<lambda>(k, v). case parse_u64 k of None \<Rightarrow> True | Some i \<Rightarrow> i < vec_limit) l \<Longrightarrow>
     \<exists>r. fill_labels l labels = Returns r"
  by (induction l labels rule: fill_labels.induct) (auto split: option.splits)

lemma get_or_init_returns:
  assumes "labels_fit H"
  shows "\<exists>m. get_or_init H cell = Returns (m, Some m)"
proof (cases cell)
  case None
  have "\<exists>r. try_load_model H = Returns r"
  proof (cases "load_files H")
    case (Inr p)
    obtain tok raw w l where p: "p = (tok, raw, w, l)" by (cases p)
    with Inr assms obtain r where "fill_labels l (replicate (length l) ''O'') = Returns r"
      unfolding labels_fit_def using fill_labels_returns by blast
    with Inr p show ?thesis by (simp add: try_load_model_def)
  qed (simp add: try_load_model_def)
  with None show ?thesis by (auto simp: get_or_init_def load_model_def)
qed (simp add: get_or_init_def)

lemma ner_scan_hits:
  assumes "get_or_init H cell = Returns (m, cell')"
  shows "\<exists>r cell''. ner_scan H I txt cell = Returns (r, cell'') \<and>
     (case r of Inr spans \<Rightarrow> spans | Inl _ \<Rightarrow> []) = ner_hits I m txt"
  using assms by (auto simp: ner_scan_def ner_hits_def split: option.splits sum.splits)

section \<open>Properties\<close>

text \<open>
  C26. \<open>bio_merge\<close> groups the tokens into entities: each span is a token labelled \<open>B-\<close> of a kept kind, or
  a stray \<open>I-\<close>, together with the \<open>I-\<close> tokens of its kind right behind it; special tokens, unknown
  labels, \<open>O\<close> and \<open>MISC\<close> end an entity.
\<close>

theorem bio_merge_entities:
  "bio_merge offsets label_ids labels = entities (tagged offsets label_ids labels 0)"
  by (rule bio_merge_eq)


text \<open>
  The model is loaded once: after a load that failed, every later scan of a text fails with
  \<open>ModelLoad\<close>, whatever the hub would answer by then.
\<close>

theorem ner_load_failure_is_final:
  assumes "ner_scan H I txt cell = Returns (Inl ModelLoad, cell')" and "txt' \<noteq> []"
  shows "ner_scan H' I' txt' cell' = Returns (Inl ModelLoad, cell')"
proof -
  have "Inl ModelLoad \<noteq> infer_spans I model txt" for model
    by (auto simp: infer_spans_def eq_commute [of "Inl ModelLoad"] and_then_Inl_iff split: prod.splits)
  with assms(1) obtain m where "get_or_init H cell = Returns (m, cell')" "m = None"
    by (auto simp: ner_scan_def split: if_splits option.splits)
  then have "cell' = Some None" by (auto simp: get_or_init_def split: option.splits)
  with assms(2) show ?thesis by (simp add: ner_scan_def get_or_init_def)
qed

text \<open>A label id beyond the capacity of a vector panics instead of failing the load.\<close>

lemma huge_label_panics: "fill_labels [(''9223372036854775807'', JStr ''O'')] [''O''] = Panics"
  by (simp add: parse_u64_def is_digit_char_def dec_value_def digit_val_def vec_limit_def)

section \<open>A concrete model\<close>

definition toy_hub :: "unit hub" where
  "toy_hub = \<lparr>hb_api = True, hb_get = (\<lambda>_ f. Some f), hb_tokenizer = (\<lambda>_. Some ()), hb_read = (\<lambda>_. Some ''{}''),
     hb_json = (\<lambda>_. Some (JObj [(''id2label'', JObj [(''0'', JStr ''O''), (''1'', JStr ''B-PER''), (''2'', JStr ''I-PER'')])])),
     hb_config = (\<lambda>_. Some ((), 768)), hb_weights = (\<lambda>_. Some ()), hb_distilbert = (\<lambda>_ _. Some ()),
     hb_linear = (\<lambda>_ _ _. Some ())\<rparr>"

text \<open>A tokenizer that knows one text, and a model that finds a person in it.\<close>

definition toy_infer :: "unit infer" where
  "toy_infer = \<lparr>nf_encode = (\<lambda>_ txt. Some (if txt = ''Ann Lee on'' then ([101, 7, 8, 9, 102], [(0, 0), (0, 3), (4, 7), (8, 10), (0, 0)])
       else ([], []))),
     nf_input = (\<lambda>_. Some ()), nf_ones = (\<lambda>_. Some ()), nf_forward = (\<lambda>_ _ _. Some ()), nf_classify = (\<lambda>_ _. Some ()),
     nf_argmax = (\<lambda>_. Some ()), nf_to_vec = (\<lambda>_. Some [0, 1, 2, 0, 0])\<rparr>"

lemma toy_ner_laws: "ner_laws toy_infer model"
  by (auto simp: ner_laws_def toy_infer_def offset_in_def follows_def str_eval split: if_splits)

lemma toy_parse [simp]: "parse_u64 ''0'' = Some 0" "parse_u64 ''1'' = Some 1" "parse_u64 ''2'' = Some 2"
  by (simp_all add: parse_u64_def is_digit_char_def dec_value_def digit_val_def)

lemma toy_labels_fit: "labels_fit toy_hub"
  by (simp add: labels_fit_def load_files_def toy_hub_def vec_limit_def)

lemma toy_load: "get_or_init toy_hub None = Returns (Some \<lparr>nm_tokenizer = (), nm_distilbert = (), nm_classifier = (),
    nm_labels = [''O'', ''B-PER'', ''I-PER'']\<rparr>, Some (Some \<lparr>nm_tokenizer = (), nm_distilbert = (), nm_classifier = (),
    nm_labels = [''O'', ''B-PER'', ''I-PER'']\<rparr>))"
  by (simp add: get_or_init_def load_model_def try_load_model_def load_files_def load_network_def toy_hub_def)

lemma toy_ner_hits: "ner_hits toy_infer (Some \<lparr>nm_tokenizer = (), nm_distilbert = (), nm_classifier = (),
    nm_labels = [''O'', ''B-PER'', ''I-PER'']\<rparr>) ''Ann Lee on'' = [\<lparr>sp_start = 0, sp_end = 7, sp_kind = Person\<rparr>]"
  by (simp add: ner_hits_def infer_spans_def toy_infer_def bio_merge_def bio_step_def map_label_def starts_with_def)

text \<open>A search that finds nothing.\<close>

definition idle_rx :: rx_env where
  "idle_rx = toy_rx\<lparr>rx_find := \<lambda>_ _. []\<rparr>"

lemma idle_rx_laws: "rx_laws idle_rx"
  using toy_rx_laws by (simp add: rx_laws_def idle_rx_def)

lemma idle_scan: "scan_spec idle_rx txt = []"
  by (simp add: scan_spec_def hits_def idle_rx_def)


theorem ner_load_failure_is_final_witness:
  "\<exists>cell. ner_scan (toy_hub\<lparr>hb_api := False\<rparr>) toy_infer ''a'' None = Returns (Inl ModelLoad, cell) \<and>
     ner_scan toy_hub toy_infer ''Ann Lee on'' cell = Returns (Inl ModelLoad, cell)"
proof -
  have f: "ner_scan (toy_hub\<lparr>hb_api := False\<rparr>) toy_infer ''a'' None = Returns (Inl ModelLoad, Some None)"
    by (simp add: ner_scan_def get_or_init_def load_model_def try_load_model_def load_files_def)
  from ner_load_failure_is_final [OF f, of "''Ann Lee on''" toy_hub toy_infer] f show ?thesis by blast
qed

end
