(* ===== verification/Vault.thy ===== *)
theory Vault
  imports Crypto Sanitize
begin

text \<open>
  The PII vault, \<open>ingestion/src/sanitize/vault.rs\<close>, on the tables of \<open>V18\<close>: normalisation, the
  lookup hash, the encrypted original, and the statement that mints a token.

  Parameters (\<open>vault_env\<close>): Unicode NFKC and lower-casing, HMAC-SHA256, the AEAD, the random IV and
  the database failures by tick. \<open>cte_upsert\<close> is the one SQL statement, on the snapshot it reads
  (\<open>READ COMMITTED\<close>: the rows committed when it started) and the current tables, which its inserts
  and its counter update see: the row lock on the counter orders the statements of a workspace and
  kind, so a statement takes effect at one point. \<open>tokenize\<close> is one call on a quiet database;
  \<open>vstep\<close> is the step relation of any number of concurrent calls.
\<close>

section \<open>Normalisation\<close>

datatype vault_error = Db | CryptoErr | Other string

record vault_env =
  ve_nfkc :: "uchar list \<Rightarrow> uchar list"
  ve_lower :: "uchar list \<Rightarrow> uchar list"
  ve_hmac :: "bytes \<Rightarrow> bytes \<Rightarrow> bytes"
  ve_aead :: aead
  ve_iv :: "nat \<Rightarrow> bytes"
  ve_fails :: "nat \<Rightarrow> bool"

text \<open>The loop over the trimmed characters, with \<open>prev_space\<close>.\<close>

fun collapse_loop :: "bool \<Rightarrow> uchar list \<Rightarrow> uchar list" where
  "collapse_loop prev [] = []"
| "collapse_loop prev (c # cs) =
     (if is_whitespace c then (if prev then collapse_loop True cs else 32 # collapse_loop True cs)
      else c # collapse_loop False cs)"

definition normalize_name :: "vault_env \<Rightarrow> string \<Rightarrow> string" where
  "normalize_name E raw =
     of_chars (ve_lower E (collapse_loop False (trim_chars (ve_nfkc E (chars raw)))))"

definition normalize_strict :: "vault_env \<Rightarrow> string \<Rightarrow> string" where
  "normalize_strict E raw = of_chars (ve_lower E (filter (\<lambda>c. \<not> is_whitespace c) (chars raw)))"

definition normalize :: "vault_env \<Rightarrow> entity_kind \<Rightarrow> string \<Rightarrow> string" where
  "normalize E kind raw =
     (if kind = Person \<or> kind = Org then normalize_name E raw else normalize_strict E raw)"

section \<open>The vault\<close>

record pii_vault =
  pv_hmac_root :: bytes
  pv_content_key :: bytes

definition debug_vault :: "pii_vault \<Rightarrow> (string \<times> string) list" where
  "debug_vault v = [(''pool'', ''<PgPool>''), (''hmac_root'', ''<redacted>''), (''content_key'', ''<redacted>'')]"

definition vault_new :: "bytes \<Rightarrow> bytes \<Rightarrow> vault_error + pii_vault" where
  "vault_new hmac_root content_key =
     (if length hmac_root < 32 then Inl (Other (''hmac_root too short (need '' @ [CHR 0xE2, CHR 0x89, CHR 0xA5] @ ''32 bytes)''))
      else Inr \<lparr>pv_hmac_root = hmac_root, pv_content_key = content_key\<rparr>)"

text \<open>The 16 bytes of a UUID, most significant first.\<close>

definition uuid_bytes :: "uuid \<Rightarrow> bytes" where
  "uuid_bytes u = map (\<lambda>k. of_nat (unat u div 256 ^ (15 - k) mod 256)) [0..<16]"

definition derive_workspace_key :: "vault_env \<Rightarrow> pii_vault \<Rightarrow> uuid \<Rightarrow> bytes" where
  "derive_workspace_key E V ws = ve_hmac E (pv_hmac_root V) (uuid_bytes ws)"

definition lookup_hash :: "vault_env \<Rightarrow> pii_vault \<Rightarrow> uuid \<Rightarrow> entity_kind \<Rightarrow> string \<Rightarrow> bytes" where
  "lookup_hash E V ws kind normalized =
     ve_hmac E (derive_workspace_key E V ws) (as_bytes (as_label kind) @ as_bytes '':'' @ as_bytes normalized)"

definition GCM_IV_LEN :: nat where "GCM_IV_LEN = 12"

definition vault_encrypt :: "vault_env \<Rightarrow> pii_vault \<Rightarrow> bytes \<Rightarrow> bytes \<Rightarrow> vault_error + bytes" where
  "vault_encrypt E V iv plaintext =
     (if \<not> aead_key_ok (ve_aead E) (pv_content_key V) then Inl CryptoErr
      else (case aead_seal (ve_aead E) (pv_content_key V) iv plaintext of
              None \<Rightarrow> Inl CryptoErr
            | Some ct \<Rightarrow> Inr (iv @ ct)))"

section \<open>The tables and the statements\<close>

record token_row =
  tr_token :: string
  tr_workspace_id :: uuid
  tr_entity_kind :: string
  tr_lookup_hash :: bytes
  tr_original_value_ct :: bytes

record vault_db =
  vd_counter :: "uuid \<times> string \<Rightarrow> nat option"
  vd_map :: "token_row list"

type_synonym token_key = "uuid \<times> string \<times> bytes"

definition tr_key :: "token_row \<Rightarrow> token_key" where
  "tr_key r = (tr_workspace_id r, tr_entity_kind r, tr_lookup_hash r)"

definition find_token :: "token_row list \<Rightarrow> token_key \<Rightarrow> string option" where
  "find_token rows k = map_option tr_token (find (\<lambda>r. tr_key r = k) rows)"

definition lookup_existing :: "vault_db \<Rightarrow> token_key \<Rightarrow> string option" where
  "lookup_existing db k = find_token (vd_map db) k"

definition mint :: "string \<Rightarrow> nat \<Rightarrow> string" where
  "mint kind n = ''PII_'' @ kind @ ''_'' @ show_nat n"

text \<open>
  The CTE: bump the counter, build the token, insert it unless the unique key is taken, return the
  inserted token or the one of the snapshot. A token that exists already violates the primary key,
  which the \<open>ON CONFLICT\<close> clause does not cover: the statement fails and nothing is written. With no
  row to return, \<open>fetch_one\<close> fails after the statement has committed.
\<close>

definition cte_upsert :: "token_row list \<Rightarrow> token_key \<Rightarrow> bytes \<Rightarrow> vault_db \<Rightarrow>
    (vault_error + string) \<times> vault_db" where
  "cte_upsert snapshot k ct db =
     (case k of (ws, kind, hsh) \<Rightarrow>
      let next_id = (case vd_counter db (ws, kind) of None \<Rightarrow> 2 | Some n \<Rightarrow> n + 1);
          token = mint kind (next_id - 1);
          counter = (vd_counter db)((ws, kind) \<mapsto> next_id)
      in if find_token (vd_map db) k \<noteq> None then
           (ok_or Db (find_token snapshot k), db\<lparr>vd_counter := counter\<rparr>)
         else if token \<in> tr_token ` set (vd_map db) then (Inl Db, db)
         else (Inr token, \<lparr>vd_counter = counter,
                 vd_map = vd_map db @ [\<lparr>tr_token = token, tr_workspace_id = ws, tr_entity_kind = kind,
                   tr_lookup_hash = hsh, tr_original_value_ct = ct\<rparr>]\<rparr>))"

section \<open>One call\<close>

text \<open>The database with the tick of the next external action.\<close>

type_synonym vault_state = "vault_db \<times> nat"

definition upsert :: "vault_env \<Rightarrow> token_key \<Rightarrow> bytes \<Rightarrow> vault_state \<Rightarrow> (vault_error + string) \<times> vault_state" where
  "upsert E k ct st =
     (case st of (db, t) \<Rightarrow>
      if ve_fails E t then (Inl Db, (db, t + 1))
      else case lookup_existing db k of
        Some token \<Rightarrow> (Inr token, (db, t + 1))
      | None \<Rightarrow>
          if ve_fails E (t + 1) then (Inl Db, (db, t + 2))
          else (case cte_upsert (vd_map db) k ct db of (r, db') \<Rightarrow> (r, (db', t + 2))))"

definition tokenize :: "vault_env \<Rightarrow> pii_vault \<Rightarrow> uuid \<Rightarrow> entity_kind \<Rightarrow> string \<Rightarrow> vault_state \<Rightarrow>
    (vault_error + string) \<times> vault_state" where
  "tokenize E V ws kind raw st =
     (let normalized = normalize E kind raw;
          lookup = lookup_hash E V ws kind normalized in
      case vault_encrypt E V (ve_iv E (snd st)) (as_bytes normalized) of
        Inl e \<Rightarrow> (Inl e, st)
      | Inr ct \<Rightarrow> upsert E (ws, as_label kind, lookup) ct st)"

section \<open>Concurrent calls\<close>

text \<open>A call: before its lookup, before its statement, running on a snapshot, returned.\<close>

datatype phase = Idle | Missed | Running "token_row list" | Finished "vault_error + string"

record vsys =
  vs_db :: vault_db
  vs_phase :: "nat \<Rightarrow> phase"

inductive vstep :: "(nat \<Rightarrow> token_key \<times> bytes) \<Rightarrow> vsys \<Rightarrow> vsys \<Rightarrow> bool" for call where
  hit: "vs_phase s i = Idle \<Longrightarrow> lookup_existing (vs_db s) (fst (call i)) = Some token \<Longrightarrow>
     vstep call s (s\<lparr>vs_phase := (vs_phase s)(i := Finished (Inr token))\<rparr>)"
| miss: "vs_phase s i = Idle \<Longrightarrow> lookup_existing (vs_db s) (fst (call i)) = None \<Longrightarrow>
     vstep call s (s\<lparr>vs_phase := (vs_phase s)(i := Missed)\<rparr>)"
| start: "vs_phase s i = Missed \<Longrightarrow>
     vstep call s (s\<lparr>vs_phase := (vs_phase s)(i := Running (vd_map (vs_db s)))\<rparr>)"
| finish: "vs_phase s i = Running snap \<Longrightarrow> cte_upsert snap (fst (call i)) (snd (call i)) (vs_db s) = (r, db') \<Longrightarrow>
     vstep call s \<lparr>vs_db = db', vs_phase = (vs_phase s)(i := Finished r)\<rparr>"
| finish_lost: "vs_phase s i = Running snap \<Longrightarrow> cte_upsert snap (fst (call i)) (snd (call i)) (vs_db s) = (r, db') \<Longrightarrow>
     vstep call s \<lparr>vs_db = db', vs_phase = (vs_phase s)(i := Finished (Inl Db))\<rparr>"
| lost: "(\<forall>r. vs_phase s i \<noteq> Finished r) \<Longrightarrow>
     vstep call s (s\<lparr>vs_phase := (vs_phase s)(i := Finished (Inl Db))\<rparr>)"

inductive_cases vstepE: "vstep call s s'"

definition vinit :: "vault_db \<Rightarrow> vsys" where
  "vinit db = \<lparr>vs_db = db, vs_phase = (\<lambda>_. Idle)\<rparr>"

definition empty_db :: vault_db where
  "empty_db = \<lparr>vd_counter = (\<lambda>_. None), vd_map = []\<rparr>"

section \<open>Tokens are unique: the invariant\<close>

definition vault_inv :: "vault_db \<Rightarrow> bool" where
  "vault_inv db \<longleftrightarrow> distinct (map tr_token (vd_map db)) \<and> distinct (map tr_key (vd_map db)) \<and>
     (\<forall>r \<in> set (vd_map db). \<exists>n c. vd_counter db (tr_workspace_id r, tr_entity_kind r) = Some c \<and> n < c \<and>
        tr_token r = mint (tr_entity_kind r) n)"

lemma vault_inv_empty: "vault_inv empty_db"
  by (simp add: vault_inv_def empty_db_def)

lemma find_token_append:
  "find_token (xs @ ys) k = (case find_token xs k of None \<Rightarrow> find_token ys k | Some t \<Rightarrow> Some t)"
  by (induction xs) (auto simp: find_token_def)

lemma find_token_stable: "find_token xs k = Some t \<Longrightarrow> find_token (xs @ ys) k = Some t"
  by (simp add: find_token_append)

lemma find_token_None: "find_token xs k = None \<longleftrightarrow> k \<notin> tr_key ` set xs"
  by (auto simp: find_token_def find_None_iff)

lemma find_token_Some: "find_token xs k = Some t \<Longrightarrow> \<exists>r \<in> set xs. tr_key r = k \<and> tr_token r = t"
  by (auto simp: find_token_def find_Some_iff)

text \<open>What the statement does, in its four cases.\<close>

lemma cte_upsert_cases:
  assumes "cte_upsert snap k ct db = (r, db')"
  obtains (taken) c where "find_token (vd_map db) k \<noteq> None" "r = ok_or Db (find_token snap k)"
      "vd_map db' = vd_map db" "vd_counter db' = (vd_counter db)((fst k, fst (snd k)) \<mapsto> c)"
      "\<forall>n. vd_counter db (fst k, fst (snd k)) = Some n \<longrightarrow> n < c"
    | (clash) "find_token (vd_map db) k = None" "r = Inl Db" "db' = db"
    | (minted) n row where "find_token (vd_map db) k = None" "r = Inr (mint (fst (snd k)) n)"
      "mint (fst (snd k)) n \<notin> tr_token ` set (vd_map db)" "vd_map db' = vd_map db @ [row]"
      "tr_key row = k" "tr_token row = mint (fst (snd k)) n"
      "vd_counter db' = (vd_counter db)((fst k, fst (snd k)) \<mapsto> Suc n)"
      "\<forall>c. vd_counter db (fst k, fst (snd k)) = Some c \<longrightarrow> n = c"
proof -
  obtain ws kind hsh where k: "k = (ws, kind, hsh)" by (cases k)
  define next_id where "next_id = (case vd_counter db (ws, kind) of None \<Rightarrow> 2 | Some n \<Rightarrow> n + 1)"
  have pos: "0 < next_id" by (simp add: next_id_def split: option.split)
  have ge: "\<forall>n. vd_counter db (ws, kind) = Some n \<longrightarrow> n < next_id \<and> next_id - 1 = n" by (simp add: next_id_def)
  let ?tok = "mint kind (next_id - 1)"
  consider "find_token (vd_map db) k \<noteq> None"
    | "find_token (vd_map db) k = None" "?tok \<in> tr_token ` set (vd_map db)"
    | "find_token (vd_map db) k = None" "?tok \<notin> tr_token ` set (vd_map db)" by blast
  then show thesis
  proof cases
    case 1
    with assms have "r = ok_or Db (find_token snap k)" "db' = db\<lparr>vd_counter := (vd_counter db)((ws, kind) \<mapsto> next_id)\<rparr>"
      by (auto simp: cte_upsert_def k Let_def next_id_def)
    with 1 ge show ?thesis by (intro taken [of next_id]) (simp_all add: k)
  next
    case 2
    with assms have "r = Inl Db \<and> db' = db" by (auto simp: cte_upsert_def k Let_def next_id_def)
    with 2 show ?thesis by (intro clash) simp_all
  next
    case 3
    define row where "row = \<lparr>tr_token = ?tok, tr_workspace_id = ws, tr_entity_kind = kind,
                   tr_lookup_hash = hsh, tr_original_value_ct = ct\<rparr>"
    from 3 assms have "r = Inr ?tok" "vd_counter db' = (vd_counter db)((ws, kind) \<mapsto> next_id)"
      "vd_map db' = vd_map db @ [row]"
      by (auto simp: cte_upsert_def k Let_def next_id_def row_def)
    moreover have "tr_key row = k" "tr_token row = ?tok" by (simp_all add: row_def tr_key_def k)
    ultimately show ?thesis using 3 pos ge by (intro minted [of "next_id - 1" row]) (simp_all add: k)
  qed
qed

text \<open>A row numbered below its counter.\<close>

definition numbered :: "(uuid \<times> string \<Rightarrow> nat option) \<Rightarrow> token_row \<Rightarrow> bool" where
  "numbered ctr r \<longleftrightarrow> (\<exists>n c. ctr (tr_workspace_id r, tr_entity_kind r) = Some c \<and> n < c \<and>
     tr_token r = mint (tr_entity_kind r) n)"

lemma vault_inv_alt:
  "vault_inv db \<longleftrightarrow> distinct (map tr_token (vd_map db)) \<and> distinct (map tr_key (vd_map db)) \<and>
     (\<forall>r \<in> set (vd_map db). numbered (vd_counter db) r)"
  by (simp add: vault_inv_def numbered_def)

lemma numbered_bump:
  assumes "numbered ctr r" and "\<forall>n. ctr wk = Some n \<longrightarrow> n \<le> c"
  shows "numbered (ctr(wk \<mapsto> c)) r"
proof -
  obtain n c0 where n: "ctr (tr_workspace_id r, tr_entity_kind r) = Some c0" "n < c0"
    "tr_token r = mint (tr_entity_kind r) n" using assms(1) unfolding numbered_def by blast
  show ?thesis
  proof (cases "(tr_workspace_id r, tr_entity_kind r) = wk")
    case True
    with n(1) assms(2) have "c0 \<le> c" by simp
    with n True show ?thesis unfolding numbered_def by (intro exI [of _ n] exI [of _ c]) simp
  next
    case False
    with n show ?thesis unfolding numbered_def by (intro exI [of _ n] exI [of _ c0]) simp
  qed
qed

lemma cte_upsert_inv:
  assumes "vault_inv db" and run: "cte_upsert snap k ct db = (r, db')"
  shows "vault_inv db'"
  using run
proof (cases rule: cte_upsert_cases)
  case (taken c)
  have "\<forall>x \<in> set (vd_map db'). numbered (vd_counter db') x"
    unfolding taken(3,4) using assms(1) taken(5) numbered_bump
    by (metis less_imp_le vault_inv_alt)
  then show ?thesis using assms(1) taken(3) unfolding vault_inv_alt by simp
next
  case clash
  then show ?thesis using assms(1) by simp
next
  case (minted n row)
  have key: "tr_workspace_id row = fst k" "tr_entity_kind row = fst (snd k)"
    using minted(5) by (auto simp: tr_key_def)
  have "numbered (vd_counter db') x" if "x \<in> set (vd_map db)" for x
    unfolding minted(7)
  proof (rule numbered_bump)
    show "numbered (vd_counter db) x" using assms(1) that by (simp add: vault_inv_alt)
    show "\<forall>c. vd_counter db (fst k, fst (snd k)) = Some c \<longrightarrow> c \<le> Suc n" using minted(8) by auto
  qed
  moreover have "numbered (vd_counter db') row"
    unfolding numbered_def minted(7) by (intro exI [of _ n] exI [of _ "Suc n"]) (simp add: key minted(6))
  moreover have "k \<notin> tr_key ` set (vd_map db)" using minted(1) find_token_None by metis
  ultimately show ?thesis using assms(1) minted(3-6) unfolding vault_inv_alt by auto
qed

lemma cte_upsert_grows: "cte_upsert snap k ct db = (r, db') \<Longrightarrow> \<exists>new. vd_map db' = vd_map db @ new"
  by (cases rule: cte_upsert_cases) auto

lemma cte_upsert_Inr:
  assumes "cte_upsert snap k ct db = (Inr t, db')" and "\<exists>new. vd_map db = snap @ new"
  shows "find_token (vd_map db') k = Some t"
  using assms(1)
proof (cases rule: cte_upsert_cases)
  case (taken c)
  then have "find_token snap k = Some t" by (metis ok_or_Inr_iff)
  then show ?thesis using assms(2) taken(3) find_token_stable by metis
next
  case (minted n row)
  then show ?thesis by (simp add: find_token_append) (simp add: find_token_def)
qed simp

lemma keys_tokens:
  assumes "vault_inv db" and "find_token (vd_map db) k = Some t" and "find_token (vd_map db) k' = Some t"
  shows "k = k'"
proof -
  obtain r r' where "r \<in> set (vd_map db)" "tr_key r = k" "tr_token r = t"
    "r' \<in> set (vd_map db)" "tr_key r' = k'" "tr_token r' = t"
    using find_token_Some [OF assms(2)] find_token_Some [OF assms(3)] by blast
  moreover from this have "r = r'" using assms(1) unfolding vault_inv_def by (metis distinct_map inj_onD)
  ultimately show ?thesis by simp
qed

section \<open>Concurrent calls: the invariant\<close>

definition sys_inv :: "(nat \<Rightarrow> token_key \<times> bytes) \<Rightarrow> vsys \<Rightarrow> bool" where
  "sys_inv call s \<longleftrightarrow> vault_inv (vs_db s) \<and>
     (\<forall>i snap. vs_phase s i = Running snap \<longrightarrow> (\<exists>new. vd_map (vs_db s) = snap @ new)) \<and>
     (\<forall>i t. vs_phase s i = Finished (Inr t) \<longrightarrow> find_token (vd_map (vs_db s)) (fst (call i)) = Some t)"

lemma sys_inv_init: "vault_inv db \<Longrightarrow> sys_inv call (vinit db)"
  by (simp add: sys_inv_def vinit_def)

lemma sys_inv_upsert:
  assumes inv: "sys_inv call s" and i: "vs_phase s i = Running snap"
    and run: "cte_upsert snap (fst (call i)) (snd (call i)) (vs_db s) = (r, db')" and "r' = r \<or> r' = Inl Db"
  shows "sys_inv call \<lparr>vs_db = db', vs_phase = (vs_phase s)(i := Finished r')\<rparr>"
proof -
  obtain new where new: "vd_map db' = vd_map (vs_db s) @ new" using cte_upsert_grows [OF run] by blast
  have "vault_inv db'" using cte_upsert_inv [OF _ run] inv by (simp add: sys_inv_def)
  moreover have "\<exists>new'. vd_map db' = snap' @ new'" if "vs_phase s j = Running snap'" for j snap'
    using inv that new unfolding sys_inv_def by (metis append.assoc)
  moreover have "find_token (vd_map db') (fst (call j)) = Some t" if "vs_phase s j = Finished (Inr t)" for j t
    using inv that new find_token_stable unfolding sys_inv_def by metis
  moreover have "find_token (vd_map db') (fst (call i)) = Some t" if "r' = Inr t" for t
    using cte_upsert_Inr [of snap "fst (call i)" "snd (call i)" "vs_db s" t db'] assms(4) run that inv i
    unfolding sys_inv_def by auto
  ultimately show ?thesis unfolding sys_inv_def by simp
qed

lemma sys_inv_step:
  assumes "vstep call s s'" and "sys_inv call s"
  shows "sys_inv call s'"
  using assms
proof (cases rule: vstep.cases)
  case (finish i snap r db')
  then show ?thesis using sys_inv_upsert assms(2) by simp
next
  case (finish_lost i snap r db')
  then show ?thesis using sys_inv_upsert assms(2) by simp
qed (simp_all add: sys_inv_def lookup_existing_def)

lemma sys_inv_reach: "(vstep call)\<^sup>*\<^sup>* s s' \<Longrightarrow> sys_inv call s \<Longrightarrow> sys_inv call s'"
  by (induction rule: rtranclp_induct) (auto intro: sys_inv_step)

section \<open>The loser of a race: proofs\<close>

lemma finished_stays: "vstep call s s' \<Longrightarrow> vs_phase s j = Finished r \<Longrightarrow> vs_phase s' j = Finished r"
  by (erule vstepE) (auto split: if_splits)

lemma token_stays_step:
  "vstep call s s' \<Longrightarrow> find_token (vd_map (vs_db s)) k = Some t \<Longrightarrow> find_token (vd_map (vs_db s')) k = Some t"
  by (erule vstepE) (auto dest!: cte_upsert_grows intro: find_token_stable)

text \<open>A call that runs keeps its snapshot until it returns.\<close>

lemma loser_waits:
  assumes "(vstep call)\<^sup>*\<^sup>* s u" and "vs_phase s j = Running snap" and "find_token (vd_map (vs_db s)) k = Some t"
  shows "find_token (vd_map (vs_db u)) k = Some t \<and> (vs_phase u j = Running snap \<or> (\<exists>r. vs_phase u j = Finished r))"
  using assms
proof (induction rule: rtranclp_induct)
  case (step u v)
  then have u: "find_token (vd_map (vs_db u)) k = Some t" "vs_phase u j = Running snap \<or> (\<exists>r. vs_phase u j = Finished r)"
    by simp_all
  from step(2) u(2) have "vs_phase v j = Running snap \<or> (\<exists>r. vs_phase v j = Finished r)"
    by (elim vstepE) (auto split: if_splits)
  with token_stays_step [OF step(2) u(1)] show ?case by simp
qed simp

lemma loser_step:
  assumes "vstep call u v" and "vs_phase u j = Running snap" and "find_token (vd_map (vs_db u)) (fst (call j)) \<noteq> None"
    and "find_token snap (fst (call j)) = None" and "vs_phase v j \<noteq> vs_phase u j"
  shows "vs_phase v j = Finished (Inl Db) \<and> vd_map (vs_db v) = vd_map (vs_db u)"
proof -
  have stmt: "r = Inl Db \<and> vd_map db' = vd_map (vs_db u)"
    if "cte_upsert snap (fst (call j)) (snd (call j)) (vs_db u) = (r, db')" for r db'
    using that by (cases rule: cte_upsert_cases) (use assms(3,4) in simp_all)
  from assms(1) show ?thesis
    by (cases rule: vstep.cases) (use assms(2,5) stmt in \<open>auto split: if_splits\<close>)
qed

section \<open>A workspace that comes second: proofs\<close>

text \<open>Another workspace holds the first token of the kind, and this one has no counter yet.\<close>

definition shut_out :: "uuid \<Rightarrow> string \<Rightarrow> vault_db \<Rightarrow> bool" where
  "shut_out ws kind db \<longleftrightarrow> mint kind 1 \<in> tr_token ` set (vd_map db) \<and> vd_counter db (ws, kind) = None \<and>
     (\<forall>r \<in> set (vd_map db). \<not> (tr_workspace_id r = ws \<and> tr_entity_kind r = kind))"

lemma shut_out_lookup: "shut_out ws kind db \<Longrightarrow> find_token (vd_map db) (ws, kind, h) = None"
  by (auto simp: shut_out_def find_token_None tr_key_def)

lemma shut_out_clash: "shut_out ws kind db \<Longrightarrow> cte_upsert snap (ws, kind, h) ct db = (Inl Db, db)"
  using shut_out_lookup [of ws kind db h] by (simp add: cte_upsert_def shut_out_def)

lemma shut_out_stays:
  assumes so: "shut_out ws kind db" and run: "cte_upsert snap k ct db = (r, db')"
  shows "shut_out ws kind db'"
proof (cases "(fst k, fst (snd k)) = (ws, kind)")
  case True
  then obtain h where "k = (ws, kind, h)" by (cases k) auto
  with shut_out_clash [OF so] run so show ?thesis by simp
next
  case False
  then have ne: "(ws, kind) \<noteq> (fst k, fst (snd k))" by metis
  from run show ?thesis
  proof (cases rule: cte_upsert_cases)
    case (taken c)
    then show ?thesis using so ne by (simp add: shut_out_def)
  next
    case clash
    then show ?thesis using so by simp
  next
    case (minted n row)
    have "tr_workspace_id row = fst k" "tr_entity_kind row = fst (snd k)" using minted(5) by (auto simp: tr_key_def)
    with minted so ne show ?thesis by (auto simp: shut_out_def)
  qed
qed

lemma shut_out_step:
  assumes "vstep call s s'" and "shut_out ws kind (vs_db s)"
  shows "shut_out ws kind (vs_db s') \<and>
     (\<forall>i h t. fst (call i) = (ws, kind, h) \<longrightarrow> vs_phase s' i = Finished (Inr t) \<longrightarrow> vs_phase s i = Finished (Inr t))"
  using assms
proof (cases rule: vstep.cases)
  case (hit i t)
  then have "fst (call i) \<noteq> (ws, kind, h)" for h
    using shut_out_lookup [OF assms(2)] by (auto simp: lookup_existing_def)
  with hit assms(2) show ?thesis by auto
next
  case (finish i snap r db')
  then have "shut_out ws kind db'" using shut_out_stays assms(2) by blast
  moreover have "r = Inl Db" if "fst (call i) = (ws, kind, h)" for h
    using shut_out_clash [OF assms(2)] finish(3) that by simp
  ultimately show ?thesis using finish by auto
next
  case (finish_lost i snap r db')
  then have "shut_out ws kind db'" using shut_out_stays assms(2) by blast
  with finish_lost show ?thesis by auto
qed auto

section \<open>Tokens name their kind and number\<close>

lemma label_no_underscore: "CHR ''_'' \<notin> set (as_label k)"
  by (cases k) simp_all

lemma mint_inj: "mint (as_label k) m = mint (as_label k') n \<longleftrightarrow> k = k' \<and> m = n"
proof -
  have split: "takeWhile (\<lambda>c. c \<noteq> CHR ''_'') (as_label k @ CHR ''_'' # s) = as_label k" for k s
    by (cases k) simp_all
  show ?thesis
  proof
    assume "mint (as_label k) m = mint (as_label k') n"
    then have eq: "as_label k @ CHR ''_'' # show_nat m = as_label k' @ CHR ''_'' # show_nat n"
      by (simp add: mint_def)
    from arg_cong [OF eq, of "takeWhile (\<lambda>c. c \<noteq> CHR ''_'')"] have "as_label k = as_label k'"
      by (simp only: split)
    with eq as_label_inj show "k = k' \<and> m = n" by (simp add: inj_eq show_nat_inj)
  qed simp
qed

section \<open>Sequential calls\<close>

text \<open>A database of one workspace, with the kinds of the code.\<close>

definition one_workspace :: "uuid \<Rightarrow> vault_db \<Rightarrow> bool" where
  "one_workspace ws db \<longleftrightarrow> vault_inv db \<and>
     (\<forall>r \<in> set (vd_map db). tr_workspace_id r = ws \<and> tr_entity_kind r \<in> range as_label)"

lemma cte_upsert_one:
  assumes inv: "one_workspace ws db" and miss: "find_token (vd_map db) (ws, as_label kind, h) = None"
  shows "\<exists>n db'. cte_upsert snap (ws, as_label kind, h) ct db = (Inr (mint (as_label kind) n), db') \<and>
     one_workspace ws db'"
proof -
  obtain r db' where run: "cte_upsert snap (ws, as_label kind, h) ct db = (r, db')" by (metis surj_pair)
  define n where "n = (case vd_counter db (ws, as_label kind) of None \<Rightarrow> 1 | Some n \<Rightarrow> n)"
  have fresh: "mint (as_label kind) n \<notin> tr_token ` set (vd_map db)"
  proof
    assume "mint (as_label kind) n \<in> tr_token ` set (vd_map db)"
    then obtain r where r: "r \<in> set (vd_map db)" "tr_token r = mint (as_label kind) n" by auto
    with inv obtain k m c where "tr_entity_kind r = as_label k" "tr_workspace_id r = ws"
      "vd_counter db (ws, as_label k) = Some c" "m < c" "tr_token r = mint (as_label k) m"
      unfolding one_workspace_def vault_inv_def by (metis imageE)
    with r(2) show False by (auto simp: mint_inj n_def)
  qed
  have pos: "next - 1 = n" if "next = (case vd_counter db (ws, as_label kind) of None \<Rightarrow> 2 | Some n \<Rightarrow> n + 1)" for "next" :: nat
    using that by (simp add: n_def split: option.splits)
  have "r = Inr (mint (as_label kind) n) \<and> (\<exists>row. vd_map db' = vd_map db @ [row] \<and>
      tr_workspace_id row = ws \<and> tr_entity_kind row = as_label kind)"
    using run miss fresh by (auto simp: cte_upsert_def Let_def n_def split: option.splits)
  moreover have "vault_inv db'" using cte_upsert_inv [OF _ run] inv by (simp add: one_workspace_def)
  ultimately show ?thesis using run inv by (auto simp: one_workspace_def)
qed

text \<open>Nothing fails: the database answers and the content key seals.\<close>

definition vault_ok :: "vault_env \<times> pii_vault \<Rightarrow> bool" where
  "vault_ok p \<longleftrightarrow> (\<forall>t. \<not> ve_fails (fst p) t) \<and>
     aead_key_ok (ve_aead (fst p)) (pv_content_key (snd p)) \<and>
     (\<forall>iv m. aead_seal (ve_aead (fst p)) (pv_content_key (snd p)) iv m \<noteq> None)"

definition token_key_of :: "vault_env \<times> pii_vault \<Rightarrow> uuid \<Rightarrow> entity_kind \<Rightarrow> string \<Rightarrow> token_key" where
  "token_key_of p ws kind raw =
     (ws, as_label kind, lookup_hash (fst p) (snd p) ws kind (normalize (fst p) kind raw))"

text \<open>
  The interface of a token store: on a good state a call returns a token and remembers it; what is
  remembered stays, and is what later calls return.
\<close>

locale token_store =
  fixes ok :: "'p \<Rightarrow> bool" and inv :: "'w \<Rightarrow> 's \<Rightarrow> bool"
    and op :: "'p \<Rightarrow> 'w \<Rightarrow> 'q \<Rightarrow> 's \<Rightarrow> ('e + string) \<times> 's"
    and lkp :: "'p \<Rightarrow> 'w \<Rightarrow> 's \<Rightarrow> 'q \<Rightarrow> string option"
  assumes op_returns: "ok p \<Longrightarrow> inv w s \<Longrightarrow>
      \<exists>t s'. op p w q s = (Inr t, s') \<and> inv w s' \<and> lkp p w s' q = Some t"
    and op_keeps: "ok p \<Longrightarrow> inv w s \<Longrightarrow> op p w q s = (r, s') \<Longrightarrow> lkp p w s q' = Some t \<Longrightarrow>
      lkp p w s' q' = Some t"
    and op_hits: "ok p \<Longrightarrow> inv w s \<Longrightarrow> lkp p w s q = Some t \<Longrightarrow> fst (op p w q s) = Inr t"
begin

text \<open>The token of a call does not depend on what happened in between.\<close>

lemma op_again:
  assumes "ok p" and "inv w s" and "op p w q s = (Inr t, s')" and "inv w s''"
    and "\<forall>q t. lkp p w s' q = Some t \<longrightarrow> lkp p w s'' q = Some t"
  shows "fst (op p w q s'') = Inr t"
proof -
  have "lkp p w s' q = Some t" using op_returns [OF assms(1,2), of q] assms(3) by auto
  with assms show ?thesis by (intro op_hits) auto
qed

lemma op_inv: "ok p \<Longrightarrow> inv w s \<Longrightarrow> op p w q s = (r, s') \<Longrightarrow> inv w s'"
  using op_returns [of p w s q] by auto

end

lemma tokenize_run:
  assumes ok: "vault_ok p" and inv: "one_workspace ws (fst st)"
  shows "(case find_token (vd_map (fst st)) (token_key_of p ws kind raw) of
       Some t \<Rightarrow> \<exists>n. tokenize (fst p) (snd p) ws kind raw st = (Inr t, (fst st, n))
     | None \<Rightarrow> \<exists>t db' n ct. cte_upsert (vd_map (fst st)) (token_key_of p ws kind raw) ct (fst st) = (Inr t, db') \<and>
         tokenize (fst p) (snd p) ws kind raw st = (Inr t, (db', n)) \<and> one_workspace ws db')"
proof -
  obtain db n where st: "st = (db, n)" by (cases st)
  obtain E V where p: "p = (E, V)" by (cases p)
  let ?k = "token_key_of p ws kind raw"
  have "aead_seal (ve_aead E) (pv_content_key V) (ve_iv E n) (as_bytes (normalize E kind raw)) \<noteq> None"
    using ok by (simp add: vault_ok_def p)
  then obtain c where "aead_seal (ve_aead E) (pv_content_key V) (ve_iv E n) (as_bytes (normalize E kind raw)) = Some c"
    by blast
  then have enc: "vault_encrypt E V (ve_iv E n) (as_bytes (normalize E kind raw)) = Inr (ve_iv E n @ c)"
    using ok by (simp add: vault_encrypt_def vault_ok_def p)
  have t: "tokenize E V ws kind raw st = upsert E ?k (ve_iv E n @ c) st"
    using enc by (simp add: tokenize_def Let_def st p token_key_of_def)
  have nf: "\<not> ve_fails E m" for m using ok by (simp add: vault_ok_def p)
  show ?thesis
  proof (cases "find_token (vd_map db) ?k")
    case (Some tok)
    then show ?thesis using t nf by (simp add: upsert_def st p lookup_existing_def)
  next
    case None
    obtain h where h: "?k = (ws, as_label kind, h)" by (simp add: token_key_of_def)
    have "one_workspace ws db" using inv by (simp add: st)
    from cte_upsert_one [OF this None [unfolded h], of "vd_map db" "ve_iv E n @ c"]
    obtain m db' where m: "cte_upsert (vd_map db) ?k (ve_iv E n @ c) db = (Inr (mint (as_label kind) m), db')"
      "one_workspace ws db'" unfolding h by blast
    then have "tokenize E V ws kind raw st = (Inr (mint (as_label kind) m), (db', n + 2))"
      using t nf None by (simp add: upsert_def st lookup_existing_def)
    with m None show ?thesis by (simp add: st p) blast
  qed
qed

interpretation vault: token_store vault_ok "\<lambda>ws st. one_workspace ws (fst st)"
  "\<lambda>p ws q st. tokenize (fst p) (snd p) ws (fst q) (snd q) st"
  "\<lambda>p ws st q. find_token (vd_map (fst st)) (token_key_of p ws (fst q) (snd q))"
proof (unfold_locales, goal_cases)
  case (1 p ws st q)
  show ?case
  proof (cases "find_token (vd_map (fst st)) (token_key_of p ws (fst q) (snd q))")
    case None
    with tokenize_run [OF 1, of "fst q" "snd q"] obtain t db' n ct where
      c: "cte_upsert (vd_map (fst st)) (token_key_of p ws (fst q) (snd q)) ct (fst st) = (Inr t, db')"
      "tokenize (fst p) (snd p) ws (fst q) (snd q) st = (Inr t, (db', n))" "one_workspace ws db'" by auto
    have "find_token (vd_map db') (token_key_of p ws (fst q) (snd q)) = Some t"
      by (rule cte_upsert_Inr [OF c(1)]) simp
    with c show ?thesis by simp
  next
    case (Some t)
    with tokenize_run [OF 1, of "fst q" "snd q"] 1(2) show ?thesis by auto
  qed
next
  case (2 p ws st q r st' q' t)
  show ?case
  proof (cases "find_token (vd_map (fst st)) (token_key_of p ws (fst q) (snd q))")
    case None
    with tokenize_run [OF 2(1,2), of "fst q" "snd q"] 2(3) obtain ct t' where
      "cte_upsert (vd_map (fst st)) (token_key_of p ws (fst q) (snd q)) ct (fst st) = (Inr t', fst st')" by auto
    from cte_upsert_grows [OF this] 2(4) find_token_stable show ?thesis by metis
  next
    case (Some t')
    with tokenize_run [OF 2(1,2), of "fst q" "snd q"] 2(3,4) show ?thesis by auto
  qed
next
  case (3 p ws st q t)
  with tokenize_run [OF 3(1,2), of "fst q" "snd q"] show ?case by auto
qed

section \<open>The vault in the sanitizer\<close>

text \<open>\<open>ctx.vault\<close>: the vault as the sanitizer calls it (\<open>tokenize_blocking\<close> waits for the same call).\<close>

definition vault_fn_of :: "vault_env \<Rightarrow> pii_vault \<Rightarrow> vault_state vault_fn" where
  "vault_fn_of E V ws kind raw st = (case tokenize E V ws kind raw st of (r, st') \<Rightarrow> (map_err (\<lambda>_. ()) r, st'))"

definition vault_ctx :: "vault_env \<Rightarrow> pii_vault \<Rightarrow> uuid \<Rightarrow> vault_state sanitize_ctx" where
  "vault_ctx E V ws = \<lparr>sc_workspace_id = ws, sc_vault = Some (vault_fn_of E V)\<rparr>"

lemma render_token_vault:
  assumes "vault_ok (E, V)" and "one_workspace ws (fst st)"
  obtains t st' where "tokenize E V ws kind raw st = (Inr t, st')"
    "render_token (vault_ctx E V ws) raw kind st = (t, st')" "one_workspace ws (fst st')"
  using vault.op_returns [OF assms, of "(kind, raw)"] that
  by (auto simp: render_token_def vault_ctx_def vault_fn_of_def)

definition remembers :: "vault_state \<Rightarrow> vault_state \<Rightarrow> bool" where
  "remembers st st' \<longleftrightarrow> (\<forall>k t. find_token (vd_map (fst st)) k = Some t \<longrightarrow> find_token (vd_map (fst st')) k = Some t)"

lemma tokenize_remembers:
  assumes "vault_ok (E, V)" and "one_workspace ws (fst st)" and "tokenize E V ws kind raw st = (r, st')"
  shows "remembers st st'"
proof (cases "find_token (vd_map (fst st)) (token_key_of (E, V) ws kind raw)")
  case None
  with tokenize_run [OF assms(1,2), of kind raw] assms(3) obtain ct t' where
    "cte_upsert (vd_map (fst st)) (token_key_of (E, V) ws kind raw) ct (fst st) = (Inr t', fst st')" by auto
  from cte_upsert_grows [OF this] find_token_stable show ?thesis unfolding remembers_def by metis
next
  case (Some t)
  with tokenize_run [OF assms(1,2), of kind raw] assms(3) show ?thesis by (auto simp: remembers_def)
qed

lemma pieces_remembers:
  assumes "vault_ok (E, V)"
  shows "one_workspace ws (fst st) \<Longrightarrow> pieces (vault_ctx E V ws) tt ss c st = (out, st') \<Longrightarrow>
     remembers st st' \<and> one_workspace ws (fst st')"
proof (induction ss arbitrary: c st out)
  case Nil
  then show ?case by (auto simp: remembers_def)
next
  case (Cons s ss)
  obtain t st1 where t: "tokenize E V ws (sp_kind s) (slice (sp_start s) (sp_end s) tt) st = (Inr t, st1)"
    "render_token (vault_ctx E V ws) (slice (sp_start s) (sp_end s) tt) (sp_kind s) st = (t, st1)"
    "one_workspace ws (fst st1)"
    using render_token_vault [OF assms Cons.prems(1)] by blast
  obtain rest where "pieces (vault_ctx E V ws) tt ss (sp_end s) st1 = (rest, st')"
    using Cons.prems(2) t(2) by (auto split: prod.splits)
  from Cons.IH [OF t(3) this] tokenize_remembers [OF assms Cons.prems(1) t(1)] show ?case
    by (simp add: remembers_def)
qed

lemma pieces_again:
  assumes ok: "vault_ok (E, V)"
  shows "one_workspace ws (fst st) \<Longrightarrow> pieces (vault_ctx E V ws) tt ss c st = (out, st') \<Longrightarrow>
     one_workspace ws (fst st2) \<Longrightarrow> remembers st' st2 \<Longrightarrow> fst (pieces (vault_ctx E V ws) tt ss c st2) = out"
proof (induction ss arbitrary: c st st2 out)
  case Nil
  then show ?case by auto
next
  case (Cons s ss)
  let ?raw = "slice (sp_start s) (sp_end s) tt"
  obtain t st1 where t: "tokenize E V ws (sp_kind s) ?raw st = (Inr t, st1)"
    "render_token (vault_ctx E V ws) ?raw (sp_kind s) st = (t, st1)" "one_workspace ws (fst st1)"
    using render_token_vault [OF ok Cons.prems(1)] by blast
  obtain rest where r: "pieces (vault_ctx E V ws) tt ss (sp_end s) st1 = (rest, st')"
      "out = slice c (sp_start s) tt @ t @ rest"
    using Cons.prems(2) t(2) by (auto split: prod.splits)
  have rem: "remembers st1 st2"
    using pieces_remembers [OF ok t(3) r(1)] Cons.prems(4) by (simp add: remembers_def)
  obtain t2 st3 where t2: "tokenize E V ws (sp_kind s) ?raw st2 = (Inr t2, st3)"
    "render_token (vault_ctx E V ws) ?raw (sp_kind s) st2 = (t2, st3)" "one_workspace ws (fst st3)"
    using render_token_vault [OF ok Cons.prems(3)] by blast
  have "\<forall>q t. find_token (vd_map (fst st1)) (token_key_of (E, V) ws (fst q) (snd q)) = Some t \<longrightarrow>
      find_token (vd_map (fst st2)) (token_key_of (E, V) ws (fst q) (snd q)) = Some t"
    using rem unfolding remembers_def by blast
  with vault.op_again [OF ok Cons.prems(1), of "(sp_kind s, ?raw)" t st1 st2] t(1) Cons.prems(3)
  have "fst (tokenize E V ws (sp_kind s) ?raw st2) = Inr t" by (simp only: fst_conv snd_conv)
  with t2(1) have "t2 = t" by simp
  moreover have "remembers st' st3"
    using Cons.prems(4) tokenize_remembers [OF ok Cons.prems(3) t2(1)] by (simp add: remembers_def)
  from Cons.IH [OF t(3) r(1) t2(3) this]
  have "fst (pieces (vault_ctx E V ws) tt ss (sp_end s) st3) = rest" .
  ultimately show ?case using t2(2) r(2) by (auto split: prod.split)
qed

text \<open>The text with each span replaced.\<close>

fun replaced_by :: "(span \<Rightarrow> string) \<Rightarrow> string \<Rightarrow> span list \<Rightarrow> nat \<Rightarrow> string" where
  "replaced_by f tt [] c = drop c tt"
| "replaced_by f tt (s # ss) c = slice c (sp_start s) tt @ f s @ replaced_by f tt ss (sp_end s)"

text \<open>The token a vault holds for the value of a span.\<close>

definition held_token :: "vault_env \<Rightarrow> pii_vault \<Rightarrow> uuid \<Rightarrow> vault_state \<Rightarrow> string \<Rightarrow> span \<Rightarrow> string option" where
  "held_token E V ws st tt s =
     find_token (vd_map (fst st)) (token_key_of (E, V) ws (sp_kind s) (slice (sp_start s) (sp_end s) tt))"

lemma pieces_tokens:
  assumes "vault_ok (E, V)"
  shows "one_workspace ws (fst st) \<Longrightarrow> pieces (vault_ctx E V ws) tt ss c st = (out, st') \<Longrightarrow>
     (\<forall>s \<in> set ss. held_token E V ws st' tt s \<noteq> None) \<and>
     out = replaced_by (\<lambda>s. the (held_token E V ws st' tt s)) tt ss c"
proof (induction ss arbitrary: c st out)
  case (Cons s ss)
  let ?raw = "slice (sp_start s) (sp_end s) tt"
  obtain t st1 where t: "tokenize E V ws (sp_kind s) ?raw st = (Inr t, st1)"
    "render_token (vault_ctx E V ws) ?raw (sp_kind s) st = (t, st1)" "one_workspace ws (fst st1)"
    using render_token_vault [OF assms Cons.prems(1)] by blast
  obtain rest where r: "pieces (vault_ctx E V ws) tt ss (sp_end s) st1 = (rest, st')"
      "out = slice c (sp_start s) tt @ t @ rest"
    using Cons.prems(2) t(2) by (auto split: prod.splits)
  have "held_token E V ws st1 tt s = Some t"
    using vault.op_returns [OF assms Cons.prems(1), of "(sp_kind s, ?raw)"] t(1) by (simp add: held_token_def)
  then have "held_token E V ws st' tt s = Some t"
    using pieces_remembers [OF assms t(3) r(1)] unfolding held_token_def remembers_def by blast
  with Cons.IH [OF t(3) r(1)] r(2) show ?case by simp
qed simp

section \<open>Properties\<close>

text \<open>
  C11. Under any interleaving of concurrent calls on a well-formed vault, two calls that return a token
  return the same one exactly when they ask for the same workspace, kind and lookup hash.
\<close>

theorem tokens_agree:
  assumes "vault_inv db" and "(vstep call)\<^sup>*\<^sup>* (vinit db) s"
    and "vs_phase s i = Finished (Inr t)" and "vs_phase s j = Finished (Inr u)"
  shows "t = u \<longleftrightarrow> fst (call i) = fst (call j)"
proof -
  have "sys_inv call s" using sys_inv_reach [OF assms(2) sys_inv_init [OF assms(1)]] .
  with assms(3,4) keys_tokens [of "vs_db s"] show ?thesis
    unfolding sys_inv_def by (metis option.inject)
qed

text \<open>
  C30. A call that loses the race does not get the winner's token: once another call on the same key has
  returned its token, a call whose statement started on a snapshot without the key can only fail. Whatever the
  others do in between, the step in which it returns inserts nothing, and it returns \<open>VaultError::Db\<close>: its
  snapshot has no row for \<open>fetch_one\<close>, even when the statement itself has succeeded.
\<close>

theorem racing_loser_fails:
  assumes "vault_inv db" and "(vstep call)\<^sup>*\<^sup>* (vinit db) s"
    and "vs_phase s i = Finished (Inr t)" and "fst (call i) = fst (call j)"
    and "vs_phase s j = Running snap" and "find_token snap (fst (call j)) = None"
    and "(vstep call)\<^sup>*\<^sup>* s u" and "vstep call u v" and "vs_phase v j \<noteq> vs_phase u j"
  shows "vs_phase v j = Finished (Inl Db) \<and> vd_map (vs_db v) = vd_map (vs_db u)"
proof -
  have "find_token (vd_map (vs_db s)) (fst (call j)) = Some t"
    using sys_inv_reach [OF assms(2) sys_inv_init [OF assms(1)]] assms(3,4) unfolding sys_inv_def by metis
  from loser_waits [OF assms(7,5) this]
  have u: "find_token (vd_map (vs_db u)) (fst (call j)) \<noteq> None" "vs_phase u j = Running snap \<or> (\<exists>r. vs_phase u j = Finished r)"
    by simp_all
  with finished_stays [OF assms(8)] assms(9) have "vs_phase u j = Running snap" by metis
  from loser_step [OF assms(8) this u(1) assms(6,9)] show ?thesis .
qed

text \<open>
  C29. The tokens of a kind are global, their numbers are per workspace: once one workspace holds
  \<open>PII_<KIND>_1\<close>, a workspace without a counter for that kind never gets a token of it, whatever
  calls are made and however often it retries.
\<close>

theorem second_workspace_shut_out:
  assumes "(vstep call)\<^sup>*\<^sup>* (vinit db) s" and "mint kind 1 \<in> tr_token ` set (vd_map db)"
    and "vd_counter db (ws, kind) = None"
    and "\<forall>r \<in> set (vd_map db). \<not> (tr_workspace_id r = ws \<and> tr_entity_kind r = kind)"
    and "fst (call i) = (ws, kind, h)"
  shows "vs_phase s i \<noteq> Finished (Inr t)"
proof -
  have "shut_out ws kind (vs_db (vinit db))" using assms(2-4) by (simp add: shut_out_def vinit_def)
  with assms(1) have "shut_out ws kind (vs_db s) \<and>
      (\<forall>i h t. fst (call i) = (ws, kind, h) \<longrightarrow> vs_phase s i \<noteq> Finished (Inr t))"
  proof (induction rule: rtranclp_induct)
    case base
    then show ?case by (simp add: vinit_def)
  next
    case (step s s')
    with shut_out_step [OF step(2)] show ?case by blast
  qed
  with assms(5) show ?thesis by blast
qed


section \<open>Concrete runs\<close>

definition toy_row :: token_row where
  "toy_row = \<lparr>tr_token = mint ''EMAIL'' 1, tr_workspace_id = 1, tr_entity_kind = ''EMAIL'',
     tr_lookup_hash = [7], tr_original_value_ct = []\<rparr>"

definition toy_db :: vault_db where
  "toy_db = \<lparr>vd_counter = [(1, ''EMAIL'') \<mapsto> 2], vd_map = [toy_row]\<rparr>"

lemma toy_db_inv: "vault_inv toy_db"
  by (simp add: vault_inv_def toy_db_def toy_row_def) (rule exI [of _ 1], simp)

lemma toy_db_find: "find_token (vd_map toy_db) k = (if k = (1, ''EMAIL'', [7]) then Some (mint ''EMAIL'' 1) else None)"
  by (simp add: find_token_def toy_db_def toy_row_def tr_key_def eq_commute)

theorem tokens_agree_witness:
  "\<exists>s. (vstep (\<lambda>_. ((1, ''EMAIL'', [7]), [])))\<^sup>*\<^sup>* (vinit toy_db) s \<and>
     vs_phase s 0 = vs_phase s 1 \<and> vs_phase s 0 = Finished (Inr (mint ''EMAIL'' 1))"
proof -
  let ?call = "\<lambda>_::nat. ((1, ''EMAIL'', [7]), []) :: token_key \<times> bytes"
  let ?f = "Finished (Inr (mint ''EMAIL'' 1))"
  let ?s0 = "vinit toy_db"
  let ?s1 = "?s0\<lparr>vs_phase := (vs_phase ?s0)(0 := ?f)\<rparr>"
  let ?s2 = "?s1\<lparr>vs_phase := (vs_phase ?s1)(1 := ?f)\<rparr>"
  have "vstep ?call ?s0 ?s1"
    by (rule vstep.hit) (simp_all add: vinit_def lookup_existing_def toy_db_find)
  moreover have "vstep ?call ?s1 ?s2"
    by (rule vstep.hit) (simp_all add: vinit_def lookup_existing_def toy_db_find)
  ultimately have r: "(vstep ?call)\<^sup>*\<^sup>* ?s0 ?s2" by (rule converse_rtranclp_into_rtranclp [OF _ r_into_rtranclp])
  obtain u where u: "vs_phase ?s2 1 = Finished (Inr u)" by simp
  have "mint ''EMAIL'' 1 = u \<longleftrightarrow> fst (?call 0) = fst (?call 1)"
    by (rule tokens_agree [OF toy_db_inv r _ u, where i = 0]) simp
  with r u show ?thesis by (intro exI [of _ ?s2]) simp
qed

text \<open>Two calls on the same new value, both past their lookup and with their snapshots taken.\<close>

theorem racing_loser_fails_witness:
  "\<exists>u v. (vstep (\<lambda>_. ((1, ''EMAIL'', [7]), [])))\<^sup>*\<^sup>* (vinit empty_db) u \<and> vstep (\<lambda>_. ((1, ''EMAIL'', [7]), [])) u v \<and>
     vs_phase u 0 = Finished (Inr (mint ''EMAIL'' 1)) \<and> vs_phase u 1 = Running [] \<and>
     vs_phase v 1 = Finished (Inl Db) \<and> vd_map (vs_db v) = vd_map (vs_db u)"
proof -
  let ?call = "\<lambda>_::nat. ((1, ''EMAIL'', [7]), []) :: token_key \<times> bytes"
  let ?to = "\<lambda>i p s. s\<lparr>vs_phase := (vs_phase s)(i := p)\<rparr>"
  let ?s0 = "vinit empty_db"
  let ?s4 = "?to 1 (Running []) (?to 0 (Running []) (?to 1 Missed (?to 0 Missed ?s0)))"
  have none: "find_token [] (1, ''EMAIL'', [7]) = None" by (simp add: find_token_def)
  have empty: "lookup_existing (vs_db ?s0) (fst (?call 0)) = None" "vd_map (vs_db ?s0) = []"
    by (simp_all add: vinit_def empty_db_def lookup_existing_def none)
  have "vstep ?call ?s0 (?to 0 Missed ?s0)"
    by (rule vstep.miss) (use empty in \<open>simp_all add: vinit_def\<close>)
  moreover have "vstep ?call (?to 0 Missed ?s0) (?to 1 Missed (?to 0 Missed ?s0))"
    by (rule vstep.miss) (use empty in \<open>simp_all add: vinit_def\<close>)
  moreover have "vstep ?call (?to 1 Missed (?to 0 Missed ?s0)) (?to 0 (Running []) (?to 1 Missed (?to 0 Missed ?s0)))"
    using vstep.start [of "?to 1 Missed (?to 0 Missed ?s0)" 0 ?call] empty by simp
  moreover have "vstep ?call (?to 0 (Running []) (?to 1 Missed (?to 0 Missed ?s0))) ?s4"
    using vstep.start [of "?to 0 (Running []) (?to 1 Missed (?to 0 Missed ?s0))" 1 ?call] empty by simp
  ultimately have four: "(vstep ?call)\<^sup>*\<^sup>* ?s0 ?s4"
    by (meson converse_rtranclp_into_rtranclp rtranclp.rtrancl_refl)
  obtain db1 where db1: "cte_upsert [] (fst (?call 0)) (snd (?call 0)) (vs_db ?s4) = (Inr (mint ''EMAIL'' 1), db1)"
    by (simp add: cte_upsert_def vinit_def empty_db_def none Let_def)
  let ?u = "\<lparr>vs_db = db1, vs_phase = (vs_phase ?s4)(0 := Finished (Inr (mint ''EMAIL'' 1)))\<rparr>"
  have "vstep ?call ?s4 ?u" by (rule vstep.finish [OF _ db1]) simp
  with four have u: "(vstep ?call)\<^sup>*\<^sup>* ?s0 ?u" by (rule rtranclp.rtrancl_into_rtrancl)
  obtain r db2 where "cte_upsert [] (fst (?call 1)) (snd (?call 1)) (vs_db ?u) = (r, db2)" by (metis surj_pair)
  then have step: "vstep ?call ?u \<lparr>vs_db = db2, vs_phase = (vs_phase ?u)(1 := Finished r)\<rparr>"
    by (rule vstep.finish [rotated]) simp
  have "vs_phase ?u 0 = Finished (Inr (mint ''EMAIL'' 1))" "vs_phase ?u 1 = Running []" by simp_all
  with racing_loser_fails [OF vault_inv_empty u, of 0 "mint ''EMAIL'' 1" 1 "[]", OF _ _ _ _ rtranclp.rtrancl_refl step] none u step
  show ?thesis by (intro exI [of _ ?u] exI [of _ "\<lparr>vs_db = db2, vs_phase = (vs_phase ?u)(1 := Finished r)\<rparr>"]) auto
qed

theorem second_workspace_shut_out_witness:
  "\<exists>s. (vstep (\<lambda>_. ((2, ''EMAIL'', [9]), [])))\<^sup>*\<^sup>* (vinit toy_db) s \<and> vs_phase s 0 = Finished (Inl Db) \<and>
     (\<forall>i t. vs_phase s i \<noteq> Finished (Inr t))"
proof -
  let ?call = "\<lambda>_::nat. ((2, ''EMAIL'', [9]), []) :: token_key \<times> bytes"
  let ?s0 = "vinit toy_db"
  let ?s1 = "?s0\<lparr>vs_phase := (vs_phase ?s0)(0 := Missed)\<rparr>"
  let ?s2 = "?s1\<lparr>vs_phase := (vs_phase ?s1)(0 := Running (vd_map (vs_db ?s1)))\<rparr>"
  let ?s3 = "\<lparr>vs_db = toy_db, vs_phase = (vs_phase ?s2)(0 := Finished (Inl Db))\<rparr>"
  have "vstep ?call ?s0 ?s1"
    by (rule vstep.miss) (simp_all add: vinit_def lookup_existing_def toy_db_find)
  moreover have "vstep ?call ?s1 ?s2" by (rule vstep.start) simp
  moreover have "vstep ?call ?s2 ?s3"
    by (rule vstep.finish [of _ _ "vd_map toy_db"])
      (simp_all add: vinit_def cte_upsert_def toy_db_find, simp_all add: toy_db_def toy_row_def)
  ultimately have r: "(vstep ?call)\<^sup>*\<^sup>* ?s0 ?s3"
    by (meson converse_rtranclp_into_rtranclp rtranclp.rtrancl_refl)
  have "vs_phase ?s3 i \<noteq> Finished (Inr t)" for i t
    by (rule second_workspace_shut_out [OF r, where kind = "''EMAIL''" and ws = 2 and h = "[9]"]) (simp_all add: toy_db_def toy_row_def)
  with r show ?thesis by (intro exI [of _ ?s3]) simp
qed

definition toy_vault_env :: vault_env where
  "toy_vault_env = \<lparr>ve_nfkc = (\<lambda>cs. cs), ve_lower = (\<lambda>cs. cs), ve_hmac = (\<lambda>k m. k @ m), ve_aead = toy_aead,
     ve_iv = (\<lambda>_. replicate 12 3), ve_fails = (\<lambda>_. False)\<rparr>"

definition toy_vault :: pii_vault where
  "toy_vault = \<lparr>pv_hmac_root = replicate 32 1, pv_content_key = replicate 32 7\<rparr>"


end
