(* ===== verification/Repo_Tests.thy ===== *)
theory Repo_Tests
  imports Ner Vault Chunker Zoho
begin

text \<open>
  The repository's own unit tests, run on the model: for each \<open>#[test]\<close> whose input is concrete, a lemma
  with the assertions of the test, over the same literals. They guard the definitions: a model that
  departs from the code on one of these inputs fails to check. Tests of a mock server are stated over
  an environment that gives the mock's answer.

  The scanner's tests need a search engine, so the theory begins with one: \<open>first_rx\<close> finds the leftmost
  match, takes the first end the pattern prefers and goes on behind it, as \<open>find_iter\<close> does for patterns
  that match no empty text. It satisfies \<open>rx_laws\<close> (\<open>first_rx_laws\<close>) on every text; its classes \<open>\d\<close> and \<open>\w\<close>
  are the ASCII part of the crate's Unicode ones.
\<close>

section \<open>A leftmost-first search\<close>

definition match_at :: "(uchar \<Rightarrow> bool) \<Rightarrow> rx \<Rightarrow> string \<Rightarrow> nat \<Rightarrow> nat option" where
  "match_at wd r txt a =
     (if is_char_boundary txt a then
        (case rx_step wd r (last_opt (chars (take a txt)), chars (drop a txt)) of
           [] \<Rightarrow> None
         | w # _ \<Rightarrow> Some (length txt - length (of_chars (snd w))))
      else None)"

fun find_loop :: "(uchar \<Rightarrow> bool) \<Rightarrow> rx \<Rightarrow> string \<Rightarrow> nat \<Rightarrow> nat list \<Rightarrow> (nat \<times> nat) list" where
  "find_loop wd r txt cursor [] = []"
| "find_loop wd r txt cursor (a # xs) =
     (if a < cursor then find_loop wd r txt cursor xs
      else case match_at wd r txt a of
          None \<Rightarrow> find_loop wd r txt cursor xs
        | Some b \<Rightarrow> (a, b) # find_loop wd r txt b xs)"

definition is_word_char :: "uchar \<Rightarrow> bool" where
  "is_word_char c \<longleftrightarrow> is_alpha_c c \<or> is_ascii_digit c \<or> c = 95"

definition first_rx :: rx_env where
  "first_rx = \<lparr>rx_find = (\<lambda>r txt. if is_str txt then find_loop is_word_char r txt 0 [0..<Suc (length txt)] else []),
     rx_digit = is_ascii_digit, rx_word = is_word_char\<rparr>"

lemma step_suffix: "w' \<in> set (rx_step wd r (l, cs)) \<Longrightarrow> \<exists>p. cs = p @ snd w'"
  using rx_step_suffix [of wd r] unfolding leaves_suffix_def by (metis snd_conv)

lemma utf8_enc_head: "\<not> is_cont (utf8_enc c ! 0)" if "is_scalar c"
  using that div_mult2_eq [of c 64 64] by (auto simp: utf8_enc_def is_cont_def is_scalar_def)

lemma boundary_before_chars:
  assumes "list_all is_scalar cs"
  shows "is_char_boundary (q @ of_chars cs) (length q)"
proof (cases cs)
  case (Cons c ds)
  have "codes (of_chars cs) = utf8_encode cs" using assms by (rule codes_of_chars)
  then have "of_char (of_chars cs ! 0) = utf8_encode cs ! 0" and "of_chars cs \<noteq> []"
    using Cons by (metis codes_def length_greater_0_conv list.simps(3) nth_map of_chars_eq_Nil, simp)
  then show ?thesis
    using Cons assms utf8_enc_head [of c] by (simp add: is_char_boundary_def nth_append)
qed simp

lemma first_rx_sel [simp]: "rx_digit first_rx = is_ascii_digit" "rx_word first_rx = is_word_char"
  by (simp_all add: first_rx_def)

lemma match_at_sound:
  assumes "is_str txt" and "a \<le> length txt" and "match_at wd r txt a = Some b"
  shows "a \<le> b \<and> b \<le> length txt \<and> is_char_boundary txt a \<and> is_char_boundary txt b \<and>
     chars (drop b txt) \<in> snd ` set (rx_step wd r (last_opt (chars (take a txt)), chars (drop a txt)))"
proof -
  let ?st = "rx_step wd r (last_opt (chars (take a txt)), chars (drop a txt))"
  obtain w where w: "w \<in> set ?st" and b: "b = length txt - length (of_chars (snd w))"
    and bd: "is_char_boundary txt a"
    using assms(3) by (auto simp: match_at_def split: if_splits list.splits)
  obtain p where p: "chars (drop a txt) = p @ snd w"
    using step_suffix [OF w] by blast
  have sc: "list_all is_scalar (p @ snd w)" using chars_scalar [of "drop a txt"] p by simp
  have d: "drop a txt = of_chars p @ of_chars (snd w)"
    using of_chars_chars [OF is_str_split(2) [OF assms(1) bd assms(2)]] p by simp
  define q where "q = take a txt @ of_chars p"
  have "q @ of_chars (snd w) = take a txt @ drop a txt" unfolding d q_def by simp
  then have tx: "txt = q @ of_chars (snd w)" unfolding append_take_drop_id by (rule sym)
  have len: "length txt = length q + length (of_chars (snd w))" by (subst tx) simp
  have "drop (length q) txt = of_chars (snd w)" by (subst tx) simp
  moreover have "a \<le> length q" using assms(2) by (simp add: q_def)
  moreover have "is_char_boundary txt (length q)"
    by (subst tx, rule boundary_before_chars) (use sc in simp)
  moreover have "b = length q" using b len by simp
  ultimately show ?thesis using w sc bd len by auto
qed

lemma find_loop_sound:
  "(a, b) \<in> set (find_loop wd r txt cursor xs) \<Longrightarrow> a \<in> set xs \<and> match_at wd r txt a = Some b"
  by (induction wd r "txt" cursor xs rule: find_loop.induct) (auto split: if_splits option.splits)

lemma first_rx_laws: "rx_laws first_rx"
proof -
  have "a \<le> b \<and> b \<le> length tt \<and> is_char_boundary tt a \<and> is_char_boundary tt b \<and>
      chars (drop b tt) \<in> snd ` set (rx_step is_word_char r (last_opt (chars (take a tt)), chars (drop a tt)))"
    if tt: "is_str tt" and ab: "(a, b) \<in> set (find_loop is_word_char r tt 0 [0..<Suc (length tt)])" for r tt a b
  proof -
    have "a \<le> length tt" using find_loop_sound [OF ab] by auto
    then show ?thesis using find_loop_sound [OF ab] by (intro match_at_sound [OF tt]) auto
  qed
  moreover have "\<forall>c. is_ascii_digit c \<longrightarrow> \<not> is_whitespace c"
    by (auto simp: is_ascii_digit_def is_whitespace_def)
  ultimately show ?thesis by (simp add: rx_laws_def first_rx_def)
qed

text \<open>On an ASCII text the search is a walk over its characters.\<close>

definition first_end :: "(uchar \<Rightarrow> bool) \<Rightarrow> rx \<Rightarrow> nat \<Rightarrow> uchar option \<Rightarrow> uchar list \<Rightarrow> nat option" where
  "first_end wd r a prev cs =
     (case rx_step wd r (prev, cs) of [] \<Rightarrow> None | w # _ \<Rightarrow> Some (a + length cs - length (snd w)))"

fun find_ascii :: "(uchar \<Rightarrow> bool) \<Rightarrow> rx \<Rightarrow> nat \<Rightarrow> nat \<Rightarrow> uchar option \<Rightarrow> uchar list \<Rightarrow> (nat \<times> nat) list" where
  "find_ascii wd r cursor a prev [] =
     (if a < cursor then [] else case first_end wd r a prev [] of None \<Rightarrow> [] | Some b \<Rightarrow> [(a, b)])"
| "find_ascii wd r cursor a prev (c # cs) =
     (if a < cursor then find_ascii wd r cursor (a + 1) (Some c) cs
      else case first_end wd r a prev (c # cs) of
          None \<Rightarrow> find_ascii wd r cursor (a + 1) (Some c) cs
        | Some b \<Rightarrow> (a, b) # find_ascii wd r b (a + 1) (Some c) cs)"

lemma of_chars_ascii: "list_all (\<lambda>c. c < 128) cs \<Longrightarrow> length (of_chars cs) = length cs"
  by (induction cs) (auto simp: of_chars_def str_of_codes_def utf8_enc_def)

lemma match_at_ascii:
  assumes "\<forall>c \<in> set (p @ s). (of_char c :: nat) < 128"
  shows "match_at wd r (p @ s) (length p) = first_end wd r (length p) (last_opt (codes p)) (codes s)"
proof -
  have ch: "chars p = codes p" "chars s = codes s" using assms by (intro conjunct2 [OF ascii_is_str]; simp)+
  have "length (of_chars (snd w)) = length (snd w)"
    if w: "w \<in> set (rx_step wd r (last_opt (codes p), codes s))" for w
  proof -
    obtain q where "codes s = q @ snd w"
      using step_suffix [OF w] by blast
    then have "set (snd w) \<subseteq> set (codes s)" by simp
    then show ?thesis using assms by (intro of_chars_ascii) (auto simp: list_all_iff codes_def)
  qed
  then show ?thesis
    using ascii_boundary [OF assms, of "length p"]
    by (auto simp: match_at_def first_end_def ch split: list.split)
qed

lemma find_loop_ascii:
  assumes "\<forall>c \<in> set (p @ s). (of_char c :: nat) < 128"
  shows "find_loop wd r (p @ s) cursor [length p..<Suc (length (p @ s))] =
     find_ascii wd r cursor (length p) (last_opt (codes p)) (codes s)"
  using assms
proof (induction s arbitrary: p cursor)
  case Nil
  then show ?case using match_at_ascii [of p "[]" wd r] by (simp add: codes_def split: option.split)
next
  case (Cons c s)
  have l: "length p + 1 = length (p @ [c])" "last_opt (codes (p @ [c])) = Some (of_char c)"
    by (simp_all add: last_opt_def codes_def)
  have up: "[length p..<Suc (length (p @ c # s))] = length p # [length (p @ [c])..<Suc (length ((p @ [c]) @ s))]"
    by (simp add: upt_conv_Cons del: upt_Suc)
  have ih: "find_loop wd r (p @ c # s) cur [length (p @ [c])..<Suc (length ((p @ [c]) @ s))] =
      find_ascii wd r cur (length p + 1) (Some (of_char c)) (codes s)" for cur
    using Cons.IH [of "p @ [c]" cur] Cons.prems unfolding l by (simp del: upt_Suc)
  show ?case
    unfolding up find_loop.simps ih match_at_ascii [OF Cons.prems]
    by (simp add: codes_def split: option.split)
qed

lemma first_rx_ascii:
  assumes "\<forall>c \<in> set s. (of_char c :: nat) < 128"
  shows "rx_find first_rx r s = find_ascii is_word_char r 0 0 None (codes s)"
  using find_loop_ascii [of "[]" s is_word_char r 0] assms
  by (simp add: first_rx_def last_opt_def ascii_is_str codes_def del: upt_Suc)

lemma rx_numeral:
  "rx_times (numeral k) f w = concat (map (rx_times (pred_numeral k) f) (f w))"
  "rx_upto (numeral k) f w = concat (map (rx_upto (pred_numeral k) f) (f w)) @ [w]"
  by (simp_all add: numeral_eq_Suc)

lemmas rx_eval = first_rx_ascii first_end_def rx_numeral codes_def Let_def is_alpha_c_def is_ascii_digit_def
  is_ascii_uppercase_def is_ascii_lowercase_def is_word_char_def

section \<open>sanitize/regex_scan.rs\<close>

lemma scan_first:
  assumes "\<forall>c \<in> set s. (of_char c :: nat) < 128"
  shows "scan first_rx s = Returns (scan_spec first_rx s)"
  using scan_eq [OF first_rx_laws] assms ascii_is_str by blast

lemma strip_ascii:
  "\<forall>c \<in> set s. (of_char c :: nat) < 128 \<Longrightarrow> strip_spaces s = filter (\<lambda>c. \<not> is_whitespace (of_char c)) s"
  by (induction s) (auto simp: strip_spaces_def ascii_is_str codes_def of_chars_def str_of_codes_def utf8_enc_def)

lemma nir_eq:
  assumes "\<forall>c \<in> set raw. (of_char c :: nat) < 128"
  shows "is_valid_nir raw = Returns (length (strip_spaces raw) = 15 \<and> nir_ok (strip_spaces raw))"
proof (cases "length (strip_spaces raw) = 15")
  case True
  then show ?thesis using is_valid_nir_ascii [of raw] assms by (simp add: strip_ascii)
qed (simp add: is_valid_nir_len)

lemma show_two_digits: "10 \<le> n \<Longrightarrow> n < 100 \<Longrightarrow> show_nat n = [digit_char (n div 10), digit_char (n mod 10)]"
  by (subst show_nat.simps) (simp add: show_nat.simps)

lemmas valid_eval = nir_eq is_valid_iban_eq strip_ascii is_whitespace_def nir_ok_def nir_normal_def slice_def
  is_digit_char_def dec_value_def digit_val_def iban_shape_def iban_numeric_def codes_def iban_digits_def
  is_ascii_uppercase_def is_ascii_digit_def show_two_digits digit_char_def

lemmas scan_eval = scan_first scan_spec_def hits_def rx_eval re_fr_nir_def re_iban_def re_e164_def re_email_def
  re_uuid_def is_whitespace_def

text \<open>The kinds of the hits, as the tests look at them.\<close>

definition kinds :: "string \<Rightarrow> entity_kind list run" where
  "kinds txt = run_map (map sp_kind) (scan first_rx txt)"

text \<open>\<open>nir_valid_metropolitan_example\<close>, \<open>nir_invalid_luhn_is_not_flagged\<close>\<close>

lemma nir_valid_metropolitan_example:
  "97 - (1851275108111 :: nat) mod 97 = 10" "is_valid_nir ''1 85 12 75 108 111 10'' = Returns True"
  by (simp_all add: valid_eval)

lemma nir_invalid_luhn: "is_valid_nir ''1 85 12 75 108 111 00'' = Returns False"
  by (simp add: valid_eval)

text \<open>\<open>nir_corsica_2a_maps_to_19\<close>, \<open>nir_corsica_2b_maps_to_18\<close>, \<open>nir_short_or_long_rejected\<close>\<close>

lemma nir_corsica_2a_maps_to_19:
  "97 - (2900519042123 :: nat) mod 97 = 76" "is_valid_nir ''2 90 05 2A 042 123 76'' = Returns True"
  by (simp_all add: valid_eval)

lemma nir_corsica_2b_maps_to_18:
  "97 - (2900518042123 :: nat) mod 97 = 6" "is_valid_nir ''2 90 05 2B 042 123 06'' = Returns True"
  by (simp_all add: valid_eval)

lemma nir_short_or_long_rejected:
  "is_valid_nir ''123'' = Returns False" "is_valid_nir ''1 85 12 75 108 111 00 99 99'' = Returns False"
  by (simp_all add: valid_eval)

text \<open>\<open>iban_valid_fr\<close>, \<open>iban_valid_de\<close>, \<open>iban_invalid_checksum_rejected\<close>, \<open>iban_too_short_rejected\<close>\<close>

lemma iban_valid_fr: "is_valid_iban ''FR1420041010050500013M02606'' = Returns True"
  by (simp add: valid_eval)

lemma iban_valid_de: "is_valid_iban ''DE89370400440532013000'' = Returns True"
  by (simp add: valid_eval)

lemma iban_invalid_checksum: "is_valid_iban ''FR0000041010050500013M02606'' = Returns False"
  by (simp add: valid_eval)

lemma iban_too_short_rejected: "is_valid_iban ''FR1420'' = Returns False"
  by (simp add: valid_eval)

text \<open>What the tests assert of \<open>scan\<close>'s hits.\<close>

lemma scan_nir_hit: "kinds ''ref: 1 85 12 75 108 111 10 tail'' = Returns [Nir]"
  by (simp add: kinds_def scan_eval slice_def nir_valid_metropolitan_example)

lemma scan_nir_bad: "kinds ''junk 1 85 12 75 108 111 00 junk'' = Returns []"
  by (simp add: kinds_def scan_eval slice_def nir_invalid_luhn)

lemma scan_iban_hit: "kinds ''IBAN: FR1420041010050500013M02606.'' = Returns [Iban]"
  by (simp add: kinds_def scan_eval slice_def iban_valid_fr)

lemma scan_iban_bad: "kinds ''IBAN: FR0000041010050500013M02606'' = Returns []"
  by (simp add: kinds_def scan_eval slice_def iban_invalid_checksum)

lemma e164_happy_paths:
  "kinds ''+33612345678'' = Returns [Phone]" "kinds ''+14155552671'' = Returns [Phone]"
  "kinds ''+442071838750'' = Returns [Phone]"
  by (simp_all add: kinds_def scan_eval)

lemma e164_rejects: "kinds ''0612345678'' = Returns []" "kinds ''+0123456789'' = Returns []"
  by (simp_all add: kinds_def scan_eval)

lemma email_happy_path: "kinds ''Contact: alice.doe+test@example.co.uk.'' = Returns [Email]"
  by (simp add: kinds_def scan_eval)

lemma email_multiple: "kinds ''a@b.co and c@d.io'' = Returns [Email, Email]"
  by (simp add: kinds_def scan_eval)

lemma uuid_canonical_is_matched:
  "kinds ''id=550e8400-e29b-41d4-a716-446655440000 end'' = Returns [Uuid]"
  by (simp add: kinds_def scan_eval)

lemma uuid_plain_hex_is_not_matched: "kinds ''550e8400e29b41d4a716446655440000'' = Returns []"
  by (simp add: kinds_def scan_eval)

lemma email_beats_uuid_when_longer_left:
  "kinds ''550e8400-e29b-41d4-a716-446655440000@example.com'' = Returns [Email, Uuid]"
  "run_map merge_and_dedup (scan first_rx ''550e8400-e29b-41d4-a716-446655440000@example.com'') =
     Returns [\<lparr>sp_start = 0, sp_end = 48, sp_kind = Email\<rparr>]"
  by (simp_all add: kinds_def scan_eval merge_and_dedup_def span_key_def sp_len_def)

lemma de_overlap_keeps_leftmost_on_partial_overlap:
  "merge_and_dedup [\<lparr>sp_start = 0, sp_end = 20, sp_kind = Iban\<rparr>, \<lparr>sp_start = 15, sp_end = 30, sp_kind = Uuid\<rparr>] =
     [\<lparr>sp_start = 0, sp_end = 20, sp_kind = Iban\<rparr>]"
  by (simp add: merge_and_dedup_def span_key_def sp_len_def)

section \<open>sanitize/mod.rs\<close>

abbreviation nil_ctx :: "unit sanitize_ctx" where
  "nil_ctx \<equiv> placeholder_only 0"

lemma sanitize_returns_borrowed_when_disabled:
  "sanitize_off ''user@example.com placed an order'' nil_ctx = Borrowed ''user@example.com placed an order''"
  by (simp add: sanitize_off_def)

lemma sanitize_returns_borrowed_when_no_hits:
  "sanitize_regex first_rx ''nothing sensitive to see here'' nil_ctx () =
     Returns (Borrowed ''nothing sensitive to see here'', ())"
  by (simp add: sanitize_regex_def sanitize_spans_def scan_eval)

lemma span_len_and_empty:
  "sp_len \<lparr>sp_start = 3, sp_end = 10, sp_kind = Email\<rparr> = 7"
  "\<not> sp_is_empty \<lparr>sp_start = 3, sp_end = 10, sp_kind = Email\<rparr>"
  "sp_is_empty \<lparr>sp_start = 5, sp_end = 5, sp_kind = Email\<rparr>"
  by (simp_all add: sp_len_def sp_is_empty_def)

lemma merge_and_dedup_greedy_left_longest:
  "merge_and_dedup
     [\<lparr>sp_start = 0, sp_end = 10, sp_kind = Email\<rparr>, \<lparr>sp_start = 2, sp_end = 4, sp_kind = Uuid\<rparr>,
      \<lparr>sp_start = 12, sp_end = 18, sp_kind = Iban\<rparr>, \<lparr>sp_start = 12, sp_end = 15, sp_kind = Phone\<rparr>] =
     [\<lparr>sp_start = 0, sp_end = 10, sp_kind = Email\<rparr>, \<lparr>sp_start = 12, sp_end = 18, sp_kind = Iban\<rparr>]"
  by (simp add: merge_and_dedup_def span_key_def sp_len_def)

lemma sanitize_regex_only_substitutes_email:
  "sanitize_regex first_rx ''contact alice@example.com about the order'' nil_ctx () =
     Returns (Owned ''contact [PII:EMAIL] about the order'', ())"
  by (simp add: sanitize_regex_def sanitize_spans_def scan_eval merge_and_dedup_def substitute_def
      render_token_def placeholder_only_def placeholder_def str_eval)

section \<open>sanitize/ner.rs\<close>

definition test_labels :: "string list" where
  "test_labels = [''O'', ''B-PER'', ''I-PER'', ''B-ORG'', ''I-ORG'', ''B-LOC'', ''I-LOC'', ''B-MISC'', ''I-MISC'']"

lemmas bio_eval = bio_merge_def bio_step_def map_label_def starts_with_def test_labels_def

lemma bio_merge_collapses_consecutive_i_tags:
  "bio_merge [(0, 0), (0, 5), (6, 12), (13, 18), (19, 21), (22, 26), (0, 0)] [0, 1, 2, 0, 0, 3, 0] test_labels =
     [\<lparr>sp_start = 0, sp_end = 12, sp_kind = Person\<rparr>, \<lparr>sp_start = 22, sp_end = 26, sp_kind = Org\<rparr>]"
  by (simp add: bio_eval)

lemma bio_merge_drops_misc: "bio_merge [(0, 0), (0, 5), (0, 0)] [0, 7, 0] test_labels = []"
  by (simp add: bio_eval)

lemma bio_merge_stray_i_tag_starts_new_span:
  "bio_merge [(0, 0), (0, 5), (0, 0)] [0, 2, 0] test_labels = [\<lparr>sp_start = 0, sp_end = 5, sp_kind = Person\<rparr>]"
  by (simp add: bio_eval)

lemma bio_merge_different_kinds_do_not_merge:
  "map sp_kind (bio_merge [(0, 0), (0, 5), (6, 11), (0, 0)] [0, 1, 3, 0] test_labels) = [Person, Org]"
  by (simp add: bio_eval)

section \<open>sanitize/vault.rs\<close>

text \<open>Lower case and NFKC are the library's; on these inputs they act as below.\<close>

definition ascii_lower :: "uchar \<Rightarrow> uchar" where
  "ascii_lower c = (if is_ascii_uppercase c then c + 32 else c)"

definition test_vault_env :: vault_env where
  "test_vault_env = toy_vault_env\<lparr>ve_nfkc := (\<lambda>cs. concat (map (\<lambda>c. if c = 0xFB00 then [102, 102] else [c]) cs)),
     ve_lower := map ascii_lower\<rparr>"

lemmas normalize_eval = normalize_def normalize_name_def normalize_strict_def test_vault_env_def ascii_lower_def
  is_ascii_uppercase_def is_whitespace_def trim_chars_def ascii_is_str codes_def of_chars_def str_of_codes_def
  utf8_enc_def char_of_def bit_0

lemma chars_ligature: "chars ([CHR 0xEF, CHR 0xAC, CHR 0x80] @ ''   Alice'') = [0xFB00, 32, 32, 32, 65, 108, 105, 99, 101]"
proof -
  have ff: "[CHR 0xEF, CHR 0xAC, CHR 0x80] = of_chars [0xFB00]"
    by (simp add: of_chars_def str_of_codes_def utf8_enc_def char_of_def bit_0)
  have "chars (of_chars [0xFB00] @ ''   Alice'') = chars (of_chars [0xFB00]) @ chars ''   Alice''"
    by (rule chars_append) (simp_all add: is_scalar_def ascii_is_str)
  also have "chars (of_chars [0xFB00]) = [0xFB00]" by (rule chars_of_chars) (simp add: is_scalar_def)
  finally show ?thesis unfolding ff by (simp add: ascii_is_str codes_def)
qed

lemma normalize_name_nfkc_and_ws_collapse:
  "normalize test_vault_env Person ([CHR 0xEF, CHR 0xAC, CHR 0x80] @ ''   Alice'') = ''ff alice''"
  "normalize test_vault_env Org (''  ACME'' @ [CHR 0x09] @ ''Corp  '') = ''acme corp''"
  using chars_ligature by (simp_all add: normalize_eval)

lemma normalize_strict_strips_ws_and_lowercases:
  "normalize test_vault_env Email ''  Alice.Doe@Example.COM  '' = ''alice.doe@example.com''"
  "normalize test_vault_env Iban ''FR14 2004 1010 0505 0001 3M02 606'' = ''fr1420041010050500013m02606''"
  by (simp_all add: normalize_eval)

lemma normalize_phone_strips_spaces_and_plus_preserved:
  "normalize test_vault_env Phone ''+33 6 12 34 56 78'' = ''+33612345678''"
  by (simp add: normalize_eval)

section \<open>connector/zoho.rs\<close>

lemma trusted_host_allowlist:
  "list_all is_trusted_zoho_host [''workdrive.zoho.eu'', ''accounts.zoho.eu'', ''zoho.eu'', ''cdn1.zohocdn.com'',
     ''download-cdn.zohocdn.com'', ''files.zoho.eu'']"
  "list_all (\<lambda>h. \<not> is_trusted_zoho_host h) [''workdrive.zoho.com'', ''zoho.com'', ''accounts.zoho.in'',
     ''evil.zoho.eu.attacker.com'', ''notzoho.eu'', ''127.0.0.1'', [], ''download.zoho.com'',
     ''evil-zoho.eu.attacker.com'']"
  by (simp_all add: is_trusted_zoho_host_def ends_with_def)

text \<open>The token endpoint of the mock: one answer to every POST.\<close>

definition mock_oauth :: "nat \<Rightarrow> token_response \<Rightarrow> token_env" where
  "mock_oauth status body = \<lparr>ze_now = (\<lambda>_. 0), ze_instant_end = nanos 1000000,
     ze_oauth = (\<lambda>_ _ _. Answer status (Some body)), ze_hops = (\<lambda>_ _ _ _. [])\<rparr>"

lemmas refresh_eval = refresh_if_needed_def check_cache_def call_oauth_refresh_def store_token_def io_defs
  cached_fresh_def token_of_answer_def classify_oauth_error_def mock_oauth_def is_success_def toy_world_def
  instant_add_def nanos_def ACCESS_TOKEN_TTL_SAFETY_SECS_def

lemma oauth_refresh_happy_path:
  "\<exists>w. refresh_if_needed (mock_oauth 200 \<lparr>to_access_token = Some ''FAKE_ACCESS_TOKEN_FOR_TESTS'',
       to_expires_in = Some 3600, to_error = None\<rparr>) T toy_world = Some (Returns (Inr ''FAKE_ACCESS_TOKEN_FOR_TESTS'', w)) \<and>
     zw_cache w \<noteq> None"
  by (simp add: refresh_eval)

lemma oauth_refresh_refused:
  "\<exists>w. refresh_if_needed (mock_oauth 400 \<lparr>to_access_token = None, to_expires_in = None,
       to_error = Some ''invalid_code''\<rparr>) T toy_world = Some (Returns (Inl (Auth InvalidCode), w))"
  "\<exists>w. refresh_if_needed (mock_oauth 400 \<lparr>to_access_token = None, to_expires_in = None,
       to_error = Some ''access_denied''\<rparr>) T toy_world = Some (Returns (Inl (Auth AccessDenied), w))"
  "\<exists>w. refresh_if_needed (mock_oauth 401 \<lparr>to_access_token = None, to_expires_in = None,
       to_error = Some ''invalid_client''\<rparr>) T toy_world = Some (Returns (Inl (Auth InvalidClient), w))"
  by (simp_all add: refresh_eval)

text \<open>\<open>debug_redacts_tokens\<close>: the fields printed are the same whatever the secrets are.\<close>

lemma debug_redacts_tokens:
  "debug_credentials (c\<lparr>zc_client_secret := s, zc_refresh_token := r\<rparr>) = debug_credentials c"
  "debug_cached_token f (t\<lparr>ct_access_token := s\<rparr>) = debug_cached_token f t"
  "(''client_id'', zc_client_id c) \<in> set (debug_credentials c)"
  by (simp_all add: debug_credentials_def debug_cached_token_def)

text \<open>
  \<open>cursor_bfs_advances_watermark_only_after_drain\<close>: one listing page with one file; the first call from no
  cursor, the second from the cursor it returned.
\<close>

definition mock_bfs :: zoho_env where
  "mock_bfs = toy_zoho\<lparr>za_list := (\<lambda>_ _. ListAnswer 200 None (Inr
       \<lparr>fl_data = Some [\<lparr>zi_id = ''file1'', zi_name = Some ''doc.txt'', zi_kind = Some ''file'',
          zi_modified_time = Some 1700000000000, zi_status = Some ''active'', zi_permalink = None\<rparr>],
        fl_info = Some \<lparr>zg_more_records = Some False\<rparr>\<rparr>)),
     za_now_ms := (\<lambda>t. 1700000001000 + int t)\<rparr>"

lemma bfs_refresh: "refresh_if_needed mock_bfs (zl_tokens toy_client) = refresh_if_needed toy_zoho (zl_tokens toy_client)"
  by (rule refresh_cong) (simp_all add: mock_bfs_def)

lemma toy_refresh_empty:
  "zw_cache w = None \<Longrightarrow> \<exists>w'. refresh_if_needed toy_zoho T w = Some (Returns (Inr ''tok'', w'))"
  by (simp add: refresh_if_needed_def check_cache_def call_oauth_refresh_def store_token_def io_defs cached_fresh_def)

lemma bfs_page:
  assumes "zw_cache w = None"
  shows "\<exists>w'. zoho_pages mock_bfs toy_client f from_ms offset st [] w =
     Some (Returns (Inr (st, [change_of f \<lparr>zi_id = ''file1'', zi_name = Some ''doc.txt'', zi_kind = Some ''file'',
          zi_modified_time = Some 1700000000000, zi_status = Some ''active'', zi_permalink = None\<rparr>], False, offset), w'))"
proof -
  obtain w1 where "refresh_if_needed mock_bfs (zl_tokens toy_client) w = Some (Returns (Inr ''tok'', w1))"
    using toy_refresh_empty [OF assms] bfs_refresh by metis
  then have "\<exists>w2. list_folder_page mock_bfs toy_client f offset from_ms w =
      Some (Returns (Inr ([\<lparr>zi_id = ''file1'', zi_name = Some ''doc.txt'', zi_kind = Some ''file'',
          zi_modified_time = Some 1700000000000, zi_status = Some ''active'', zi_permalink = None\<rparr>], False), w2))"
    by (simp add: list_folder_page_def io_bind_Some page_of_answer_def mock_bfs_def is_success_def Let_def)
  then obtain w2 where "list_folder_page mock_bfs toy_client f offset from_ms w =
      Some (Returns (Inr ([\<lparr>zi_id = ''file1'', zi_name = Some ''doc.txt'', zi_kind = Some ''file'',
          zi_modified_time = Some 1700000000000, zi_status = Some ''active'', zi_permalink = None\<rparr>], False), w2))" by blast
  then show ?thesis
    by (subst zoho_pages.simps) (simp add: absorb_items_def absorb_item_eq zi_is_folder_def)
qed

lemma cursor_bfs_advances_watermark_only_after_drain:
  "\<exists>d\<^sub>1 s\<^sub>1 w\<^sub>1 d\<^sub>2 s\<^sub>2 w\<^sub>2. zoho_list_changes mock_bfs toy_client None toy_world = Some (Returns (Inr d\<^sub>1, w\<^sub>1)) \<and>
     dr_changes d\<^sub>1 \<noteq> [] \<and> dr_next_cursor d\<^sub>1 = Some (ser_cursor s\<^sub>1) \<and> zu_watermark_ms s\<^sub>1 = 0 \<and>
     zoho_list_changes mock_bfs toy_client (Some (ser_cursor s\<^sub>1)) w\<^sub>1 = Some (Returns (Inr d\<^sub>2, w\<^sub>2)) \<and>
     dr_next_cursor d\<^sub>2 = Some (ser_cursor s\<^sub>2) \<and> 0 < zu_watermark_ms s\<^sub>2 \<and>
     zu_watermark_ms s\<^sub>2 = zu_run_started_ms s\<^sub>1"
proof -
  note eval = zoho_list_changes_def load_state_def now_ms_def to_json_def from_json_def from_ms_of_def visit_def
    restart_def bootstrap_def io_defs io_run_def Let_def WATERMARK_OVERLAP_MS_def
  let ?w = "toy_world\<lparr>zw_tick := 1\<rparr>"
  let ?s = "(bootstrap (za_now_ms mock_bfs 0) ''R'')\<lparr>zu_queue := []\<rparr>"
  have json: "za_to_json mock_bfs = (\<lambda>c. Inr (ser_cursor c))" "za_from_json mock_bfs = (\<lambda>s. Some (de_cursor s))"
    by (simp_all add: mock_bfs_def toy_zoho_def)
  have "zw_cache ?w = None" by (simp add: toy_world_def)
  then obtain w1 where pg: "zoho_pages mock_bfs toy_client ''R'' 0 0 ?s [] ?w =
     Some (Returns (Inr (?s, [change_of ''R'' \<lparr>zi_id = ''file1'', zi_name = Some ''doc.txt'', zi_kind = Some ''file'',
          zi_modified_time = Some 1700000000000, zi_status = Some ''active'', zi_permalink = None\<rparr>], False, 0), w1))"
    using bfs_page by blast
  have now: "za_now_ms mock_bfs t = 1700000001000 + int t" for t by (simp add: mock_bfs_def)
  have "\<exists>d. zoho_list_changes mock_bfs toy_client None toy_world = Some (Returns (Inr d, w1)) \<and>
      dr_changes d \<noteq> [] \<and> dr_next_cursor d = Some (ser_cursor ?s)"
    using pg by (simp add: eval json toy_client_def toy_world_def)
  moreover have "\<exists>d s w. zoho_list_changes mock_bfs toy_client (Some (ser_cursor ?s)) w1 = Some (Returns (Inr d, w)) \<and>
      dr_next_cursor d = Some (ser_cursor s) \<and> zu_watermark_ms s = 1700000001000"
    by (simp add: eval json de_cursor_ser now) (metis zoho_cursor.select_convs(1))
  moreover have "zu_watermark_ms ?s = 0" "zu_run_started_ms ?s = 1700000001000"
    by (simp_all add: bootstrap_def now)
  ultimately show ?thesis by (metis zero_less_numeral)
qed

section \<open>chunker.rs\<close>

text \<open>The chunks of an ASCII text none of whose windows starts with white space.\<close>

lemma of_chars_codes: "\<forall>c \<in> set s. (of_char c :: nat) < 128 \<Longrightarrow> of_chars (codes s) = s"
  using ascii_is_str of_chars_chars by metis

lemma chunk_ascii:
  assumes "\<forall>c \<in> set s. (of_char c :: nat) < 128" and "s \<noteq> []"
    and "\<forall>k < window_count (length s). \<not> is_whitespace (of_char (s ! (k * 1848)))"
  shows "chunk_by_chars s = Returns (map (\<lambda>k. take 2048 (drop (k * 1848) s)) [0..<window_count (length s)])"
proof -
  have ch: "chars s = codes s" using ascii_is_str [OF assms(1)] by simp
  have w: "window (codes s) k = codes (take 2048 (drop (k * 1848) s))" for k
    by (simp add: window_def codes_def take_map drop_map CHUNK_CHARS_def)
  have "\<not> blank (window (codes s) k)" if k: "k < window_count (length s)" for k
  proof -
    have lt: "k * 1848 < length s"
      using k assms(2) window_count_last [of "k - 1" "length s"] by (cases k) auto
    then have "window (codes s) k ! 0 = of_char (s ! (k * 1848))" "window (codes s) k \<noteq> []"
      unfolding w by (simp_all add: codes_def)
    then have "of_char (s ! (k * 1848)) \<in> set (window (codes s) k)" by (metis length_greater_0_conv nth_mem)
    then show ?thesis using assms(3) k by (auto simp: blank_def list_all_iff)
  qed
  then have "filter (\<lambda>w. \<not> blank w) (windows (codes s)) = windows (codes s)"
    by (auto simp: windows_def filter_id_conv)
  moreover have "of_chars (codes (take 2048 (drop k s))) = take 2048 (drop k s)" for k
    using assms(1) by (intro of_chars_codes) (auto dest: in_set_takeD in_set_dropD)
  ultimately show ?thesis by (simp add: chunk_by_chars_eq ch windows_def w)
qed

lemma empty_input_zero_chunks:
  "chunk [] = Returns (Inr [])" "chunk ''   '' = Returns (Inr [])" "chunk [CHR 0x0A, CHR 0x09] = Returns (Inr [])"
  by (simp_all add: chunk_def trim_eq_Nil ascii_is_str codes_def is_whitespace_def)

lemma short_text_single_chunk: "chunk ''Hello world'' = Returns (Inr [''Hello world''])"
proof -
  have "chunk_by_chars ''Hello world'' = Returns [''Hello world'']"
    by (subst chunk_ascii) (simp_all add: window_count_def CHUNK_CHARS_def is_whitespace_def)
  then show ?thesis by (simp add: chunk_def trim_eq_Nil ascii_is_str codes_def is_whitespace_def)
qed

lemma repeated_word: "i < 5 * n \<Longrightarrow> concat (replicate n ''word '') ! i = ''word '' ! (i mod 5)"
proof (induction n arbitrary: i)
  case (Suc n)
  show ?case
  proof (cases "i < 5")
    case False
    then have "concat (replicate (Suc n) ''word '') ! i = concat (replicate n ''word '') ! (i - 5)"
      by (simp add: nth_append [of "''word ''", simplified] eval_nat_numeral)
    also have "\<dots> = ''word '' ! ((i - 5) mod 5)" using Suc False by simp
    also have "(i - 5) mod 5 = i mod 5" using False by (metis le_mod_geq not_less)
    finally show ?thesis .
  qed (use nth_append [of "''word ''" "concat (replicate n ''word '')" i] in simp)
qed simp

lemma long_text_produces_multiple_chunks:
  "\<exists>c d. chunk_by_chars (concat (replicate 500 ''word '')) = Returns [c, d]"
proof -
  let ?s = "concat (replicate 500 ''word '')"
  have len: "length ?s = 2500" by (simp add: length_concat sum_list_replicate)
  have wc: "window_count 2500 = 2" by (simp add: window_count_def CHUNK_CHARS_def)
  have "\<not> is_whitespace (of_char (?s ! (k * 1848)))" if "k < 2" for k
    using that repeated_word [of "k * 1848" 500] by (auto simp: less_2_cases_iff is_whitespace_def)
  then have "chunk_by_chars ?s = Returns (map (\<lambda>k. take 2048 (drop (k * 1848) ?s)) [0..<2])"
    by (subst chunk_ascii) (simp_all only: len wc, auto)
  then show ?thesis by (simp add: upt_rec del: take_replicate)
qed

lemma chunks_cover_full_content:
  "\<exists>c d. chunk_by_chars (''START'' @ replicate 2048 (CHR ''X'') @ ''END'') = Returns [c, d] \<and>
     starts_with c ''START'' \<and> ends_with d ''END''"
proof -
  let ?s = "''START'' @ replicate 2048 (CHR ''X'') @ ''END''"
  have len: "length ?s = 2056" by simp
  have wc: "window_count 2056 = 2" by (simp add: window_count_def CHUNK_CHARS_def)
  have "\<not> is_whitespace (of_char (?s ! (k * 1848)))" if "k < 2" for k
    using that by (auto simp: less_2_cases_iff is_whitespace_def nth_append nth_Cons')
  then have "chunk_by_chars ?s = Returns (map (\<lambda>k. take 2048 (drop (k * 1848) ?s)) [0..<2])"
    by (subst chunk_ascii) (simp_all only: len wc, auto)
  then show ?thesis
    by (simp add: numeral_2_eq_2 starts_with_def ends_with_def)
qed

lemma overlap_provides_context_continuity:
  "\<exists>c d. chunk_by_chars (replicate (CHUNK_CHARS + STRIDE_CHARS) (CHR ''A'')) = Returns [c, d] \<and>
     length (chars d) = OVERLAP_CHARS + min STRIDE_CHARS (length (chars d) - OVERLAP_CHARS)"
proof -
  let ?s = "replicate 3896 (CHR ''A'')"
  have wc: "window_count 3896 = 2" by (simp add: window_count_def CHUNK_CHARS_def)
  have "chunk_by_chars ?s = Returns (map (\<lambda>k. take 2048 (drop (k * 1848) ?s)) [0..<2])"
    by (subst chunk_ascii) (auto simp: wc less_2_cases_iff is_whitespace_def)
  then have "chunk_by_chars ?s = Returns [replicate 2048 (CHR ''A''), replicate 2048 (CHR ''A'')]"
    by (simp add: numeral_2_eq_2)
  moreover have "length (chars (replicate 2048 (CHR ''A''))) = 2048" by (simp add: ascii_is_str)
  ultimately show ?thesis by (simp add: CHUNK_CHARS_def OVERLAP_CHARS_def)
qed

section \<open>crypto.rs, of the daemon and of the key-rotation tool\<close>

text \<open>The constant-key hexadecimal strings of the tests.\<close>

lemma hex_repeat: "hex_encode (replicate n b) = concat (replicate n [hex_digit (unat b div 16), hex_digit (unat b mod 16)])"
  by (simp add: hex_encode_def)

lemma repeat_two: "concat (replicate n [c, c]) = replicate (2 * n) c"
  by (induction n) simp_all

lemma parse_key_repeat:
  assumes "hex_laws hx" and "hex_digit (unat b div 16) = c" and "hex_digit (unat b mod 16) = c"
  shows "parse_key hx (replicate (2 * n) c) = Inr (replicate n b) \<longleftrightarrow> n = 32"
    and "n \<noteq> 32 \<Longrightarrow> \<exists>e. parse_key hx (replicate (2 * n) c) = Inl e"
proof -
  have h: "hex_encode (replicate n b) = replicate (2 * n) c" using assms(2,3) by (simp add: hex_repeat repeat_two)
  have "trim [] = []" by (simp add: trim_eq_Nil)
  then have "trim (replicate (2 * n) c) = replicate (2 * n) c"
    using trim_hex [of "[]" "[]" "replicate n b"] by (simp add: h)
  moreover have "hx (replicate (2 * n) c) = Inr (replicate n b)" using assms(1) h by (metis hex_laws_def)
  ultimately show "parse_key hx (replicate (2 * n) c) = Inr (replicate n b) \<longleftrightarrow> n = 32"
    and "n \<noteq> 32 \<Longrightarrow> \<exists>e. parse_key hx (replicate (2 * n) c) = Inl e"
    by (simp_all add: parse_key_def)
qed

lemma hex_digits_aa: "hex_digit (unat (0xAA :: u8) div 16) = CHR ''a''" "hex_digit (unat (0xAA :: u8) mod 16) = CHR ''a''"
  by (simp_all add: hex_digit_def char_of_def bit_0)

lemma hex_digits_00: "hex_digit (unat (0 :: u8) div 16) = CHR ''0''" "hex_digit (unat (0 :: u8) mod 16) = CHR ''0''"
  by (simp_all add: hex_digit_def char_of_def bit_0)

text \<open>\<open>parse_key_valid\<close>, \<open>parse_key_wrong_length\<close>; the two tools share the function (\<open>kr_parse_key_eq\<close>).\<close>

lemma parse_key_valid: "hex_laws hx \<Longrightarrow> parse_key hx (replicate 64 (CHR ''a'')) = Inr (replicate 32 0xAA)"
  using parse_key_repeat(1) [OF _ hex_digits_aa, of hx 32] by simp

lemma parse_key_wrong_length:
  assumes "hex_laws hx"
  shows "\<exists>e. parse_key hx (replicate 32 (CHR ''0'')) = Inl e" "\<exists>e. parse_key hx (replicate 66 (CHR ''0'')) = Inl e"
  using parse_key_repeat(2) [OF assms hex_digits_00, of 16] parse_key_repeat(2) [OF assms hex_digits_00, of 33] by simp_all

text \<open>
  \<open>round_trip\<close> of both files, over any cipher with the laws of AES-GCM, and \<open>too_short_fails\<close>.
\<close>

lemma encrypt_round_trip:
  assumes "aead_laws A" and "length iv = 12" and "encrypt A (Some iv) (replicate 32 0) (as_bytes ''hello world'') = Inr wire"
  shows "length wire = IV_LEN + 11 + 16" "kr_decrypt A (replicate 32 0) wire = Inr (as_bytes ''hello world'')"
  using encrypt_wire [OF assms] kr_decrypt_encrypt [OF assms] by (simp_all add: IV_LEN_def)

text \<open>\<open>cross_lang_vector_wire_format_length\<close>, with the helper that takes the IV from the test.\<close>

definition encrypt_with_iv :: "aead \<Rightarrow> bytes \<Rightarrow> bytes \<Rightarrow> bytes \<Rightarrow> anyhow + bytes" where
  "encrypt_with_iv A key iv plaintext =
     (if \<not> aead_key_ok A key then Inl ''invalid key length''
      else (case fst (seal_with A advance key (one_shot_new iv) plaintext) of
              None \<Rightarrow> Inl ''seal failed''
            | Some buf \<Rightarrow> Inr (iv @ buf)))"

lemma encrypt_with_iv_eq: "encrypt_with_iv A key iv = encrypt A (Some iv) key"
  by (intro ext) (simp add: encrypt_with_iv_def encrypt_def)

lemma cross_lang_vector_wire_format_length:
  assumes "aead_laws A" and "encrypt_with_iv A (replicate 32 1) (replicate IV_LEN 2) (as_bytes ''hello from rust'') = Inr wire"
  shows "length wire = IV_LEN + 15 + 16" "take IV_LEN wire = replicate IV_LEN 2"
  using encrypt_wire [OF assms(1) _ assms(2) [unfolded encrypt_with_iv_eq]] by (simp_all add: IV_LEN_def)

lemma too_short_fails: "\<exists>e. kr_decrypt A (replicate 32 0) (replicate 10 0) = Inl e"
  by (rule kr_decrypt_short) simp

end
