(* ===== verification/Spec2Isabelle.thy ===== *)
theory Spec2Isabelle
  imports Healthy_Cycle Zoho_Runs Upsert_Race Rotation_Live Repo_Tests
begin

text \<open>
  Verification of the Rust programs of the MCP data gateway: the ingestion daemon
  (\<open>src/ingestion/src\<close>) and the key-rotation tool (\<open>src/tools/key-rotation/src\<close>).

  \<^bold>\<open>The program.\<close> The daemon polls document sources. For each source (a \<open>SourceConnector\<close>) a cycle
  loads the saved cursor, lists the changes since, and for each change deletes the chunks of a deleted
  item or downloads the file, extracts its text, cuts it into overlapping windows, encrypts each
  window, asks a TEI service for the embeddings, and replaces the rows of the item in
  \<open>document_chunks\<close> in one transaction; then it saves the next cursor. The key-rotation tool goes
  through the same table and re-encrypts every row under a new key, batch by batch. Beside these the
  daemon's crate has a PII sanitizer (regular expressions with check digits, a NER model, and a vault of
  stable tokens), which the daemon does not call yet.

  \<^bold>\<open>The theories\<close>, in the order of the imports (record fields and functions carry the names of the
  source, with a prefix for the record; paths below \<open>src/ingestion/src\<close> unless said otherwise):

  \<^item> \<open>Prelude\<close>: machine types, results (\<open>'e + 'a\<close>), panics (\<open>'a run\<close>), decimal printing, list lemmas.
  \<^item> \<open>Rust_Str\<close>: Rust's \<open>str\<close> as UTF-8 bytes: \<open>chars\<close>, \<open>of_chars\<close>, \<open>is_str\<close>, slices that panic off a
    character boundary, \<open>from_utf8\<close>, \<open>from_utf8_lossy\<close>, \<open>trim\<close>.
  \<^item> \<open>Chunker\<close> (\<open>chunker.rs\<close>): the loop \<open>chunk\<close> and its closed form \<open>windows\<close>.
  \<^item> \<open>Crypto\<close> (\<open>crypto.rs\<close> and its copy in the tool): \<open>parse_key\<close>, \<open>encrypt\<close>, \<open>kr_decrypt\<close>; the
    locale \<open>wire_cipher\<close>, interpreted on both copies.
  \<^item> \<open>Chunk_Db\<close> (\<open>db.rs\<close>, \<open>V1__init.sql\<close>): the table and the two statements the daemon makes on it, with
    their transaction; \<open>item_view\<close> is what one item stores; the locale \<open>chunk_store\<close> is what the daemon
    relies on. \<open>Upsert_Race\<close>: \<open>upsert_chunks\<close> statement by statement (\<open>ustep\<close>), several calls at once; a
    call alone is \<open>upsert_chunks\<close> (\<open>alone\<close>).
  \<^item> \<open>Row_Security\<close> (the migrations V5, V10, V12 and V14): which rows a database session sees (\<open>sees\<close>), and the
    statements of the daemon in a session. The statements of \<open>Chunk_Db\<close> are those of a session that bypasses the
    policies (\<open>statements_bypass\<close>); the tool's statements (\<open>Key_Rotation\<close>) are modelled in any session.
  \<^item> \<open>Embed\<close> (\<open>embed.rs\<close>), \<open>Cursor_State\<close> (\<open>state.rs\<close>; the locale \<open>cursor_store\<close>).
  \<^item> \<open>Connector\<close> (\<open>connector/mod.rs\<close>): the trait as a record of operations on a world, and the locale
    \<open>source_connector\<close>, interpreted by the two connectors; and the redirects that an HTTP client follows on its
    own (\<open>hop\<close>, \<open>hops_by\<close>), logged by both. The connectors: \<open>Graph\<close> (\<open>connector/graph.rs\<close>) and
    \<open>Zoho_Token\<close>, \<open>Zoho\<close> (\<open>connector/zoho.rs\<close>).
    \<open>Zoho_Runs\<close> has what holds over sequences of calls of the Zoho connector: where its secrets go, and
    the watermarks of successive crawls.
  \<^item> \<open>Ingestion\<close> and \<open>Daemon\<close> (\<open>main.rs\<close>): \<open>extract_text\<close>, \<open>run_cycle\<close>, \<open>build_zoho_connector\<close>, the pass
    over the connectors, and \<open>main\<close> (\<open>ingestion_main\<close>).
  \<^item> \<open>Index_Spec\<close>: the abstract daemon, an index of texts by item, a cursor by connector and the changes still
    to be treated (\<open>istep\<close>); the daemon one change at a time, with its process ending anywhere (\<open>dstep\<close>);
    the abstraction \<open>index_of\<close>, and the simulation of the one by the other.
    \<open>Healthy_Cycle\<close>: a cycle in which nothing fails computes the index that the changes describe.
  \<^item> \<open>Key_Rotation\<close> (the tool's \<open>main.rs\<close>, \<open>db.rs\<close>, \<open>embed.rs\<close>). \<open>Rotation_Live\<close>: its loop one statement at a
    time (\<open>lstep\<close>), with what other clients commit between them (\<open>edit\<close>: deletions, insertions, new embeddings,
    which covers the statements of the daemon, of racing upserts and of the gateway); without them the steps compute
    \<open>rotate_loop\<close> (\<open>undisturbed\<close>).
  \<^item> \<open>Sanitize\<close>, \<open>Regex_Scan\<close>, \<open>Ner\<close>, \<open>Vault\<close> (\<open>sanitize/mod.rs\<close>, \<open>regex_scan.rs\<close>, \<open>ner.rs\<close>, \<open>vault.rs\<close>):
    \<open>sanitize_off\<close>, \<open>sanitize_regex\<close> and \<open>sanitize_full\<close> are the three compile-time shapes of
    \<open>sanitize\<close>; scanners meet the locale \<open>span_scanner\<close>, the vault the locale \<open>token_store\<close>.
  \<^item> \<open>Repo_Tests\<close>: the assertions of the repository's unit tests, as lemmas over the same literals
    (chunker, keys and wire format, checksums, scanner, de-overlap, \<open>bio_merge\<close>, normalisation, trusted hosts,
    OAuth answers, watermark); with \<open>first_rx\<close>, a leftmost-first search that satisfies \<open>rx_laws\<close> on
    every text. The tests of downloads are the witness of \<open>token_confined\<close>; those that need PostgreSQL,
    the NER model or 50 threads have no lemma here (\<open>tokens_agree\<close> and \<open>single_flight\<close> are the theorems).
  \<^item> This theory: a property of the daemon and the tool together.

  \<^bold>\<open>State and effects.\<close> State is passed explicitly in records: \<open>daemon\<close> (the world of the
  connectors, the table, the cursors), \<open>rot\<close> (a rotation in progress), \<open>vault_db\<close>. What the outside
  answers (HTTP servers, the database failing, clocks, random bytes, files) is a function of a tick that
  every external action advances, so a model run is a function of the whole sequence of answers and a
  theorem that quantifies over the environment covers every sequence. Concurrent calls are step
  relations: \<open>tstep\<close> (the Zoho token cache and its gate), \<open>vstep\<close> and \<open>ustep\<close> (the statements of concurrent
  vault calls and of concurrent upserts under READ COMMITTED), \<open>lstep\<close> (a key rotation beside other clients
  of the table) and \<open>dstep\<close> (the daemon, whose process may end and be started again). An error is a value, a panic is \<open>Panics\<close>, a call that does not return is \<open>None\<close>.

  \<^bold>\<open>What the lemmas show.\<close>

  \<^item> Data at rest: an upsert replaces the rows of one item or changes nothing; concurrent upserts leave whole
    batches and never lose the last one, but may leave two of one item (\<open>racing_upserts_double\<close>); what the daemon stores are
    the windows of the text, sealed under its key; every row stays readable whatever fails in any pass;
    key rotation never loses a text, completes when it says so, and can be restarted; the two together
    keep the text. Beside a running daemon the rotation still changes nothing but keys; it is complete if the
    daemon only adds rows under the new key, and a deletion between two batches can make it skip a row. All this is
    of the rows it sees: in a session that the policies restrict it sees none and reports completion
    (\<open>rotation_blind\<close>).
  \<^item> The daemon as a whole: whatever fails, its runs refine the abstract index, so that an item only ever
    holds its old texts, none, or the windows of a content delivered for it, and a cursor moves only when
    no listed change is left to be treated, also when the process ends midway; when nothing fails, a cycle treats all of them to the full.
  \<^item> Text: the chunks are the closed-form windows, cover the text and determine it; all string
    slicing of the sanitizer stays on character boundaries.
  \<^item> Sources: the Zoho crawl and the Graph delta cycle are complete on well-behaved servers, also
    when the daemon drives the crawl cycle by cycle; each Zoho crawl asks for what changed since the
    crawl before it began; the code sends the Zoho token to trusted hosts only and the credentials to the token
    endpoint only, while its API client posts them again to wherever 307 and 308 redirects of that endpoint lead
    (\<open>redirected_credentials\<close>); refreshes are single-flight. Servers that make a listing endless, cursors that are never dropped, and changes
    that are passed over are stated as such.
  \<^item> Sanitizer: the choice of spans is greedy, left, longest; the check digits are those of the
    standards and catch a wrong digit; the NER spans are the maximal tagged runs; tokens agree
    under any interleaving; what goes wrong between two workspaces and in a race is stated.

  \<^bold>\<open>Bounds and fuel.\<close> The loops that end have termination proofs (\<open>chunk_loop\<close>, \<open>rotate_loop\<close>,
  \<open>entities\<close>); the paging loops of the connectors need not end and are \<open>partial_function (option)\<close>, with
  results for the servers on which they do and do not. \<open>dl_loop\<close> counts down the code's own
  \<open>MAX_REDIRECTS\<close>. \<open>zoho_crawl\<close> and \<open>run_cycles\<close> take a number of calls; one more than the number of
  reachable folders is proved enough. \<open>daemon_run\<close> takes the number of passes observed, and its
  theorems hold for every number. Machine integers are words where the code can wrap (page offsets,
  chunk numbers, label ids); lengths of data in memory are natural numbers.

  \<^bold>\<open>What is assumed\<close> are laws of third-party code, each a definition that a concrete instance
  satisfies: \<open>aead_laws\<close> (ring), \<open>hex_laws\<close>, \<open>rx_laws\<close> (the regex crate), \<open>ner_laws\<close> (the tokenizer's byte
  offsets), \<open>json_ok\<close> (serde on the cursor), \<open>redirect_laws\<close> (reqwest: what a redirected request carries), and the descriptions of servers in the completeness theorems
  (\<open>serves\<close>, \<open>token_ok\<close>). \<open>healthy\<close> and \<open>kr_smooth\<close> describe environments in which nothing fails; no
  theorem about failing environments assumes them. The daemon's statements are those of a database role that
  the row-level security does not restrict, and a transaction whose commit reports an error is rolled back.

  \<^bold>\<open>Not modelled.\<close> Argument parsing (clap), logging, progress bars and derived \<open>Debug\<close> output (the manual
  implementations that redact secrets are modelled); the sleep between passes; TLS, connection pools and the wire format of HTTP; the candle
  tensors and the search of the regex crate, which are parameters; exhaustion of memory; a commit
  that succeeds while its acknowledgement is lost; two key rotations at the same time; the redirects of the embedding
  clients. The
  Java gateway, the dashboards, the infrastructure files and the end-to-end tests are outside this development.
\<close>

section \<open>Ingestion, then key rotation\<close>

text \<open>No content of the table opens under both keys.\<close>

definition keys_apart :: "aead \<Rightarrow> bytes \<Rightarrow> bytes \<Rightarrow> table \<Rightarrow> bool" where
  "keys_apart A old new rows \<longleftrightarrow> (\<forall>r \<in> set rows. \<forall>w m m'. dc_encrypted_content r = Some w \<longrightarrow>
     kr_decrypt A old w = Inr m \<longrightarrow> kr_decrypt A new w \<noteq> Inr m')"

lemma evolves_item_rows:
  assumes "evolves A old new rows rows'"
  shows "list_all2 (\<lambda>r r'. row_place r' = row_place r \<and> moved A old new (dc_encrypted_content r) (dc_encrypted_content r'))
     (item_rows item rows) (item_rows item rows')"
  using assms unfolding evolves_def item_rows_def
  by (induction rule: list_all2_induct) (auto simp: row_place_def)

lemma moved_to_new:
  assumes "moved A old new c c'" and "\<forall>m'. kr_decrypt A new w \<noteq> Inr m'" and "c = Some w"
    and "kr_decrypt A old w = Inr m" and "new_readable A new c'"
  shows "map_option (kr_decrypt A new) c' = Some (Inr m)"
proof -
  have p: "plain_of A old new w = Some m" using assms(4) by (simp add: plain_of_def)
  have "c' \<noteq> c" using assms(2-5) by (auto simp: new_readable_def)
  with assms(1,3) p show ?thesis by (auto simp: moved_def)
qed

lemma item_texts_rotated:
  assumes "evolves A old new rows rows'" and "keys_apart A old new rows" and "all_new A new rows'"
    and "item_texts A old item rows = map (\<lambda>(k, m). (k, Some (Inr m))) ps"
  shows "item_texts A new item rows' = item_texts A old item rows"
proof -
  let ?L = "item_rows item rows" and ?L' = "item_rows item rows'"
  note la = evolves_item_rows [OF assms(1), of item]
  have len: "length ?L' = length ?L" "length ps = length ?L"
    using list_all2_lengthD [OF la] arg_cong [OF assms(4), of length] by (simp_all add: item_texts_def)
  have "(dc_chunk_index (?L' ! i), map_option (kr_decrypt A new) (dc_encrypted_content (?L' ! i))) =
      (dc_chunk_index (?L ! i), map_option (kr_decrypt A old) (dc_encrypted_content (?L ! i)))" if i: "i < length ?L" for i
  proof -
    have pl: "row_place (?L' ! i) = row_place (?L ! i)"
      and mv: "moved A old new (dc_encrypted_content (?L ! i)) (dc_encrypted_content (?L' ! i))"
      using list_all2_nthD [OF la i] by auto
    have "item_texts A old item rows ! i = (\<lambda>(k, m). (k, Some (Inr m))) (ps ! i)"
      using assms(4) i len by simp
    then obtain w m where w: "dc_encrypted_content (?L ! i) = Some w" "kr_decrypt A old w = Inr m"
      using i by (auto simp: item_texts_def split: prod.splits)
    have "?L' ! i \<in> set rows'" using i len nth_mem [of i ?L'] by (auto simp: item_rows_def)
    moreover have "dc_encrypted_content (?L' ! i) \<noteq> None" using moved_None [OF mv] w by simp
    ultimately have "new_readable A new (dc_encrypted_content (?L' ! i))" using assms(3) by (simp add: all_new_def)
    moreover have "?L ! i \<in> set rows" using i nth_mem [of i ?L] by (auto simp: item_rows_def)
    then have "\<forall>m'. kr_decrypt A new w \<noteq> Inr m'" using assms(2) w unfolding keys_apart_def by blast
    ultimately show ?thesis using moved_to_new [OF mv _ w] w pl by (simp add: row_place_def)
  qed
  then show ?thesis unfolding item_texts_def using len(1) by (intro nth_equalityI) simp_all
qed

lemma evolves_visible:
  assumes "evolves A old new rows rows'" and "Row_Security.visible S rows = rows"
  shows "Row_Security.visible S rows' = rows'"
proof -
  have "\<forall>r \<in> set rows. sees S r" using assms(2) by (simp add: Row_Security.visible_def filter_id_conv)
  then have "\<forall>r' \<in> set rows'. sees S r'" using evolves_mem [OF assms(1)] row_place_sees by metis
  then show ?thesis by (simp add: Row_Security.visible_def filter_id_conv)
qed

text \<open>
  C5. What the daemon stored survives a key rotation: when an item counts as processed and key rotation
  from the daemon's key, with a positive batch size and a session that sees every row of the table, then reports
  completion, and no content of the table opened under both keys (which authentication excludes but for a
  forgery), the rows of the item hold, under the new key, the windows of the item's text, numbered from 0 and
  nothing else. (With a batch size of 0, or hidden rows, completion is reported with rows left under the old key:
  \<open>batch_size_zero_reports_complete\<close>, \<open>rotation_blind\<close>.)
\<close>

theorem stored_text_survives_rotation:
  assumes "ingest_env_ok E" and "ingest_item E cc conn item d = Some (Returns (True, d'))"
    and "kr_parse_key (ke_hex K) (ka_old_key args) = Inr (cc_key cc)"
    and "kr_parse_key (ke_hex K) (ka_new_key args) = Inr new"
    and "kr_env_ok K (cc_key cc) new" and "ke_aead K = in_aead E" and "keys_apart (in_aead E) (cc_key cc) new (db_rows (dm_db d'))"
    and "distinct (map dc_id (db_rows (dm_db d')))" and "0 < ka_batch_size args"
    and "Row_Security.visible (ke_session K) (db_rows (dm_db d')) = db_rows (dm_db d')"
    and "kr_main K args (db_rows (dm_db d')) = (Inr (Complete tot r k), rows')"
  shows "\<exists>content w. cn_download conn item (dm_world d) = Some (Returns (Inr content, w)) \<and>
     item_texts (in_aead E) new (ci_remote_id item) rows' = numbered_texts (item_windows item content)"
proof -
  let ?A = "in_aead E" and ?rows = "db_rows (dm_db d')"
  obtain content w chunks encs embs where x:
    "cn_download conn item (dm_world d) = Some (Returns (Inr content, w))" "chunks = item_windows item content"
    "length encs = length chunks" "length embs = length chunks"
    "item_view (ci_remote_id item) ?rows = stored (pg_show (in_pg E)) 0 (zip encs embs)"
    "\<forall>i < length chunks. kr_decrypt ?A (cc_key cc) (encs ! i) = Inr (as_bytes (chunks ! i))"
    using ingest_item_stores [OF assms(1,2)] unfolding item_windows_def by blast
  have old: "item_texts ?A (cc_key cc) (ci_remote_id item) ?rows = numbered_texts chunks"
    by (rule item_texts_stored [OF x(5,3,4,6)])
  have ev: "evolves ?A (cc_key cc) new ?rows rows'"
    using kr_main_evolves [OF conjI [OF assms(3,4)] assms(5,8)] assms(6,11) by simp
  have an: "all_new ?A new rows'"
    using kr_main_complete [OF conjI [OF assms(3,4)] assms(5,8,9,11)] evolves_visible [OF ev assms(10)] assms(6) by simp
  have "item_texts ?A new (ci_remote_id item) rows' = item_texts ?A (cc_key cc) (ci_remote_id item) ?rows"
    by (rule item_texts_rotated [OF ev assms(7) an, of _ "map (\<lambda>(k, c). (of_nat k, as_bytes c)) (enumerate 0 chunks)"])
      (simp add: old numbered_texts_def comp_def split_def)
  with old x(1,2) show ?thesis by auto
qed

lemma toy_keys_apart: "keys_apart toy_aead (replicate 32 7) (replicate 32 9) rows"
proof -
  have "\<not> (16 \<le> length c \<and> drop (length c - 16) c = take 16 (replicate 32 (7::u8)) \<and>
      drop (length c - 16) c = take 16 (replicate 32 9))" for c
    by simp
  then show ?thesis
    by (auto simp: keys_apart_def kr_decrypt_Inr toy_aead_def split: if_splits)
qed

theorem stored_text_survives_rotation_witness:
  "\<exists>d' tot r k rows'.
     ingest_item toy_ingest toy_conf (toy_source ''a.txt'') (toy_file ''a.txt'') toy_daemon = Some (Returns (True, d')) \<and>
     kr_main kr_toy kr_toy_args (db_rows (dm_db d')) = (Inr (Complete tot r k), rows') \<and>
     item_texts toy_aead (replicate 32 9) ''f'' rows' = [(0, Some (Inr [104, 105]))]"
proof -
  obtain d' where d': "ingest_item toy_ingest toy_conf (toy_source ''a.txt'') (toy_file ''a.txt'') toy_daemon =
      Some (Returns (True, d'))" and rows: "db_rows (dm_db d') = [\<lparr>dc_id = 2, dc_doc_name = ''a.txt'',
      dc_classification = ''INTERNAL'', dc_chunk_index = 0,
      dc_encrypted_content = Some (replicate 12 1 @ [104, 105] @ replicate 16 7), dc_embedding = Some ''[2]'',
      dc_source_item_id = Some ''f'', dc_workspace_id = default_workspace\<rparr>]"
    using toy_ingests by (elim exE conjE) (rule that)
  have rd: "readable toy_aead (replicate 32 7) (replicate 32 9) (db_rows (dm_db d'))"
    unfolding rows by (simp add: readable_def plain_of_def kr_decrypt_def MIN_LEN_def IV_LEN_def toy_aead_def)
  have d: "distinct (map dc_id (db_rows (dm_db d')))" by (simp add: rows)
  obtain tot r k rows' where run: "kr_main kr_toy kr_toy_args (db_rows (dm_db d')) = (Inr (Complete tot r k), rows')"
    using kr_main_smooth [OF kr_toy_keys kr_toy_ok d kr_toy_args_simps(3,1) _ kr_toy_smooth] rd kr_toy_args_simps(2)
    by (simp add: kr_toy_def) (metis fst_conv surj_pair)
  have key: "cc_key toy_conf = replicate 32 7" "in_aead toy_ingest = toy_aead" "ke_aead kr_toy = toy_aead"
    by (simp_all add: toy_conf_def toy_ingest_def kr_toy_def)
  have vis: "Row_Security.visible (ke_session kr_toy) (db_rows (dm_db d')) = db_rows (dm_db d')" by (simp add: kr_toy_def)
  obtain content w where x:
    "cn_download (toy_source ''a.txt'') (toy_file ''a.txt'') (dm_world toy_daemon) = Some (Returns (Inr content, w))"
    "item_texts toy_aead (replicate 32 9) ''f'' rows' = numbered_texts (item_windows (toy_file ''a.txt'') content)"
    using stored_text_survives_rotation [OF toy_env_ok d' _ _ _ _ _ d _ _ run, of "replicate 32 9"]
      kr_toy_keys kr_toy_ok toy_keys_apart kr_toy_args_simps(2) key vis
    by (auto simp: toy_file_def)
  have "content = [104, 105]" using x(1) by (simp add: toy_source_def toy_file_def)
  then have "item_texts toy_aead (replicate 32 9) ''f'' rows' = [(0, Some (Inr [104, 105]))]"
    using x(2) toy_chunk
    by (simp add: toy_text chunk_eq as_bytes_def item_windows_def numbered_texts_def toy_file_def)
  with d' run show ?thesis by blast
qed

end
